(* ===== verification/Prelude.thy ===== *)
theory Prelude
  imports Main "HOL-Library.Word" "HOL-Library.AList"
begin

text \<open>
  Shared vocabulary of the development: results of code that may throw, bytes and the big-endian
  fields of the wire formats, JavaScript's insertion-ordered maps as association lists, and the
  lemma collections (\<open>wire_simps\<close>, \<open>jsmap_simps\<close>) the component theories draw on.
\<close>

named_theorems wire_simps "big-endian field encodings and their inverses"
named_theorems jsmap_simps "lookup and key laws of insertion-ordered maps"

section \<open>Results of code that may throw\<close>

type_synonym ('e, 'a) result = "'e + 'a"

fun bind_result :: "('e, 'a) result \<Rightarrow> ('a \<Rightarrow> ('e, 'b) result) \<Rightarrow> ('e, 'b) result" where
  "bind_result (Inl e) f = Inl e"
| "bind_result (Inr a) f = f a"

lemma bind_result_Inr_iff:
  "bind_result r f = Inr b \<longleftrightarrow> (\<exists>a. r = Inr a \<and> f a = Inr b)"
  by (cases r) auto

lemma bind_result_Inr [simp]: "bind_result r Inr = r"
  by (cases r) auto

lemma bind_result_assoc:
  "bind_result (bind_result r f) g = bind_result r (\<lambda>a. bind_result (f a) g)"
  by (cases r) auto

lemma bind_result_cong [fundef_cong]:
  "r = r' \<Longrightarrow> (\<And>a. r' = Inr a \<Longrightarrow> f a = g a) \<Longrightarrow> bind_result r f = bind_result r' g"
  by (cases r') auto

section \<open>Bytes and big-endian fields\<close>

type_synonym byte = "8 word"
type_synonym bytes = "byte list"

text \<open>\<open>byte_of n\<close> is what storing the number \<open>n\<close> in a \<^verbatim>\<open>Uint8Array\<close> cell keeps: its low eight bits.\<close>

definition byte_of :: "nat \<Rightarrow> byte" where
  "byte_of n = word_of_nat n"

lemma unat_byte_of [simp, wire_simps]: "unat (byte_of n) = n mod 256"
  by (simp add: byte_of_def unat_of_nat)

lemma byte_of_unat [simp]: "byte_of (unat b) = b"
  by (simp add: byte_of_def)

lemma unat_byte_lt [simp]: "unat (b :: byte) < 256"
  using unsigned_less [of b, where ?'a = nat] by simp

lemma byte_of_inject: "m < 256 \<Longrightarrow> n < 256 \<Longrightarrow> byte_of m = byte_of n \<longleftrightarrow> m = n"
  by (metis mod_less unat_byte_of)

text \<open>\<^verbatim>\<open>writeUInt16BE\<close>, \<^verbatim>\<open>setUint32(.., false)\<close> and their readers.\<close>

definition be16 :: "nat \<Rightarrow> bytes" where
  "be16 n = [byte_of (n div 256), byte_of n]"

definition be32 :: "nat \<Rightarrow> bytes" where
  "be32 n = [byte_of (n div 16777216), byte_of (n div 65536), byte_of (n div 256), byte_of n]"

fun nat_be :: "bytes \<Rightarrow> nat" where
  "nat_be [] = 0"
| "nat_be (b # bs) = unat b * 256 ^ length bs + nat_be bs"

lemma length_be16 [simp, wire_simps]: "length (be16 n) = 2"
  by (simp add: be16_def)

lemma length_be32 [simp, wire_simps]: "length (be32 n) = 4"
  by (simp add: be32_def)

lemma nat_be_lt: "nat_be bs < 256 ^ length bs"
proof (induction bs)
  case (Cons b bs)
  have "unat b * 256 ^ length bs + nat_be bs < (unat b + 1) * 256 ^ length bs"
    using Cons by simp
  also have "\<dots> \<le> 256 * 256 ^ length bs"
    using unat_byte_lt [of b] by (intro mult_right_mono) linarith+
  finally show ?case by simp
qed simp

lemma nat_be_be16 [wire_simps]: "nat_be (be16 n) = n mod 65536"
proof -
  have "n mod 65536 = (n div 256 mod 256) * 256 + n mod 256"
    using mod_mult2_eq[of n 256 256] by simp
  then show ?thesis by (simp add: be16_def)
qed

lemma nat_be_be32 [wire_simps]: "nat_be (be32 n) = n mod 4294967296"
proof -
  have a: "n mod 4294967296 = 256 * (n div 256 mod 16777216) + n mod 256"
    using mod_mult2_eq[of n 256 16777216] by simp
  have b: "n div 256 mod 16777216 = 256 * (n div 256 div 256 mod 65536) + n div 256 mod 256"
    using mod_mult2_eq[of "n div 256" 256 65536] by simp
  have c: "n div 65536 mod 65536 = 256 * (n div 65536 div 256 mod 256) + n div 65536 mod 256"
    using mod_mult2_eq[of "n div 65536" 256 256] by simp
  have d: "n div 256 div 256 = n div 65536" "n div 65536 div 256 = n div 16777216"
    by (simp_all add: div_mult2_eq [symmetric])
  show ?thesis
    using a b c by (simp add: be32_def d)
qed

lemma be16_inverse: "n < 65536 \<Longrightarrow> nat_be (be16 n) = n"
  by (simp add: nat_be_be16)

lemma be32_inverse: "n < 4294967296 \<Longrightarrow> nat_be (be32 n) = n"
  by (simp add: nat_be_be32)

section \<open>Insertion-ordered maps\<close>

text \<open>
  A JavaScript \<^verbatim>\<open>Map\<close> (or a plain object used as one) is an association list in insertion order:
  \<^verbatim>\<open>get\<close> is \<open>map_of\<close>, \<^verbatim>\<open>set\<close> is \<open>AList.update\<close> (a key already present keeps its place),
  \<^verbatim>\<open>delete\<close> is \<open>AList.delete\<close>. The invariant is that no key occurs twice.
\<close>

type_synonym ('k, 'v) jsmap = "('k \<times> 'v) list"

abbreviation jsget :: "('k, 'v) jsmap \<Rightarrow> 'k \<Rightarrow> 'v option" where
  "jsget m \<equiv> map_of m"

abbreviation jsset :: "('k, 'v) jsmap \<Rightarrow> 'k \<Rightarrow> 'v \<Rightarrow> ('k, 'v) jsmap" where
  "jsset m k v \<equiv> AList.update k v m"

abbreviation jsdelete :: "('k, 'v) jsmap \<Rightarrow> 'k \<Rightarrow> ('k, 'v) jsmap" where
  "jsdelete m k \<equiv> AList.delete k m"

abbreviation jskeys :: "('k, 'v) jsmap \<Rightarrow> 'k list" where
  "jskeys m \<equiv> map fst m"

abbreviation jshas :: "('k, 'v) jsmap \<Rightarrow> 'k \<Rightarrow> bool" where
  "jshas m k \<equiv> map_of m k \<noteq> None"

abbreviation jsmap_ok :: "('k, 'v) jsmap \<Rightarrow> bool" where
  "jsmap_ok m \<equiv> distinct (map fst m)"

lemma jsget_jsset [jsmap_simps]: "jsget (jsset m k v) = (jsget m)(k \<mapsto> v)"
  by (rule update_conv')

lemma jsget_jsdelete [jsmap_simps]: "jsget (jsdelete m k) = (jsget m)(k := None)"
  by (rule delete_conv')

lemma jsmap_ok_jsset [jsmap_simps]: "jsmap_ok m \<Longrightarrow> jsmap_ok (jsset m k v)"
  by (rule distinct_update)

lemma jsmap_ok_jsdelete [jsmap_simps]: "jsmap_ok m \<Longrightarrow> jsmap_ok (jsdelete m k)"
  by (rule distinct_delete)

lemma jskeys_jsset: "set (jskeys (jsset m k v)) = insert k (set (jskeys m))"
  by (auto simp: update_keys)

lemma jshas_iff: "jshas m k \<longleftrightarrow> k \<in> set (jskeys m)"
  by (simp add: map_of_eq_None_iff)

lemma length_jsset:
  "length (jsset m k v) = (if k \<in> set (jskeys m) then length m else Suc (length m))"
  by (induction m) auto

lemma length_jsdelete_le: "length (jsdelete m k) \<le> length m"
  by (rule length_delete_le)

lemma jsset_mem:
  "jsmap_ok m \<Longrightarrow> (k', v') \<in> set (jsset m k v) \<longleftrightarrow> (if k' = k then v' = v else (k', v') \<in> set m)"
  by (induction m) (auto simp: rev_image_eqI)

lemma jsdelete_mem: "(k', v') \<in> set (jsdelete m k) \<longleftrightarrow> k' \<noteq> k \<and> (k', v') \<in> set m"
  by (auto simp: AList.delete_eq)

lemma map_of_filter_distinct:
  "distinct (map fst al) \<Longrightarrow>
   map_of (filter P al) k = (case map_of al k of Some v \<Rightarrow> if P (k, v) then Some v else None | None \<Rightarrow> None)"
  by (induction al) (auto simp: map_of_eq_None_iff image_iff split: option.splits)

lemma distinct_keys_filter: "distinct (map fst al) \<Longrightarrow> distinct (map fst (filter P al))"
  by (induction al) auto

lemma length_filter_one_key:
  "distinct (map fst al) \<Longrightarrow> (\<And>k v. (k, v) \<in> set al \<Longrightarrow> P (k, v) \<Longrightarrow> k = j) \<Longrightarrow> length (filter P al) \<le> 1"
proof (induction al)
  case (Cons x al)
  obtain k v where x: "x = (k, v)" by (cases x)
  show ?case
  proof (cases "P x")
    case True
    then have "k = j" using Cons.prems(2) [of k v] x by simp
    have "\<not> P y" if "y \<in> set al" for y
    proof
      assume "P y"
      then have "fst y = j" using Cons.prems(2) [of "fst y" "snd y"] that by simp
      then show False using \<open>k = j\<close> Cons.prems(1) that x by auto
    qed
    then have "filter P al = []" by (simp add: filter_empty_conv)
    then show ?thesis by simp
  next
    case False
    have "length (filter P al) \<le> 1" using Cons.prems by (intro Cons.IH) auto
    then show ?thesis using False by simp
  qed
qed simp

section \<open>Sets kept in insertion order\<close>

text \<open>A \<^verbatim>\<open>Set\<close>: \<^verbatim>\<open>add\<close> appends a new element and leaves a present one where it is.\<close>

definition jsadd :: "'a list \<Rightarrow> 'a \<Rightarrow> 'a list" where
  "jsadd s x = (if x \<in> set s then s else s @ [x])"

definition jsremove :: "'a list \<Rightarrow> 'a \<Rightarrow> 'a list" where
  "jsremove s x = filter (\<lambda>y. y \<noteq> x) s"

text \<open>\<^verbatim>\<open>[...new Set(xs)]\<close>: the first occurrences of \<open>xs\<close>, in order.\<close>

fun jsuniq :: "'a list \<Rightarrow> 'a list" where
  "jsuniq [] = []"
| "jsuniq (x # xs) = x # filter (\<lambda>y. y \<noteq> x) (jsuniq xs)"

lemma set_jsadd [simp]: "set (jsadd s x) = insert x (set s)"
  by (auto simp: jsadd_def)

lemma distinct_jsadd [simp]: "distinct (jsadd s x) \<longleftrightarrow> distinct s"
  by (auto simp: jsadd_def)

lemma set_jsremove [simp]: "set (jsremove s x) = set s - {x}"
  by (auto simp: jsremove_def)

lemma distinct_jsremove [simp]: "distinct s \<Longrightarrow> distinct (jsremove s x)"
  by (simp add: jsremove_def)

lemma set_jsuniq [simp]: "set (jsuniq xs) = set xs"
  by (induction xs) auto

lemma distinct_jsuniq [simp]: "distinct (jsuniq xs)"
  by (induction xs) auto

end
