(* ===== verification/Chunked.thy ===== *)
theory Chunked
  imports Prelude
begin

text \<open>
  The interface the incremental parsers of the wire formats share: bytes arrive in chunks of any
  size, \<open>push\<close> consumes one chunk and answers the items it completed. The law is that pushing two
  chunks is pushing their concatenation, errors included; from it every parser gets that what it
  delivers does not depend on where the transport cut the stream.
\<close>

section \<open>Feeding a stream chunk by chunk\<close>

fun feed :: "('s \<Rightarrow> 'b list \<Rightarrow> ('e, 's \<times> 'o list) result) \<Rightarrow> 's \<Rightarrow> 'b list list \<Rightarrow> ('e, 's \<times> 'o list) result" where
  "feed push s [] = Inr (s, [])"
| "feed push s (c # cs) =
     bind_result (push s c) (\<lambda>(s1, o1). bind_result (feed push s1 cs) (\<lambda>(s2, o2). Inr (s2, o1 @ o2)))"

section \<open>The interface\<close>

locale chunked_parser =
  fixes push :: "'s \<Rightarrow> 'b list \<Rightarrow> ('e, 's \<times> 'o list) result"
    and inv :: "'s \<Rightarrow> bool"
  assumes push_nil: "inv s \<Longrightarrow> push s [] = Inr (s, [])"
    and push_inv: "inv s \<Longrightarrow> push s xs = Inr (s', out) \<Longrightarrow> inv s'"
    and push_append: "inv s \<Longrightarrow>
      push s (xs @ ys) =
        bind_result (push s xs) (\<lambda>(s1, o1). bind_result (push s1 ys) (\<lambda>(s2, o2). Inr (s2, o1 @ o2)))"
begin

lemma feed_concat: "inv s \<Longrightarrow> feed push s cs = push s (concat cs)"
proof (induction cs arbitrary: s)
  case Nil
  then show ?case by (simp add: push_nil)
next
  case (Cons c cs)
  show ?case
  proof (cases "push s c")
    case (Inl e)
    then show ?thesis by (simp add: push_append [OF Cons.prems])
  next
    case (Inr p)
    obtain s1 o1 where p: "p = (s1, o1)" by (cases p)
    with Inr Cons.prems have "inv s1" using push_inv by blast
    then show ?thesis
      using Inr p by (simp add: push_append [OF Cons.prems] Cons.IH)
  qed
qed

lemma feed_chunking: "inv s \<Longrightarrow> concat cs = concat ds \<Longrightarrow> feed push s cs = feed push s ds"
  by (simp add: feed_concat)

lemma feed_inv: "inv s \<Longrightarrow> feed push s cs = Inr (s', out) \<Longrightarrow> inv s'"
  using feed_concat push_inv by metis

end

end
