(* ===== verification/Grpc_Framing.thy ===== *)
theory Grpc_Framing
  imports Chunked
begin

text \<open>
  \<^verbatim>\<open>packages/protocol-grpc/src/grpc/framing.ts\<close>: gRPC's length-prefixed messages. \<open>grpc_push\<close> is the
  method \<^verbatim>\<open>GrpcFrameParser.push\<close> with the parser object as its state; a message over the limit is the
  \<^verbatim>\<open>GrpcError\<close> it throws, and the parser object it leaves behind (the joined buffer, no frame consumed).
\<close>

section \<open>Frames\<close>

record grpc_frame =
  compressed :: bool
  payload :: bytes

definition HEADER_BYTES :: nat where
  "HEADER_BYTES = 5"

definition encode_grpc_frame :: "bytes \<Rightarrow> bool \<Rightarrow> bytes" where
  "encode_grpc_frame p c = byte_of (if c then 1 else 0) # be32 (length p) @ p"

section \<open>The parser\<close>

record grpc_parser =
  buffered :: bytes
  max_message_bytes :: nat

datatype grpc_error = Grpc_message_too_large nat nat

definition new_grpc_parser :: "nat option \<Rightarrow> grpc_parser" where
  "new_grpc_parser m =
     \<lparr>buffered = [], max_message_bytes = (case m of None \<Rightarrow> 64 * 1024 * 1024 | Some n \<Rightarrow> n)\<rparr>"

text \<open>The \<^verbatim>\<open>while\<close> loop of \<^verbatim>\<open>push\<close>, on the bytes from \<^verbatim>\<open>offset\<close> on: the frames read, and the bytes left.\<close>

function grpc_drain :: "nat \<Rightarrow> bytes \<Rightarrow> (grpc_error, bytes \<times> grpc_frame list) result" where
  "grpc_drain m buf =
     (if HEADER_BYTES \<le> length buf then
        let flags = buf ! 0; len = nat_be (take 4 (drop 1 buf)) in
        if m < len then Inl (Grpc_message_too_large len m)
        else if length buf - HEADER_BYTES < len then Inr (buf, [])
        else bind_result (grpc_drain m (drop (HEADER_BYTES + len) buf))
               (\<lambda>(rest, fs). Inr (rest, \<lparr>compressed = odd (unat flags),
                  payload = take len (drop HEADER_BYTES buf)\<rparr> # fs))
      else Inr (buf, []))"
  by pat_completeness auto
termination
  by (relation "measure (\<lambda>(m, buf). length buf)") (auto simp: HEADER_BYTES_def)

declare grpc_drain.simps [simp del]

definition grpc_push :: "grpc_parser \<Rightarrow> bytes \<Rightarrow> (grpc_error, grpc_frame list) result \<times> grpc_parser" where
  "grpc_push p chunk =
     (let p1 = p\<lparr>buffered := (if buffered p = [] then chunk else buffered p @ chunk)\<rparr> in
      case grpc_drain (max_message_bytes p1) (buffered p1) of
        Inl e \<Rightarrow> (Inl e, p1)
      | Inr (rest, fs) \<Rightarrow> (Inr fs, p1\<lparr>buffered := rest\<rparr>))"

definition grpc_pending :: "grpc_parser \<Rightarrow> nat" where
  "grpc_pending p = length (buffered p)"

section \<open>The parser as a chunked parser\<close>

text \<open>Once \<^verbatim>\<open>push\<close> throws, the call is over: the view of \<open>grpc_push\<close> that stops at an error.\<close>

definition grpc_view :: "grpc_parser \<Rightarrow> bytes \<Rightarrow> (grpc_error, grpc_parser \<times> grpc_frame list) result" where
  "grpc_view p chunk = (case grpc_push p chunk of (Inl e, _) \<Rightarrow> Inl e | (Inr fs, p') \<Rightarrow> Inr (p', fs))"

text \<open>Between pushes the buffer holds no whole frame and no header over the limit.\<close>

definition grpc_inv :: "grpc_parser \<Rightarrow> bool" where
  "grpc_inv p \<longleftrightarrow> grpc_drain (max_message_bytes p) (buffered p) = Inr (buffered p, [])"

lemma grpc_view_alt:
  "grpc_view p chunk =
     bind_result (grpc_drain (max_message_bytes p) (buffered p @ chunk))
       (\<lambda>(rest, fs). Inr (p\<lparr>buffered := rest\<rparr>, fs))"
  by (auto simp: grpc_view_def grpc_push_def Let_def split: sum.splits)

lemma grpc_drain_short: "length buf < HEADER_BYTES \<Longrightarrow> grpc_drain m buf = Inr (buf, [])"
  by (simp add: grpc_drain.simps)

lemma grpc_drain_too_large:
  "HEADER_BYTES \<le> length buf \<Longrightarrow> m < nat_be (take 4 (drop 1 buf)) \<Longrightarrow>
   grpc_drain m buf = Inl (Grpc_message_too_large (nat_be (take 4 (drop 1 buf))) m)"
  by (simp add: grpc_drain.simps Let_def)

lemma grpc_drain_incomplete:
  "\<not> m < nat_be (take 4 (drop 1 buf)) \<Longrightarrow> length buf - HEADER_BYTES < nat_be (take 4 (drop 1 buf)) \<Longrightarrow>
   grpc_drain m buf = Inr (buf, [])"
  by (simp add: grpc_drain.simps Let_def)

lemma grpc_drain_frame:
  "HEADER_BYTES \<le> length buf \<Longrightarrow> len = nat_be (take 4 (drop 1 buf)) \<Longrightarrow> \<not> m < len \<Longrightarrow>
   \<not> length buf - HEADER_BYTES < len \<Longrightarrow>
   grpc_drain m buf = bind_result (grpc_drain m (drop (HEADER_BYTES + len) buf))
     (\<lambda>(rest, fs). Inr (rest, \<lparr>compressed = odd (unat (buf ! 0)), payload = take len (drop HEADER_BYTES buf)\<rparr> # fs))"
  by (subst grpc_drain.simps) (simp add: Let_def)

text \<open>The four ways one turn of the loop goes, as a case rule.\<close>

lemma grpc_drain_cases:
  obtains (short) "length buf < HEADER_BYTES"
  | (large) "HEADER_BYTES \<le> length buf" "m < nat_be (take 4 (drop 1 buf))"
  | (incomplete) "HEADER_BYTES \<le> length buf" "\<not> m < nat_be (take 4 (drop 1 buf))"
      "length buf - HEADER_BYTES < nat_be (take 4 (drop 1 buf))"
  | (frame) "HEADER_BYTES \<le> length buf" "\<not> m < nat_be (take 4 (drop 1 buf))"
      "\<not> length buf - HEADER_BYTES < nat_be (take 4 (drop 1 buf))"
  by force

lemma grpc_drain_rest: "grpc_drain m buf = Inr (rest, fs) \<Longrightarrow> grpc_drain m rest = Inr (rest, [])"
proof (induction m buf arbitrary: fs rule: grpc_drain.induct)
  case (1 m buf)
  show ?case
  proof (cases rule: grpc_drain_cases [where buf = buf and m = m])
    case frame
    then show ?thesis
      using "1.IH" "1.prems" by (auto simp: grpc_drain_frame bind_result_Inr_iff)
  qed (use "1.prems" in \<open>auto simp: grpc_drain_short grpc_drain_too_large grpc_drain_incomplete\<close>)
qed

lemma grpc_drain_append:
  "grpc_drain m (xs @ ys) =
     bind_result (grpc_drain m xs) (\<lambda>(r1, f1). bind_result (grpc_drain m (r1 @ ys)) (\<lambda>(r2, f2). Inr (r2, f1 @ f2)))"
proof (induction m xs rule: grpc_drain.induct)
  case (1 m xs)
  let ?len = "nat_be (take 4 (drop 1 xs))"
  show ?case
  proof (cases rule: grpc_drain_cases [where buf = xs and m = m])
    case short
    then show ?thesis by (simp add: grpc_drain_short)
  next
    case large
    then show ?thesis by (simp add: grpc_drain_too_large HEADER_BYTES_def)
  next
    case incomplete
    then show ?thesis by (simp add: grpc_drain_incomplete)
  next
    case frame
    then have whole_frame: "HEADER_BYTES \<le> length (xs @ ys)"
        "?len = nat_be (take 4 (drop 1 (xs @ ys)))" "\<not> length (xs @ ys) - HEADER_BYTES < ?len"
      and same: "(xs @ ys) ! 0 = xs ! 0"
        "take ?len (drop HEADER_BYTES (xs @ ys)) = take ?len (drop HEADER_BYTES xs)"
        "drop (HEADER_BYTES + ?len) (xs @ ys) = drop (HEADER_BYTES + ?len) xs @ ys"
      by (auto simp: HEADER_BYTES_def nth_append)
    have IH: "grpc_drain m (drop (HEADER_BYTES + ?len) xs @ ys) =
      bind_result (grpc_drain m (drop (HEADER_BYTES + ?len) xs))
        (\<lambda>(r1, f1). bind_result (grpc_drain m (r1 @ ys)) (\<lambda>(r2, f2). Inr (r2, f1 @ f2)))"
      using "1.IH" frame by blast
    show ?thesis
      unfolding grpc_drain_frame [OF whole_frame(1,2) frame(2) whole_frame(3)]
        grpc_drain_frame [OF frame(1) refl frame(2,3)] same IH bind_result_assoc
      by (cases "grpc_drain m (drop (HEADER_BYTES + ?len) xs)")
        (auto simp: bind_result_assoc case_prod_unfold)
  qed
qed

interpretation grpc: chunked_parser grpc_view grpc_inv
proof
  fix p xs ys p' out
  assume inv: "grpc_inv p"
  show "grpc_view p [] = Inr (p, [])"
    using inv by (simp add: grpc_view_alt grpc_inv_def)
  show "grpc_view p (xs @ ys) = bind_result (grpc_view p xs)
      (\<lambda>(s1, o1). bind_result (grpc_view s1 ys) (\<lambda>(s2, o2). Inr (s2, o1 @ o2)))"
    unfolding grpc_view_alt append_assoc [symmetric] grpc_drain_append [of _ "buffered p @ xs"]
    by (auto simp: bind_result_assoc intro!: bind_result_cong)
  show "grpc_inv p'" if "grpc_view p xs = Inr (p', out)"
    using that by (auto simp: grpc_view_alt grpc_inv_def bind_result_Inr_iff dest: grpc_drain_rest)
qed

lemma grpc_inv_new: "grpc_inv (new_grpc_parser m)"
  by (simp add: grpc_inv_def new_grpc_parser_def grpc_drain_short HEADER_BYTES_def)

section \<open>Properties\<close>

text \<open>Encoded frames decode to themselves.\<close>

lemma length_encode_grpc_frame [simp]: "length (encode_grpc_frame p c) = HEADER_BYTES + length p"
  by (simp add: encode_grpc_frame_def HEADER_BYTES_def)

lemma grpc_drain_encoded:
  assumes "length p \<le> m" "length p < 2 ^ 32"
  shows "grpc_drain m (encode_grpc_frame p c @ rest) =
    bind_result (grpc_drain m rest) (\<lambda>(r, fs). Inr (r, \<lparr>compressed = c, payload = p\<rparr> # fs))"
proof -
  let ?buf = "encode_grpc_frame p c @ rest"
  have len: "length p = nat_be (take 4 (drop 1 ?buf))"
    using assms by (simp add: encode_grpc_frame_def be32_inverse)
  define head where "head = byte_of (if c then 1 else 0) # be32 (length p)"
  have buf: "?buf = head @ p @ rest" and head: "length head = HEADER_BYTES" "odd (unat (head ! 0)) = c"
    by (auto simp: head_def encode_grpc_frame_def HEADER_BYTES_def)
  have parts: "odd (unat (?buf ! 0)) = c" "take (length p) (drop HEADER_BYTES ?buf) = p"
      "drop (HEADER_BYTES + length p) ?buf = rest"
    using head by (auto simp: buf nth_append HEADER_BYTES_def)
  show ?thesis
    by (subst grpc_drain_frame [OF _ len]) (use assms parts in auto)
qed

lemma grpc_drain_encoded_list:
  assumes "\<forall>f \<in> set fs. length (payload f) \<le> m \<and> length (payload f) < 2 ^ 32"
  shows "grpc_drain m (concat (map (\<lambda>f. encode_grpc_frame (payload f) (compressed f)) fs)) = Inr ([], fs)"
  using assms
proof (induction fs)
  case Nil
  then show ?case by (simp add: grpc_drain_short HEADER_BYTES_def)
next
  case (Cons f fs)
  then show ?case by (simp add: grpc_drain_encoded)
qed

text \<open>C27: framing messages and parsing them back, in whatever chunks the HTTP/2 stream delivers the bytes,
  gives exactly the messages with their compressed flags and leaves nothing pending.\<close>

theorem grpc_frames_roundtrip:
  assumes "\<forall>f \<in> set fs. length (payload f) \<le> max_message_bytes (new_grpc_parser m) \<and> length (payload f) < 2 ^ 32"
    and "concat chunks = concat (map (\<lambda>f. encode_grpc_frame (payload f) (compressed f)) fs)"
  shows "\<exists>p. feed grpc_view (new_grpc_parser m) chunks = Inr (p, fs) \<and> grpc_pending p = 0"
proof -
  have "feed grpc_view (new_grpc_parser m) chunks = grpc_view (new_grpc_parser m) (concat chunks)"
    by (rule grpc.feed_concat [OF grpc_inv_new])
  also have "\<dots> = Inr ((new_grpc_parser m)\<lparr>buffered := []\<rparr>, fs)"
    using grpc_drain_encoded_list [OF assms(1)] assms(2)
    by (simp add: grpc_view_alt new_grpc_parser_def)
  finally show ?thesis by (simp add: grpc_pending_def)
qed

theorem grpc_frames_roundtrip_witness:
  "\<exists>p. feed grpc_view (new_grpc_parser None) [[0,0,0], [0,2,7], [8,1,0,0,0,0]] =
     Inr (p, [\<lparr>compressed = False, payload = [7, 8]\<rparr>, \<lparr>compressed = True, payload = []\<rparr>]) \<and> grpc_pending p = 0"
  by (rule grpc_frames_roundtrip) (simp_all add: encode_grpc_frame_def be32_def byte_of_def new_grpc_parser_def)

text \<open>what the parser delivers, errors included, depends on the bytes only, not on how they were cut into chunks.\<close>

theorem grpc_chunking_irrelevant:
  assumes "concat chunks = concat chunks'"
  shows "feed grpc_view (new_grpc_parser m) chunks = feed grpc_view (new_grpc_parser m) chunks'"
  by (rule grpc.feed_chunking [OF grpc_inv_new assms])

theorem grpc_chunking_irrelevant_witness:
  "feed grpc_view (new_grpc_parser (Some 1)) [[0,0], [0,0,1,9], [0,0,0,0,2]] =
   feed grpc_view (new_grpc_parser (Some 1)) [[0,0,0,0,1,9,0,0,0,0,2]]"
  by (rule grpc_chunking_irrelevant) simp

lemma grpc_drain_bounded:
  "grpc_drain m buf = Inr (rest, fs) \<Longrightarrow> f \<in> set fs \<Longrightarrow> length (payload f) \<le> m"
proof (induction m buf arbitrary: fs rule: grpc_drain.induct)
  case (1 m buf)
  show ?case
  proof (cases rule: grpc_drain_cases [where buf = buf and m = m])
    case frame
    then show ?thesis using "1.IH" "1.prems" by (auto simp: grpc_drain_frame bind_result_Inr_iff)
  qed (use "1.prems" in \<open>auto simp: grpc_drain_short grpc_drain_too_large grpc_drain_incomplete\<close>)
qed

text \<open>no frame the parser delivers is larger than the limit, and a header that announces a larger one
  is refused with the announced length and the limit as soon as its five bytes are there.\<close>

theorem grpc_message_bounded:
  "(\<forall>fs p' f. grpc_push p chunk = (Inr fs, p') \<longrightarrow> f \<in> set fs \<longrightarrow> length (payload f) \<le> max_message_bytes p) \<and>
   (max_message_bytes p < nat_be [b1, b2, b3, b4] \<longrightarrow>
    grpc_push (p\<lparr>buffered := []\<rparr>) ([b0, b1, b2, b3, b4] @ tail) =
      (Inl (Grpc_message_too_large (nat_be [b1, b2, b3, b4]) (max_message_bytes p)),
       p\<lparr>buffered := [b0, b1, b2, b3, b4] @ tail\<rparr>))"
  by (auto simp: grpc_push_def Let_def grpc_drain_too_large HEADER_BYTES_def
      split: sum.splits dest: grpc_drain_bounded)

theorem grpc_message_bounded_witness:
  "grpc_push (new_grpc_parser (Some 2)) [0, 0, 0, 0, 3] =
     (Inl (Grpc_message_too_large 3 2), (new_grpc_parser (Some 2))\<lparr>buffered := [0, 0, 0, 0, 3]\<rparr>)"
  using grpc_message_bounded [of "new_grpc_parser (Some 2)" "[]" 0 0 0 3 0 "[]"]
  by (simp add: new_grpc_parser_def)

end
