(* ===== verification/Ctaphid.thy ===== *)
theory Ctaphid
  imports Prelude
begin

unbundle bit_operations_syntax

text \<open>
  \<^verbatim>\<open>packages/ssh/src/fido/ctaphid.ts\<close>: CTAP messages framed into 64-byte HID reports on a channel. The
  device is the list of input reports it will still deliver; once the list is empty it stays silent,
  which is the \<^verbatim>\<open>timeout\<close> error of \<^verbatim>\<open>readMessage\<close>. A returned list is what the device has left to deliver.
  \<^verbatim>\<open>onTouch\<close> is the flag that is returned: whether it was called (it is called once at most).
\<close>

section \<open>Constants and errors\<close>

definition REPORT_SIZE :: nat where "REPORT_SIZE = 64"
definition CMD_INIT :: nat where "CMD_INIT = 6"
definition CMD_CBOR :: nat where "CMD_CBOR = 16"
definition CMD_KEEPALIVE :: nat where "CMD_KEEPALIVE = 59"
definition CMD_ERROR :: nat where "CMD_ERROR = 63"
definition BROADCAST_CID :: nat where "BROADCAST_CID = 4294967295"
definition STATUS_UPNEEDED :: byte where "STATUS_UPNEEDED = 2"
definition CAPABILITY_CBOR :: byte where "CAPABILITY_CBOR = 4"

lemmas ctaphid_constants = REPORT_SIZE_def CMD_INIT_def CMD_CBOR_def CMD_KEEPALIVE_def CMD_ERROR_def
  BROADCAST_CID_def STATUS_UPNEEDED_def CAPABILITY_CBOR_def

datatype hid_error =
    Hid_timeout
  | Hid_too_long
  | Hid_refused "byte option"
  | Hid_garbled
  | Hid_u2f_only
  | Hid_range_error

section \<open>Framing\<close>

text \<open>\<^verbatim>\<open>Buffer.alloc(REPORT_SIZE)\<close> filled from the front.\<close>

definition report_of :: "bytes \<Rightarrow> bytes" where
  "report_of bs = take REPORT_SIZE bs @ replicate (REPORT_SIZE - length bs) 0"

definition init_packet :: "nat \<Rightarrow> nat \<Rightarrow> bytes \<Rightarrow> bytes" where
  "init_packet cid cmd payload =
     report_of (be32 cid @ [byte_of (128 OR cmd)] @ be16 (length payload) @ take (REPORT_SIZE - 7) payload)"

definition cont_packet :: "nat \<Rightarrow> nat \<Rightarrow> bytes \<Rightarrow> bytes" where
  "cont_packet cid sq chunk = report_of (be32 cid @ [byte_of sq] @ take (REPORT_SIZE - 5) chunk)"

function cont_frames :: "nat \<Rightarrow> nat \<Rightarrow> bytes \<Rightarrow> (hid_error, bytes list) result" where
  "cont_frames cid sq rest =
     (if rest = [] then Inr []
      else if 127 < sq then Inl Hid_too_long
      else bind_result (cont_frames cid (Suc sq) (drop (REPORT_SIZE - 5) rest))
             (\<lambda>fs. Inr (cont_packet cid sq rest # fs)))"
  by pat_completeness auto
termination
  by (relation "measure (\<lambda>(cid, sq, rest). length rest)") (auto simp: REPORT_SIZE_def)

declare cont_frames.simps [simp del]

text \<open>\<^verbatim>\<open>writeUInt16BE\<close> throws a \<^verbatim>\<open>RangeError\<close> for a length that does not fit.\<close>

definition frames_of :: "nat \<Rightarrow> nat \<Rightarrow> bytes \<Rightarrow> (hid_error, bytes list) result" where
  "frames_of cid cmd payload =
     (if 65536 \<le> length payload then Inl Hid_range_error
      else bind_result (cont_frames cid 0 (drop (REPORT_SIZE - 7) payload))
             (\<lambda>fs. Inr (init_packet cid cmd payload # fs)))"

section \<open>Reading a message\<close>

definition on_channel :: "nat \<Rightarrow> bytes \<Rightarrow> bool" where
  "on_channel cid r \<longleftrightarrow> 5 \<le> length r \<and> nat_be (take 4 r) = cid mod 4294967296"

fun next_report :: "nat \<Rightarrow> bytes list \<Rightarrow> (hid_error, bytes \<times> bytes list) result" where
  "next_report cid [] = Inl Hid_timeout"
| "next_report cid (r # rs) = (if on_channel cid r then Inr (r, rs) else next_report cid rs)"

lemma next_report_suffix: "next_report cid rs = Inr (r, rs') \<Longrightarrow> \<exists>pre. rs = pre @ r # rs'"
  by (induction rs) (auto split: if_splits intro: exI [of _ "_ # _"])

lemma next_report_shorter: "next_report cid rs = Inr (r, rs') \<Longrightarrow> length rs' < length rs"
  by (auto dest: next_report_suffix)

function read_rest :: "nat \<Rightarrow> nat \<Rightarrow> nat \<Rightarrow> bytes \<Rightarrow> bytes list \<Rightarrow> (hid_error, bytes \<times> bytes list) result" where
  "read_rest cid len sq acc rs =
     (if length acc < len then
        bind_result (next_report cid rs) (\<lambda>(r, rs').
          if unat (r ! 4) \<noteq> sq then Inl Hid_garbled
          else read_rest cid len (Suc sq) (acc @ take (min (len - length acc) (REPORT_SIZE - 5)) (drop 5 r)) rs')
      else Inr (acc, rs))"
  by pat_completeness auto
termination
  by (relation "measure (\<lambda>(cid, len, sq, acc, rs). length rs)") (auto dest: next_report_shorter)

declare read_rest.simps [simp del]

function read_message :: "nat \<Rightarrow> nat \<Rightarrow> bool \<Rightarrow> bytes list \<Rightarrow> (hid_error, bytes \<times> bool \<times> bytes list) result" where
  "read_message cid cmd touch_told rs =
     bind_result (next_report cid rs) (\<lambda>(r, rs').
       let command = r ! 4; typ = unat (command AND 127); len = nat_be (take 2 (drop 5 r)) in
       if command AND 128 = 0 \<or> length r < 7 then read_message cid cmd touch_told rs'
       else if typ = CMD_KEEPALIVE then
         read_message cid cmd (touch_told \<or> (7 < length r \<and> r ! 7 = STATUS_UPNEEDED)) rs'
       else if typ = CMD_ERROR then Inl (Hid_refused (if 7 < length r then Some (r ! 7) else None))
       else if typ \<noteq> cmd then read_message cid cmd touch_told rs'
       else bind_result (read_rest cid len 0 (take (min len (REPORT_SIZE - 7)) (drop 7 r)) rs')
              (\<lambda>(msg, rest). Inr (msg, touch_told, rest)))"
  by pat_completeness auto
termination
  by (relation "measure (\<lambda>(cid, cmd, t, rs). length rs)") (auto dest: next_report_shorter)

declare read_message.simps [simp del]

lemma read_rest_suffix: "read_rest cid len sq acc rs = Inr (msg, rs') \<Longrightarrow> \<exists>pre. rs = pre @ rs'"
proof (induction cid len sq acc rs rule: read_rest.induct)
  case (1 cid len sq acc rs)
  then show ?case
    by (fastforce simp: read_rest.simps [of cid len sq acc rs] bind_result_Inr_iff
        split: if_splits dest!: next_report_suffix)
qed

lemma read_message_suffix:
  "read_message cid cmd t rs = Inr (msg, t', rs') \<Longrightarrow> \<exists>pre. pre \<noteq> [] \<and> rs = pre @ rs'"
proof (induction cid cmd t rs rule: read_message.induct)
  case (1 cid cmd t rs)
  from "1.prems" obtain r rs1 where r: "next_report cid rs = Inr (r, rs1)"
    by (subst (asm) read_message.simps) (auto simp: bind_result_Inr_iff)
  then obtain pre where pre: "rs = pre @ r # rs1" using next_report_suffix by blast
  have "\<exists>pre1. rs1 = pre1 @ rs'"
    using r "1.prems" "1.IH" [OF r refl refl refl refl]
    by (auto simp: read_message.simps [of cid cmd t rs] Let_def bind_result_Inr_iff
        split: if_splits dest: read_rest_suffix)
  then obtain pre1 where "rs1 = pre1 @ rs'" by blast
  with pre show ?case by (intro exI [of _ "pre @ r # pre1"]) simp
qed

lemma read_message_shorter: "read_message cid cmd t rs = Inr (msg, t', rs') \<Longrightarrow> length rs' < length rs"
  by (auto dest: read_message_suffix)

section \<open>Opening a channel\<close>

text \<open>
  \<^verbatim>\<open>CtapHid.open\<close> after its INIT message is written: replies that do not echo the nonce belong to other
  programs. The channel id is read from the reply.
\<close>

function open_channel :: "bytes \<Rightarrow> bytes list \<Rightarrow> (hid_error, nat \<times> bytes list) result" where
  "open_channel nonce rs =
     bind_result (read_message BROADCAST_CID CMD_INIT False rs) (\<lambda>(reply, _, rs').
       if length reply < 17 \<or> take 8 reply \<noteq> nonce then open_channel nonce rs'
       else if (reply ! 16) AND CAPABILITY_CBOR = 0 then Inl Hid_u2f_only
       else Inr (nat_be (take 4 (drop 8 reply)), rs'))"
  by pat_completeness auto
termination
  by (relation "measure (\<lambda>(nonce, rs). length rs)") (auto dest: read_message_shorter)

declare open_channel.simps [simp del]


section \<open>Reports of other programs do not matter\<close>

definition keep_mine :: "nat \<Rightarrow> bytes list \<Rightarrow> bytes list" where
  "keep_mine cid rs = filter (on_channel cid) rs"

lemma next_report_mine:
  "next_report cid (keep_mine cid rs) =
     bind_result (next_report cid rs) (\<lambda>(r, rs'). Inr (r, keep_mine cid rs'))"
  by (induction rs) (auto simp: keep_mine_def)

lemma read_rest_mine:
  "read_rest cid len sq acc (keep_mine cid rs) =
     bind_result (read_rest cid len sq acc rs) (\<lambda>(m, rs'). Inr (m, keep_mine cid rs'))"
proof (induction cid len sq acc rs rule: read_rest.induct)
  case (1 cid len sq acc rs)
  then show ?case
    by (cases "next_report cid rs")
      (auto simp: read_rest.simps [of cid len sq acc] next_report_mine bind_result_assoc)
qed

lemma read_message_mine:
  "read_message cid cmd t (keep_mine cid rs) =
     bind_result (read_message cid cmd t rs) (\<lambda>(m, t', rs'). Inr (m, t', keep_mine cid rs'))"
proof (induction cid cmd t rs rule: read_message.induct)
  case (1 cid cmd t rs)
  show ?case
  proof (cases "next_report cid rs")
    case (Inl e)
    then show ?thesis by (simp add: read_message.simps [of cid cmd t] next_report_mine)
  next
    case (Inr p)
    obtain r rs1 where p: "p = (r, rs1)" by (cases p)
    show ?thesis
      using "1.IH" [OF Inr p [symmetric] refl refl refl] Inr p
      by (simp add: read_message.simps [of cid cmd t] next_report_mine read_rest_mine Let_def
          bind_result_assoc case_prod_unfold)
  qed
qed

section \<open>Framing and reading agree\<close>

lemma report_of_short: "length bs \<le> REPORT_SIZE \<Longrightarrow> report_of bs = bs @ replicate (REPORT_SIZE - length bs) 0"
  by (simp add: report_of_def)

lemma length_report_of [simp]: "length (report_of bs) = REPORT_SIZE"
  by (simp add: report_of_def)

lemma on_channel_report: "on_channel cid (report_of (be32 cid @ bs))"
  by (simp add: on_channel_def report_of_def REPORT_SIZE_def nat_be_be32)

lemma report_of_header:
  "length hdr \<le> REPORT_SIZE \<Longrightarrow> \<exists>pad. report_of (hdr @ take (REPORT_SIZE - length hdr) p) =
     hdr @ take (REPORT_SIZE - length hdr) p @ pad"
  by (auto simp: report_of_def)

lemma init_packet_shape:
  "\<exists>pad. init_packet cid cmd p =
     be32 cid @ [byte_of (128 OR cmd)] @ be16 (length p) @ take (REPORT_SIZE - 7) p @ pad"
  using report_of_header [of "be32 cid @ [byte_of (128 OR cmd)] @ be16 (length p)" p]
  by (simp add: init_packet_def REPORT_SIZE_def)

lemma cont_packet_shape:
  "\<exists>pad. cont_packet cid sq p = be32 cid @ [byte_of sq] @ take (REPORT_SIZE - 5) p @ pad"
  using report_of_header [of "be32 cid @ [byte_of sq]" p]
  by (simp add: cont_packet_def REPORT_SIZE_def)

lemma init_command_byte:
  assumes "cmd < 128"
  shows "(byte_of (128 OR cmd) AND 128) \<noteq> 0" and "unat (byte_of (128 OR cmd) AND 127) = cmd"
proof -
  have w: "byte_of (128 OR cmd) = 128 OR byte_of cmd"
    by (simp add: byte_of_def of_nat_or_eq)
  have "bit (byte_of (128 OR cmd) AND 128) 7"
    by (simp add: w bit_simps)
  then show "(byte_of (128 OR cmd) AND 128) \<noteq> 0" by fastforce
  have "(128 OR byte_of cmd) AND 127 = byte_of cmd AND 127"
    by (simp add: bit.conj_disj_distrib2)
  also have "\<dots> = take_bit 7 (byte_of cmd)"
    by (simp add: take_bit_eq_mask mask_numeral)
  finally show "unat (byte_of (128 OR cmd) AND 127) = cmd"
    using assms by (simp add: w unsigned_take_bit_eq) (simp add: take_bit_eq_mod)
qed

lemma init_packet_fields:
  assumes "cmd < 128" "length p < 65536"
  shows "on_channel cid (init_packet cid cmd p)"
    and "(init_packet cid cmd p ! 4) AND 128 \<noteq> 0"
    and "unat ((init_packet cid cmd p ! 4) AND 127) = cmd"
    and "nat_be (take 2 (drop 5 (init_packet cid cmd p))) = length p"
    and "take (min (length p) (REPORT_SIZE - 7)) (drop 7 (init_packet cid cmd p)) = take (REPORT_SIZE - 7) p"
proof -
  obtain pad where shape: "init_packet cid cmd p =
      be32 cid @ [byte_of (128 OR cmd)] @ be16 (length p) @ take (REPORT_SIZE - 7) p @ pad"
    using init_packet_shape by blast
  then have nth: "init_packet cid cmd p ! 4 = byte_of (128 OR cmd)"
    by (simp add: nth_append)
  show "on_channel cid (init_packet cid cmd p)"
    unfolding init_packet_def by (rule on_channel_report)
  show "(init_packet cid cmd p ! 4) AND 128 \<noteq> 0" "unat ((init_packet cid cmd p ! 4) AND 127) = cmd"
    unfolding nth by (rule init_command_byte [OF assms(1)])+
  show "nat_be (take 2 (drop 5 (init_packet cid cmd p))) = length p"
    using assms(2) by (simp add: shape be16_inverse)
  show "take (min (length p) (REPORT_SIZE - 7)) (drop 7 (init_packet cid cmd p)) = take (REPORT_SIZE - 7) p"
    by (simp add: shape min_def)
qed

lemma cont_packet_fields:
  assumes "sq < 256"
  shows "on_channel cid (cont_packet cid sq p)" and "unat (cont_packet cid sq p ! 4) = sq"
    and "take (min (length p) (REPORT_SIZE - 5)) (drop 5 (cont_packet cid sq p)) = take (REPORT_SIZE - 5) p"
proof -
  obtain pad where shape: "cont_packet cid sq p = be32 cid @ [byte_of sq] @ take (REPORT_SIZE - 5) p @ pad"
    using cont_packet_shape by blast
  show "on_channel cid (cont_packet cid sq p)"
    unfolding cont_packet_def by (rule on_channel_report)
  show "unat (cont_packet cid sq p ! 4) = sq"
    using assms by (simp add: shape nth_append)
  show "take (min (length p) (REPORT_SIZE - 5)) (drop 5 (cont_packet cid sq p)) = take (REPORT_SIZE - 5) p"
    by (simp add: shape min_def)
qed

lemma read_rest_frames:
  assumes "cont_frames cid sq p = Inr fs" "sq \<le> 128"
  shows "read_rest cid (length acc + length p) sq acc (fs @ rest) = Inr (acc @ p, rest)"
  using assms
proof (induction cid sq p arbitrary: acc fs rule: cont_frames.induct)
  case (1 cid sq p)
  show ?case
  proof (cases "p = []")
    case True
    then show ?thesis
      using "1.prems" by (simp add: cont_frames.simps [of cid sq "[]"] read_rest.simps [of cid "length acc"])
  next
    case False
    with "1.prems" obtain fs' where sq: "sq < 128" and fs: "fs = cont_packet cid sq p # fs'"
      and fs': "cont_frames cid (Suc sq) (drop (REPORT_SIZE - 5) p) = Inr fs'"
      by (auto simp: cont_frames.simps [of cid sq p] bind_result_Inr_iff split: if_splits)
    let ?chunk = "take (REPORT_SIZE - 5) p"
    have IH: "read_rest cid (length (acc @ ?chunk) + length (drop (REPORT_SIZE - 5) p)) (Suc sq) (acc @ ?chunk)
        (fs' @ rest) = Inr ((acc @ ?chunk) @ drop (REPORT_SIZE - 5) p, rest)"
      by (rule "1.IH") (use False sq fs' in auto)
    have whole: "length (acc @ ?chunk) + length (drop (REPORT_SIZE - 5) p) = length acc + length p"
      "(acc @ ?chunk) @ drop (REPORT_SIZE - 5) p = acc @ p"
      by simp_all
    show ?thesis
      using False sq fs cont_packet_fields [where sq = sq and cid = cid and p = p] IH [unfolded whole]
      by (subst read_rest.simps) simp
  qed
qed

lemma read_message_frames:
  assumes "frames_of cid cmd p = Inr fs" "cmd < 128" "cmd \<noteq> CMD_KEEPALIVE" "cmd \<noteq> CMD_ERROR"
  shows "read_message cid cmd t (fs @ rest) = Inr (p, t, rest)"
proof -
  obtain fs' where len: "length p < 65536" and fs: "fs = init_packet cid cmd p # fs'"
    and fs': "cont_frames cid 0 (drop (REPORT_SIZE - 7) p) = Inr fs'"
    using assms(1) by (auto simp: frames_of_def bind_result_Inr_iff split: if_splits)
  have "read_rest cid (length (take (REPORT_SIZE - 7) p) + length (drop (REPORT_SIZE - 7) p)) 0
      (take (REPORT_SIZE - 7) p) (fs' @ rest) = Inr (take (REPORT_SIZE - 7) p @ drop (REPORT_SIZE - 7) p, rest)"
    by (rule read_rest_frames [OF fs']) simp
  moreover have "length (take (REPORT_SIZE - 7) p) + length (drop (REPORT_SIZE - 7) p) = length p"
    by simp
  ultimately have "read_rest cid (length p) 0 (take (REPORT_SIZE - 7) p) (fs' @ rest) = Inr (p, rest)"
    by (simp only: append_take_drop_id)
  moreover have "7 \<le> length (init_packet cid cmd p)"
    by (simp add: init_packet_def REPORT_SIZE_def)
  ultimately show ?thesis
    using init_packet_fields [where cid = cid and cmd = cmd and p = p, OF assms(2) len] assms(3,4) fs
    by (subst read_message.simps) (simp add: Let_def)
qed

text \<open>What \<^verbatim>\<open>readMessage\<close> passes over on its own channel: stray continuation packets, keep-alives, other replies.\<close>

definition passed_over :: "nat \<Rightarrow> bytes \<Rightarrow> bool" where
  "passed_over cmd r \<longleftrightarrow> (r ! 4) AND 128 = 0 \<or> length r < 7 \<or>
     (unat ((r ! 4) AND 127) \<noteq> CMD_ERROR \<and> unat ((r ! 4) AND 127) \<noteq> cmd)"

definition wants_touch :: "bytes \<Rightarrow> bool" where
  "wants_touch r \<longleftrightarrow> (r ! 4) AND 128 \<noteq> 0 \<and> 7 < length r \<and> unat ((r ! 4) AND 127) = CMD_KEEPALIVE \<and> r ! 7 = STATUS_UPNEEDED"

lemma read_message_passed:
  assumes "\<forall>r \<in> set noise. on_channel cid r \<and> passed_over cmd r" "cmd \<noteq> CMD_KEEPALIVE"
  shows "read_message cid cmd t (noise @ rs) = read_message cid cmd (t \<or> (\<exists>r \<in> set noise. wants_touch r)) rs"
  using assms(1)
proof (induction noise arbitrary: t)
  case Nil
  then show ?case by simp
next
  case (Cons r noise)
  then have r: "on_channel cid r" "passed_over cmd r" by auto
  have "CMD_KEEPALIVE \<noteq> CMD_ERROR" by (simp add: ctaphid_constants)
  then have "read_message cid cmd t (r # noise @ rs) = read_message cid cmd (t \<or> wants_touch r) (noise @ rs)"
    using r assms(2) by (subst read_message.simps) (auto simp: Let_def passed_over_def wants_touch_def)
  with Cons show ?case by (simp add: disj_assoc)
qed

lemma cont_frames_ok: "sq \<le> 128 \<Longrightarrow> (\<exists>fs. cont_frames cid sq p = Inr fs) \<longleftrightarrow> length p \<le> 59 * (128 - sq)"
proof (induction cid sq p rule: cont_frames.induct)
  case (1 cid sq p)
  show ?case
  proof (cases "p = [] \<or> sq = 128")
    case True
    with "1.prems" show ?thesis by (auto simp: cont_frames.simps [of cid sq p])
  next
    case False
    then have "(\<exists>fs. cont_frames cid sq p = Inr fs) \<longleftrightarrow> length (drop 59 p) \<le> 59 * (128 - Suc sq)"
      using "1.IH" "1.prems"
      by (subst cont_frames.simps) (simp add: bind_result_Inr_iff REPORT_SIZE_def)
    then show ?thesis using False "1.prems" by auto
  qed
qed

lemma cont_frames_error: "cont_frames cid sq p = Inl e \<Longrightarrow> e = Hid_too_long"
proof (induction cid sq p rule: cont_frames.induct)
  case (1 cid sq p)
  then show ?case
    by (cases "cont_frames cid (Suc sq) (drop (REPORT_SIZE - 5) p)")
      (auto simp: cont_frames.simps [of cid sq p] split: if_splits)
qed

lemma cont_frames_sized: "cont_frames cid sq p = Inr fs \<Longrightarrow> f \<in> set fs \<Longrightarrow> length f = REPORT_SIZE"
proof (induction cid sq p arbitrary: fs rule: cont_frames.induct)
  case (1 cid sq p)
  then show ?case
    by (auto simp: cont_frames.simps [of cid sq p] bind_result_Inr_iff cont_packet_def split: if_splits)
qed

section \<open>Properties\<close>

text \<open>a message framed for a channel is read back from it whole, although reports of other programs are
  mixed in anywhere and stray packets, keep-alives and other replies come first; the touch callback has fired
  exactly if it had before or a keep-alive asked for a touch.\<close>

theorem ctaphid_roundtrip:
  assumes "frames_of cid cmd p = Inr fs" "cmd < 128" "cmd \<noteq> CMD_KEEPALIVE" "cmd \<noteq> CMD_ERROR"
    and "keep_mine cid rs = noise @ fs @ rest"
    and "\<forall>r \<in> set noise. passed_over cmd r"
  shows "\<exists>rs'. read_message cid cmd t rs = Inr (p, t \<or> (\<exists>r \<in> set noise. wants_touch r), rs') \<and> keep_mine cid rs' = rest"
proof -
  have mine: "\<forall>r \<in> set noise. on_channel cid r \<and> passed_over cmd r"
  proof
    fix r assume "r \<in> set noise"
    then have "r \<in> set (keep_mine cid rs)" using assms(5) by simp
    then show "on_channel cid r \<and> passed_over cmd r"
      using assms(6) \<open>r \<in> set noise\<close> by (auto simp: keep_mine_def)
  qed
  have "read_message cid cmd t (keep_mine cid rs) = Inr (p, t \<or> (\<exists>r \<in> set noise. wants_touch r), rest)"
    unfolding assms(5) read_message_passed [OF mine assms(3)]
    by (rule read_message_frames [OF assms(1-4)])
  then show ?thesis
    by (auto simp: read_message_mine bind_result_Inr_iff)
qed

theorem ctaphid_roundtrip_witness:
  "\<exists>rs'. read_message 5 CMD_CBOR False
      ([report_of [0,0,0,9,144], report_of [0,0,0,5,187,0,1,2]] @ [init_packet 5 CMD_CBOR [1,2,3]])
    = Inr ([1,2,3], False \<or> (\<exists>r \<in> set [report_of [0,0,0,5,187,0,1,2]]. wants_touch r), rs') \<and> keep_mine 5 rs' = []"
proof (rule ctaphid_roundtrip)
  show "frames_of 5 CMD_CBOR [1,2,3] = Inr [init_packet 5 CMD_CBOR [1,2,3]]"
    by (simp add: frames_of_def cont_frames.simps REPORT_SIZE_def)
qed (simp_all add: ctaphid_constants keep_mine_def on_channel_def report_of_def passed_over_def
    init_packet_def be32_def be16_def byte_of_def)

text \<open>Framing gives reports of exactly 64 bytes and succeeds exactly for messages of at most 7609 bytes;
  a longer one is refused as too long for one transaction (or, from 65536 bytes on, by the length field).\<close>

theorem ctaphid_frames_sized:
  "(length p \<le> 7609 \<longrightarrow> (\<exists>fs. frames_of cid cmd p = Inr fs \<and> fs \<noteq> [] \<and> (\<forall>f \<in> set fs. length f = 64))) \<and>
   (7609 < length p \<and> length p < 65536 \<longrightarrow> frames_of cid cmd p = Inl Hid_too_long) \<and>
   (65536 \<le> length p \<longrightarrow> frames_of cid cmd p = Inl Hid_range_error)"
proof (intro conjI impI)
  assume short: "length p \<le> 7609"
  then obtain fs where "cont_frames cid 0 (drop 57 p) = Inr fs"
    using cont_frames_ok [of 0 cid "drop 57 p"] by auto
  with short show "\<exists>fs. frames_of cid cmd p = Inr fs \<and> fs \<noteq> [] \<and> (\<forall>f \<in> set fs. length f = 64)"
    using cont_frames_sized [of cid 0 "drop 57 p" fs]
    by (auto simp: frames_of_def REPORT_SIZE_def init_packet_def)
next
  assume long: "7609 < length p \<and> length p < 65536"
  then have "\<not> (\<exists>fs. cont_frames cid 0 (drop 57 p) = Inr fs)"
    using cont_frames_ok [of 0 cid "drop 57 p"] by auto
  then obtain e where "cont_frames cid 0 (drop 57 p) = Inl e"
    by (cases "cont_frames cid 0 (drop 57 p)") auto
  with long show "frames_of cid cmd p = Inl Hid_too_long"
    using cont_frames_error [of cid 0 "drop 57 p" e] by (simp add: frames_of_def REPORT_SIZE_def)
qed (simp add: frames_of_def)

theorem ctaphid_frames_sized_witness:
  "frames_of 1 CMD_CBOR (replicate 7610 0) = Inl Hid_too_long"
  using ctaphid_frames_sized [of "replicate 7610 0" 1 CMD_CBOR] by simp

text \<open>opening a channel never takes a reply meant for another program: the channel id comes from a reply
  on the broadcast channel that is at least 17 bytes long, echoes this call's nonce and announces CTAP2.\<close>

theorem ctaphid_open_nonce:
  assumes "open_channel nonce rs = Inr (cid, rest)"
  shows "\<exists>reply t before after. rs = before @ after \<and> read_message BROADCAST_CID CMD_INIT False after = Inr (reply, t, rest) \<and>
    17 \<le> length reply \<and> take 8 reply = nonce \<and> (reply ! 16) AND CAPABILITY_CBOR \<noteq> 0 \<and>
    cid = nat_be (take 4 (drop 8 reply))"
  using assms
proof (induction nonce rs rule: open_channel.induct)
  case (1 nonce rs)
  from "1.prems" obtain reply t rs1 where m: "read_message BROADCAST_CID CMD_INIT False rs = Inr (reply, t, rs1)"
    by (subst (asm) open_channel.simps) (auto simp: bind_result_Inr_iff)
  show ?case
  proof (cases "length reply < 17 \<or> take 8 reply \<noteq> nonce")
    case True
    with m "1.prems" have "open_channel nonce rs1 = Inr (cid, rest)"
      by (simp add: open_channel.simps [of nonce rs])
    from "1.IH" [OF m refl refl True this] obtain reply' t' before after where
      "rs1 = before @ after" and rest: "read_message BROADCAST_CID CMD_INIT False after = Inr (reply', t', rest)"
      "17 \<le> length reply'" "take 8 reply' = nonce" "(reply' ! 16) AND CAPABILITY_CBOR \<noteq> 0"
      "cid = nat_be (take 4 (drop 8 reply'))"
      by blast
    moreover obtain pre where "rs = pre @ rs1" using read_message_suffix [OF m] by blast
    ultimately have "rs = (pre @ before) @ after" by simp
    with rest show ?thesis by blast
  next
    case False
    with m "1.prems" have "(reply ! 16) AND CAPABILITY_CBOR \<noteq> 0" "cid = nat_be (take 4 (drop 8 reply))" "rs1 = rest"
      by (auto simp: open_channel.simps [of nonce rs] split: if_splits)
    with m False show ?thesis by (intro exI [of _ reply] exI [of _ t] exI [of _ "[]"] exI [of _ rs]) auto
  qed
qed

theorem ctaphid_open_nonce_witness:
  "\<exists>reply t before after.
     [init_packet BROADCAST_CID CMD_INIT ([1,2,3,4,5,6,7,8] @ [0,0,0,5] @ [2,5,4,3,4])] = before @ after \<and>
     read_message BROADCAST_CID CMD_INIT False after = Inr (reply, t, []) \<and>
     17 \<le> length reply \<and> take 8 reply = [1,2,3,4,5,6,7,8] \<and> (reply ! 16) AND CAPABILITY_CBOR \<noteq> 0 \<and>
     5 = nat_be (take 4 (drop 8 reply))"
proof (rule ctaphid_open_nonce)
  let ?msg = "[1,2,3,4,5,6,7,8] @ [0,0,0,5] @ [2,5,4,3,4] :: bytes"
  have f: "frames_of BROADCAST_CID CMD_INIT ?msg = Inr [init_packet BROADCAST_CID CMD_INIT ?msg]"
    by (simp add: frames_of_def cont_frames.simps [of _ _ "[]"] REPORT_SIZE_def)
  have "read_message BROADCAST_CID CMD_INIT False ([init_packet BROADCAST_CID CMD_INIT ?msg] @ []) = Inr (?msg, False, [])"
    by (rule read_message_frames [OF f]) (simp_all add: ctaphid_constants)
  then show "open_channel [1,2,3,4,5,6,7,8] [init_packet BROADCAST_CID CMD_INIT ?msg] = Inr (5, [])"
    by (subst open_channel.simps) (simp add: CAPABILITY_CBOR_def)
qed

end
