(* ===== verification/Utf8.thy ===== *)
theory Utf8
  imports Chunked
begin

text \<open>
  Text of the standard library the sources lean on: strings as lists of Unicode scalar values, the UTF-8
  encoder (\<^verbatim>\<open>Buffer.from(s, 'utf8')\<close>, \<^verbatim>\<open>TextEncoder\<close>) and the WHATWG decoder (\<^verbatim>\<open>TextDecoder\<close>,
  \<^verbatim>\<open>Buffer.toString('utf8')\<close>) as the byte-at-a-time machine of the Encoding standard, which replaces what is
  malformed by U+FFFD. Lone surrogates, which a JavaScript string may hold, are not represented.
\<close>

type_synonym ustring = "nat list"

definition ustring_of :: "string \<Rightarrow> ustring" where
  "ustring_of s = map of_char s"

definition scalar :: "nat \<Rightarrow> bool" where
  "scalar c \<longleftrightarrow> c < 0xD800 \<or> (0xE000 \<le> c \<and> c < 0x110000)"

section \<open>Encoding\<close>

definition utf8_char :: "nat \<Rightarrow> bytes" where
  "utf8_char c =
     (if c < 0x80 then [byte_of c]
      else if c < 0x800 then [byte_of (0xC0 + c div 64), byte_of (0x80 + c mod 64)]
      else if c < 0x10000 then
        [byte_of (0xE0 + c div 4096), byte_of (0x80 + c div 64 mod 64), byte_of (0x80 + c mod 64)]
      else [byte_of (0xF0 + c div 262144), byte_of (0x80 + c div 4096 mod 64),
            byte_of (0x80 + c div 64 mod 64), byte_of (0x80 + c mod 64)])"

definition utf8 :: "ustring \<Rightarrow> bytes" where
  "utf8 s = concat (map utf8_char s)"

lemma utf8_simps [simp]:
  "utf8 [] = []" "utf8 (c # s) = utf8_char c @ utf8 s" "utf8 (s @ t) = utf8 s @ utf8 t"
  by (simp_all add: utf8_def)

section \<open>Decoding\<close>

text \<open>The decoder's state: continuation bytes still needed, the code point so far, and the bounds of the next byte.\<close>

datatype utf8_state = Utf8_state (needed: nat) (point: nat) (lower: nat) (upper: nat)

definition utf8_start :: utf8_state where
  "utf8_start = Utf8_state 0 0 0x80 0xBF"

definition utf8_first :: "nat \<Rightarrow> utf8_state \<times> ustring" where
  "utf8_first b =
     (if b \<le> 0x7F then (utf8_start, [b])
      else if 0xC2 \<le> b \<and> b \<le> 0xDF then (Utf8_state 1 (b - 0xC0) 0x80 0xBF, [])
      else if 0xE0 \<le> b \<and> b \<le> 0xEF then
        (Utf8_state 2 (b - 0xE0) (if b = 0xE0 then 0xA0 else 0x80) (if b = 0xED then 0x9F else 0xBF), [])
      else if 0xF0 \<le> b \<and> b \<le> 0xF4 then
        (Utf8_state 3 (b - 0xF0) (if b = 0xF0 then 0x90 else 0x80) (if b = 0xF4 then 0x8F else 0xBF), [])
      else (utf8_start, [0xFFFD]))"

fun utf8_step :: "utf8_state \<Rightarrow> byte \<Rightarrow> utf8_state \<times> ustring" where
  "utf8_step (Utf8_state n c lo hi) w =
     (let b = unat w in
      if n = 0 then utf8_first b
      else if b < lo \<or> hi < b then (let (s, out) = utf8_first b in (s, 0xFFFD # out))
      else let c' = c * 64 + (b - 0x80) in
           if n = 1 then (utf8_start, [c']) else (Utf8_state (n - 1) c' 0x80 0xBF, []))"

fun utf8_run :: "utf8_state \<Rightarrow> bytes \<Rightarrow> utf8_state \<times> ustring" where
  "utf8_run s [] = (s, [])"
| "utf8_run s (b # bs) = (let (s1, o1) = utf8_step s b; (s2, o2) = utf8_run s1 bs in (s2, o1 @ o2))"

text \<open>What the end of the stream flushes: one replacement for a sequence cut short.\<close>

definition utf8_flush :: "utf8_state \<Rightarrow> ustring" where
  "utf8_flush s = (if needed s = 0 then [] else [0xFFFD])"

text \<open>\<^verbatim>\<open>Buffer.toString('utf8')\<close>.\<close>

definition buffer_to_string :: "bytes \<Rightarrow> ustring" where
  "buffer_to_string bs = (let (s, t) = utf8_run utf8_start bs in t @ utf8_flush s)"

text \<open>\<^verbatim>\<open>new TextDecoder().decode(bs)\<close>, which drops one leading byte-order mark.\<close>

definition strip_bom :: "ustring \<Rightarrow> ustring" where
  "strip_bom t = (case t of c # cs \<Rightarrow> if c = 0xFEFF then cs else t | [] \<Rightarrow> [])"

definition text_decode :: "bytes \<Rightarrow> ustring" where
  "text_decode bs = strip_bom (buffer_to_string bs)"

section \<open>Laws\<close>

lemma utf8_run_append:
  "utf8_run s (xs @ ys) = (let (s1, o1) = utf8_run s xs; (s2, o2) = utf8_run s1 ys in (s2, o1 @ o2))"
  by (induction xs arbitrary: s) (auto simp: Let_def case_prod_unfold)

lemma utf8_run_2:
  "2 \<le> q \<Longrightarrow> q < 32 \<Longrightarrow> r < 64 \<Longrightarrow>
   utf8_run utf8_start [byte_of (0xC0 + q), byte_of (0x80 + r)] = (utf8_start, [q * 64 + r])"
  by (simp add: utf8_start_def utf8_first_def)

lemma utf8_run_3:
  "p < 16 \<Longrightarrow> q < 64 \<Longrightarrow> r < 64 \<Longrightarrow> p = 0 \<longrightarrow> 32 \<le> q \<Longrightarrow> p = 13 \<longrightarrow> q < 32 \<Longrightarrow>
   utf8_run utf8_start [byte_of (0xE0 + p), byte_of (0x80 + q), byte_of (0x80 + r)] =
     (utf8_start, [(p * 64 + q) * 64 + r])"
  by (auto simp: utf8_start_def utf8_first_def Let_def)

lemma utf8_run_4:
  "n < 5 \<Longrightarrow> p < 64 \<Longrightarrow> q < 64 \<Longrightarrow> r < 64 \<Longrightarrow> n = 0 \<longrightarrow> 16 \<le> p \<Longrightarrow> n = 4 \<longrightarrow> p < 16 \<Longrightarrow>
   utf8_run utf8_start [byte_of (0xF0 + n), byte_of (0x80 + p), byte_of (0x80 + q), byte_of (0x80 + r)] =
     (utf8_start, [((n * 64 + p) * 64 + q) * 64 + r])"
  by (auto simp: utf8_start_def utf8_first_def Let_def)

lemma digits_2: "(c :: nat) div 64 * 64 + c mod 64 = c"
  by simp

lemma digits_3: "((c :: nat) div 4096 * 64 + c div 64 mod 64) * 64 + c mod 64 = c"
proof -
  have "c div 4096 * 64 + c div 64 mod 64 = c div 64"
    using digits_2 [of "c div 64"] by (simp add: div_mult2_eq [symmetric])
  then show ?thesis by (simp only: digits_2)
qed

lemma digits_4:
  "(((c :: nat) div 262144 * 64 + c div 4096 mod 64) * 64 + c div 64 mod 64) * 64 + c mod 64 = c"
proof -
  have "c div 262144 * 64 + c div 4096 mod 64 = c div 4096"
    using digits_2 [of "c div 4096"] by (simp add: div_mult2_eq [symmetric])
  then show ?thesis by (simp only: digits_3)
qed

lemma digit_bounds:
  fixes n p q r c :: nat
  shows "(p * 64 + q) * 64 + r = c \<Longrightarrow> r < 64 \<Longrightarrow> 2048 \<le> c \<Longrightarrow> p = 0 \<Longrightarrow> 32 \<le> q"
    and "(p * 64 + q) * 64 + r = c \<Longrightarrow> c < 0xD800 \<or> 0xE000 \<le> c \<Longrightarrow> q < 64 \<Longrightarrow> r < 64 \<Longrightarrow> p = 13 \<Longrightarrow> q < 32"
    and "((n * 64 + p) * 64 + q) * 64 + r = c \<Longrightarrow> q < 64 \<Longrightarrow> r < 64 \<Longrightarrow> 0x10000 \<le> c \<Longrightarrow> n = 0 \<Longrightarrow> 16 \<le> p"
    and "((n * 64 + p) * 64 + q) * 64 + r = c \<Longrightarrow> c < 0x110000 \<Longrightarrow> n = 4 \<Longrightarrow> p < 16"
  by auto

lemma utf8_run_char:
  assumes "scalar c"
  shows "utf8_run utf8_start (utf8_char c) = (utf8_start, [c])"
proof -
  consider "c < 0x80" | "0x80 \<le> c" "c < 0x800" | "0x800 \<le> c" "c < 0x10000" "c < 0xD800 \<or> 0xE000 \<le> c"
    | "0x10000 \<le> c" "c < 0x110000"
    using assms unfolding scalar_def by linarith
  then show ?thesis
  proof cases
    case 1
    then show ?thesis by (simp add: utf8_char_def utf8_start_def utf8_first_def Let_def)
  next
    case 2
    then have "2 \<le> c div 64" "c div 64 < 32" by linarith+
    with 2 show ?thesis
      using utf8_run_2 [of "c div 64" "c mod 64"] by (simp add: utf8_char_def digits_2 del: utf8_run.simps)
  next
    case 3
    have r: "c mod 64 < 64" "c div 64 mod 64 < 64" by simp_all
    have p: "c div 4096 < 16" using 3 by linarith
    have low: "32 \<le> c div 64 mod 64" if "c div 4096 = 0"
      by (rule digit_bounds(1) [OF digits_3 r(1) 3(1) that])
    have high: "c div 64 mod 64 < 32" if "c div 4096 = 13"
      by (rule digit_bounds(2) [OF digits_3 3(3) r(2,1) that])
    from 3 show ?thesis
      using utf8_run_3 [OF p r(2,1), unfolded digits_3] low high
      by (simp add: utf8_char_def del: utf8_run.simps)
  next
    case 4
    have r: "c mod 64 < 64" "c div 64 mod 64 < 64" "c div 4096 mod 64 < 64" by simp_all
    have p: "c div 262144 < 5" using 4 by linarith
    have low: "16 \<le> c div 4096 mod 64" if "c div 262144 = 0"
      by (rule digit_bounds(3) [OF digits_4 r(2,1) 4(1) that])
    have high: "c div 4096 mod 64 < 16" if "c div 262144 = 4"
      by (rule digit_bounds(4) [OF digits_4 4(2) that])
    from 4 show ?thesis
      using utf8_run_4 [OF p r(3,2,1), unfolded digits_4] low high
      by (simp add: utf8_char_def del: utf8_run.simps)
  qed
qed

lemma utf8_run_utf8: "\<forall>c \<in> set s. scalar c \<Longrightarrow> utf8_run utf8_start (utf8 s) = (utf8_start, s)"
  by (induction s) (simp_all add: utf8_run_append utf8_run_char)

lemma buffer_to_string_utf8: "\<forall>c \<in> set s. scalar c \<Longrightarrow> buffer_to_string (utf8 s) = s"
  by (simp add: buffer_to_string_def utf8_run_utf8) (simp add: utf8_flush_def utf8_start_def)

lemma utf8_inject:
  "\<forall>c \<in> set s. scalar c \<Longrightarrow> \<forall>c \<in> set t. scalar c \<Longrightarrow> utf8 s = utf8 t \<longleftrightarrow> s = t"
  using buffer_to_string_utf8 by metis

lemma scalar_ustring_of: "c \<in> set (ustring_of s) \<Longrightarrow> scalar c"
proof -
  assume "c \<in> set (ustring_of s)"
  then obtain ch :: char where "c = of_char ch" by (auto simp: ustring_of_def)
  then have "c < 256" using nat_of_char_less_256 [of ch] by simp
  then show ?thesis by (simp add: scalar_def)
qed

section \<open>The streaming decoder\<close>

text \<open>
  \<^verbatim>\<open>new TextDecoder('utf-8', { fatal: false })\<close>, decoding with \<^verbatim>\<open>stream: true\<close>: the machine of the bytes, and whether the
  first character has been seen, which is dropped when it is a byte-order mark.
\<close>

record text_decoder =
  td_state :: utf8_state
  td_seen :: bool

definition new_text_decoder :: text_decoder where
  "new_text_decoder = \<lparr>td_state = utf8_start, td_seen = False\<rparr>"

definition decoder_emit :: "bool \<Rightarrow> ustring \<Rightarrow> ustring" where
  "decoder_emit seen t = (if seen then t else strip_bom t)"

definition decode_stream :: "text_decoder \<Rightarrow> bytes \<Rightarrow> text_decoder \<times> ustring" where
  "decode_stream d chunk =
     (let (s, t) = utf8_run (td_state d) chunk in
      (\<lparr>td_state = s, td_seen = td_seen d \<or> t \<noteq> []\<rparr>, decoder_emit (td_seen d) t))"

text \<open>\<^verbatim>\<open>decoder.decode()\<close>: the end of the stream.\<close>

definition decode_end :: "text_decoder \<Rightarrow> ustring" where
  "decode_end d = decoder_emit (td_seen d) (utf8_flush (td_state d))"

lemma strip_bom_append: "t \<noteq> [] \<Longrightarrow> strip_bom (t @ u) = strip_bom t @ u"
  by (cases t) (simp_all add: strip_bom_def)

interpretation decoding: chunked_parser "\<lambda>d c. Inr (decode_stream d c) :: (unit, text_decoder \<times> ustring) result" "\<lambda>d. True"
proof
  show "(Inr (decode_stream d (xs @ ys)) :: (unit, text_decoder \<times> ustring) result) =
      bind_result (Inr (decode_stream d xs)) (\<lambda>(d1, o1). bind_result (Inr (decode_stream d1 ys)) (\<lambda>(d2, o2). Inr (d2, o1 @ o2)))"
    for d xs ys
    by (auto simp: decode_stream_def utf8_run_append decoder_emit_def strip_bom_append strip_bom_def [of "[]"]
        split: prod.split)
qed (simp_all add: decode_stream_def decoder_emit_def strip_bom_def)

text \<open>Every character the decoder puts out is a scalar value: the code points its state can still reach are.\<close>

fun reaches_scalars :: "utf8_state \<Rightarrow> bool" where
  "reaches_scalars (Utf8_state n c lo hi) \<longleftrightarrow>
     0x80 \<le> lo \<and> hi \<le> 0xBF \<and> n \<le> 3 \<and>
     (n = 1 \<longrightarrow> (\<forall>k. lo \<le> 0x80 + k \<and> 0x80 + k \<le> hi \<longrightarrow> scalar (c * 64 + k))) \<and>
     (n = 2 \<longrightarrow> (\<forall>k j. lo \<le> 0x80 + k \<and> 0x80 + k \<le> hi \<and> j < 64 \<longrightarrow> scalar ((c * 64 + k) * 64 + j))) \<and>
     (n = 3 \<longrightarrow> (\<forall>k j i. lo \<le> 0x80 + k \<and> 0x80 + k \<le> hi \<and> j < 64 \<and> i < 64 \<longrightarrow> scalar (((c * 64 + k) * 64 + j) * 64 + i)))"

abbreviation scalars :: "ustring \<Rightarrow> bool" where
  "scalars t \<equiv> \<forall>c \<in> set t. scalar c"

lemma utf8_first_scalars: "reaches_scalars (fst (utf8_first b)) \<and> scalars (snd (utf8_first b))"
  by (auto simp: utf8_first_def utf8_start_def scalar_def)

lemma utf8_step_scalars:
  assumes "reaches_scalars s"
  shows "reaches_scalars (fst (utf8_step s w)) \<and> scalars (snd (utf8_step s w))"
proof -
  obtain n c lo hi where s: "s = Utf8_state n c lo hi" by (cases s)
  define b where "b = unat w"
  show ?thesis
  proof (cases "n = 0 \<or> b < lo \<or> hi < b")
    case True
    then show ?thesis using utf8_first_scalars [of b]
      by (auto simp: s b_def [symmetric] Let_def scalar_def split: prod.split)
  next
    case False
    have lim: "0x80 \<le> lo" "hi \<le> 0xBF" "lo \<le> b" "b \<le> hi" using assms s False by auto
    define k where "k = b - 0x80"
    have k: "b = 0x80 + k" "lo \<le> 0x80 + k" "0x80 + k \<le> hi" "k < 64" using lim by (auto simp: k_def)
    consider "n = 1" | "n = 2" | "n = 3" using assms False s by force
    then show ?thesis using assms k False
      by cases (auto simp: s b_def [symmetric] Let_def utf8_start_def)
  qed
qed

lemma utf8_run_scalars: "reaches_scalars s \<Longrightarrow> reaches_scalars (fst (utf8_run s bs)) \<and> scalars (snd (utf8_run s bs))"
proof (induction bs arbitrary: s)
  case (Cons b bs)
  then show ?case
    using utf8_step_scalars [OF Cons.prems, of b] Cons.IH [of "fst (utf8_step s b)"] by (auto simp: Let_def case_prod_unfold)
qed simp

definition decoder_ok :: "text_decoder \<Rightarrow> bool" where
  "decoder_ok d \<longleftrightarrow> reaches_scalars (td_state d)"

lemma strip_bom_subset: "set (strip_bom t) \<subseteq> set t"
  by (cases t) (auto simp: strip_bom_def)

lemma decode_stream_ok:
  assumes "decoder_ok d"
  shows "decoder_ok (fst (decode_stream d c)) \<and> scalars (snd (decode_stream d c))"
  using utf8_run_scalars [of "td_state d" c] assms strip_bom_subset [of "snd (utf8_run (td_state d) c)"]
  by (auto simp: decoder_ok_def decode_stream_def decoder_emit_def split: prod.split)

lemma decode_end_ok: "scalars (decode_end d)"
  by (auto simp: decode_end_def decoder_emit_def utf8_flush_def strip_bom_def scalar_def)

lemma new_text_decoder_ok: "decoder_ok new_text_decoder"
  by (simp add: decoder_ok_def new_text_decoder_def utf8_start_def)

end
