(* ===== verification/Cbor.thy ===== *)
theory Cbor
  imports Utf8
begin

text \<open>
  \<^verbatim>\<open>packages/ssh/src/fido/cbor.ts\<close>: the subset of CBOR that CTAP2 uses. The decoder's position \<^verbatim>\<open>pos\<close> is
  the list of bytes not read yet. Integers are \<open>int\<close> (the fractional numbers JavaScript could pass to
  \<^verbatim>\<open>encodeCbor\<close>, which it refuses, are not represented); a map is an insertion-ordered map. The decoder
  recurses on the nesting depth, which it bounds by \<open>MAX_DEPTH\<close>, and on the announced count.
\<close>

section \<open>Values\<close>

datatype cbor_key = KNum int | KStr ustring

datatype cbor =
    CNum int
  | CStr ustring
  | CBool bool
  | CNull
  | CBytes bytes
  | CArr "cbor list"
  | CMap "(cbor_key \<times> cbor) list"

datatype cbor_error = Cbor_unsupported | Cbor_malformed | Cbor_trailing | Cbor_range

fun key_value :: "cbor_key \<Rightarrow> cbor" where
  "key_value (KNum n) = CNum n"
| "key_value (KStr s) = CStr s"

section \<open>Encoding\<close>

text \<open>\<^verbatim>\<open>(major << 5) | value\<close> as a sum, for a value below 32; \<^verbatim>\<open>writeUInt32BE\<close> throws above 32 bits.\<close>

definition cbor_head :: "nat \<Rightarrow> nat \<Rightarrow> (cbor_error, bytes) result" where
  "cbor_head major v =
     (if v < 24 then Inr [byte_of (32 * major + v)]
      else if v < 0x100 then Inr [byte_of (32 * major + 24), byte_of v]
      else if v < 0x10000 then Inr (byte_of (32 * major + 25) # be16 v)
      else if v < 0x100000000 then Inr (byte_of (32 * major + 26) # be32 v)
      else Inl Cbor_range)"

definition encode_num :: "int \<Rightarrow> (cbor_error, bytes) result" where
  "encode_num n =
     (if 0xffffffff < \<bar>n\<bar> then Inl Cbor_unsupported
      else if 0 \<le> n then cbor_head 0 (nat n)
      else cbor_head 1 (nat (- 1 - n)))"

definition encode_key :: "cbor_key \<Rightarrow> (cbor_error, bytes) result" where
  "encode_key k = (case k of
       KNum n \<Rightarrow> encode_num n
     | KStr s \<Rightarrow> bind_result (cbor_head 3 (length (utf8 s))) (\<lambda>h. Inr (h @ utf8 s)))"

fun encode_cbor :: "cbor \<Rightarrow> (cbor_error, bytes) result"
and encode_items :: "cbor list \<Rightarrow> (cbor_error, bytes) result"
and encode_pairs :: "(cbor_key \<times> cbor) list \<Rightarrow> (cbor_error, bytes) result" where
  "encode_cbor (CBool b) = Inr [if b then 0xf5 else 0xf4]"
| "encode_cbor CNull = Inr [0xf6]"
| "encode_cbor (CNum n) = encode_num n"
| "encode_cbor (CStr s) = encode_key (KStr s)"
| "encode_cbor (CBytes bs) = bind_result (cbor_head 2 (length bs)) (\<lambda>h. Inr (h @ bs))"
| "encode_cbor (CArr vs) =
     bind_result (cbor_head 4 (length vs)) (\<lambda>h. bind_result (encode_items vs) (\<lambda>bs. Inr (h @ bs)))"
| "encode_cbor (CMap m) =
     bind_result (cbor_head 5 (length m)) (\<lambda>h. bind_result (encode_pairs m) (\<lambda>bs. Inr (h @ bs)))"
| "encode_items [] = Inr []"
| "encode_items (v # vs) =
     bind_result (encode_cbor v) (\<lambda>b. bind_result (encode_items vs) (\<lambda>bs. Inr (b @ bs)))"
| "encode_pairs [] = Inr []"
| "encode_pairs (p # ps) =
     bind_result (encode_key (fst p)) (\<lambda>k. bind_result (encode_cbor (snd p))
       (\<lambda>v. bind_result (encode_pairs ps) (\<lambda>bs. Inr (k @ v @ bs))))"

section \<open>Decoding\<close>

definition MAX_DEPTH :: nat where
  "MAX_DEPTH = 16"

definition MAX_SAFE_INTEGER :: nat where
  "MAX_SAFE_INTEGER = 9007199254740991"

definition cbor_take :: "nat \<Rightarrow> bytes \<Rightarrow> (cbor_error, bytes \<times> bytes) result" where
  "cbor_take n bs = (if length bs < n then Inl Cbor_malformed else Inr (take n bs, drop n bs))"

definition cbor_argument :: "nat \<Rightarrow> bytes \<Rightarrow> (cbor_error, nat \<times> bytes) result" where
  "cbor_argument info bs =
     (if info < 24 then Inr (info, bs)
      else if info \<le> 27 then
        bind_result (cbor_take (2 ^ (info - 24)) bs) (\<lambda>(a, rest).
          if info = 27 \<and> MAX_SAFE_INTEGER < nat_be a then Inl Cbor_malformed else Inr (nat_be a, rest))
      else Inl Cbor_malformed)"

definition as_key :: "cbor \<Rightarrow> (cbor_error, cbor_key) result" where
  "as_key v = (case v of CNum n \<Rightarrow> Inr (KNum n) | CStr s \<Rightarrow> Inr (KStr s) | _ \<Rightarrow> Inl Cbor_malformed)"

function (sequential) cbor_item :: "nat \<Rightarrow> bytes \<Rightarrow> (cbor_error, cbor \<times> bytes) result"
and cbor_array :: "nat \<Rightarrow> nat \<Rightarrow> bytes \<Rightarrow> (cbor_error, cbor list \<times> bytes) result"
and cbor_map :: "nat \<Rightarrow> nat \<Rightarrow> (cbor_key \<times> cbor) list \<Rightarrow> bytes \<Rightarrow> (cbor_error, (cbor_key \<times> cbor) list \<times> bytes) result"
where
  "cbor_item depth bs =
     (if MAX_DEPTH < depth then Inl Cbor_malformed else
      bind_result (cbor_take 1 bs) (\<lambda>(first, bs1).
        let major = unat (first ! 0) div 32; info = unat (first ! 0) mod 32 in
        if major = 7 then
          (if info = 20 then Inr (CBool False, bs1)
           else if info = 21 then Inr (CBool True, bs1)
           else if info = 22 \<or> info = 23 then Inr (CNull, bs1)
           else Inl Cbor_malformed)
        else if major = 6 then Inl Cbor_malformed
        else bind_result (cbor_argument info bs1) (\<lambda>(n, bs2).
          if major = 0 then Inr (CNum (int n), bs2)
          else if major = 1 then Inr (CNum (- 1 - int n), bs2)
          else if major = 2 then bind_result (cbor_take n bs2) (\<lambda>(b, bs3). Inr (CBytes b, bs3))
          else if major = 3 then bind_result (cbor_take n bs2) (\<lambda>(b, bs3). Inr (CStr (buffer_to_string b), bs3))
          else if major = 4 then bind_result (cbor_array (Suc depth) n bs2) (\<lambda>(vs, bs3). Inr (CArr vs, bs3))
          else bind_result (cbor_map (Suc depth) n [] bs2) (\<lambda>(m, bs3). Inr (CMap m, bs3)))))"
| "cbor_array depth 0 bs = Inr ([], bs)"
| "cbor_array depth (Suc n) bs =
     bind_result (cbor_item depth bs) (\<lambda>(v, bs1).
       bind_result (cbor_array depth n bs1) (\<lambda>(vs, bs2). Inr (v # vs, bs2)))"
| "cbor_map depth 0 out bs = Inr (out, bs)"
| "cbor_map depth (Suc n) out bs =
     bind_result (cbor_item depth bs) (\<lambda>(k, bs1).
       bind_result (as_key k) (\<lambda>key.
         bind_result (cbor_item depth bs1) (\<lambda>(v, bs2). cbor_map depth n (jsset out key v) bs2)))"
  by pat_completeness auto
termination
  by (relation "measures [(\<lambda>x. case x of Inl (d, _) \<Rightarrow> 17 - d | Inr (Inl (d, _, _)) \<Rightarrow> 17 - d | Inr (Inr (d, _, _, _)) \<Rightarrow> 17 - d),
    (\<lambda>x. case x of Inl _ \<Rightarrow> 0 | Inr (Inl (_, n, _)) \<Rightarrow> Suc n | Inr (Inr (_, n, _, _)) \<Rightarrow> Suc n)]")
    (auto simp: MAX_DEPTH_def)

declare cbor_item.simps [simp del]

definition decode_cbor_prefix :: "bytes \<Rightarrow> (cbor_error, cbor \<times> bytes) result" where
  "decode_cbor_prefix data = cbor_item 0 data"

definition decode_cbor :: "bytes \<Rightarrow> (cbor_error, cbor) result" where
  "decode_cbor data =
     bind_result (decode_cbor_prefix data) (\<lambda>(v, rest). if rest \<noteq> [] then Inl Cbor_trailing else Inr v)"

definition as_cbor_map :: "cbor option \<Rightarrow> (cbor_key, cbor) jsmap option" where
  "as_cbor_map v = (case v of Some (CMap m) \<Rightarrow> Some m | _ \<Rightarrow> None)"

definition cbor_bytes :: "(cbor_key, cbor) jsmap \<Rightarrow> cbor_key \<Rightarrow> bytes option" where
  "cbor_bytes m k = (case jsget m k of Some (CBytes b) \<Rightarrow> Some b | _ \<Rightarrow> None)"

definition cbor_number :: "(cbor_key, cbor) jsmap \<Rightarrow> cbor_key \<Rightarrow> int option" where
  "cbor_number m k = (case jsget m k of Some (CNum n) \<Rightarrow> Some n | _ \<Rightarrow> None)"

section \<open>Well-formed values\<close>

text \<open>A value that fits at nesting depth \<open>d\<close>: nothing deeper than the limit, no map with a repeated key.\<close>

fun cbor_fits :: "nat \<Rightarrow> cbor \<Rightarrow> bool" where
  "cbor_fits d (CArr vs) = (d \<le> MAX_DEPTH \<and> (\<forall>v \<in> set vs. cbor_fits (Suc d) v))"
| "cbor_fits d (CMap m) = (d \<le> MAX_DEPTH \<and> distinct (map fst m) \<and> (\<forall>p \<in> set m. cbor_fits (Suc d) (snd p)))"
| "cbor_fits d _ = (d \<le> MAX_DEPTH)"

text \<open>Strings of Unicode scalar values only.\<close>

fun key_text_ok :: "cbor_key \<Rightarrow> bool" where
  "key_text_ok (KNum n) = True"
| "key_text_ok (KStr s) = (\<forall>c \<in> set s. scalar c)"

fun cbor_text_ok :: "cbor \<Rightarrow> bool" where
  "cbor_text_ok (CStr s) = (\<forall>c \<in> set s. scalar c)"
| "cbor_text_ok (CArr vs) = (\<forall>v \<in> set vs. cbor_text_ok v)"
| "cbor_text_ok (CMap m) = (\<forall>p \<in> set m. key_text_ok (fst p) \<and> cbor_text_ok (snd p))"
| "cbor_text_ok _ = True"

lemma cbor_fits_depth: "cbor_fits d v \<Longrightarrow> d \<le> MAX_DEPTH"
  by (cases v) auto

section \<open>Encoding, then decoding\<close>

lemma cbor_head_argument:
  assumes "cbor_head major v = Inr h" "major < 8"
  obtains b t where "h = b # t" "unat b div 32 = major"
    "\<And>rest. cbor_argument (unat b mod 32) (t @ rest) = Inr (v, rest)"
proof -
  have m: "32 * major + k < 256" if "k < 32" for k using assms(2) that by linarith
  consider "v < 24" | "24 \<le> v" "v < 0x100" | "0x100 \<le> v" "v < 0x10000" | "0x10000 \<le> v" "v < 0x100000000"
    using assms(1) by (force simp: cbor_head_def split: if_splits)
  then show ?thesis
  proof cases
    case 1
    with assms that [of "byte_of (32 * major + v)" "[]"] m [of v] show ?thesis
      by (simp add: cbor_head_def cbor_argument_def)
  next
    case 2
    with assms that [of "byte_of (32 * major + 24)" "[byte_of v]"] m [of 24] show ?thesis
      by (simp add: cbor_head_def cbor_argument_def cbor_take_def)
  next
    case 3
    with assms that [of "byte_of (32 * major + 25)" "be16 v"] m [of 25] show ?thesis
      by (simp add: cbor_head_def cbor_argument_def cbor_take_def be16_inverse)
  next
    case 4
    with assms that [of "byte_of (32 * major + 26)" "be32 v"] m [of 26] show ?thesis
      by (simp add: cbor_head_def cbor_argument_def cbor_take_def be32_inverse)
  qed
qed

lemma cbor_item_head:
  assumes "cbor_head major v = Inr h" "major < 6" "d \<le> MAX_DEPTH"
  shows "cbor_item d (h @ rest) =
    (if major = 0 then Inr (CNum (int v), rest)
     else if major = 1 then Inr (CNum (- 1 - int v), rest)
     else if major = 2 then bind_result (cbor_take v rest) (\<lambda>(b, bs3). Inr (CBytes b, bs3))
     else if major = 3 then bind_result (cbor_take v rest) (\<lambda>(b, bs3). Inr (CStr (buffer_to_string b), bs3))
     else if major = 4 then bind_result (cbor_array (Suc d) v rest) (\<lambda>(vs, bs3). Inr (CArr vs, bs3))
     else bind_result (cbor_map (Suc d) v [] rest) (\<lambda>(m, bs3). Inr (CMap m, bs3)))"
proof -
  have "major < 8" using assms(2) by simp
  show ?thesis
  proof (rule cbor_head_argument [OF assms(1) \<open>major < 8\<close>])
    fix b t
    assume "h = b # t" "unat b div 32 = major"
      and "\<And>rest. cbor_argument (unat b mod 32) (t @ rest) = Inr (v, rest)"
    then show ?thesis
      using assms(2,3) by (subst cbor_item.simps) (simp add: cbor_take_def Let_def)
  qed
qed

lemma cbor_item_num:
  assumes "encode_num n = Inr bs" "d \<le> MAX_DEPTH"
  shows "cbor_item d (bs @ rest) = Inr (CNum n, rest)"
  using assms by (auto simp: encode_num_def cbor_item_head split: if_splits)

lemma cbor_item_key:
  assumes "encode_key k = Inr bs" "d \<le> MAX_DEPTH" "key_text_ok k"
  shows "cbor_item d (bs @ rest) = Inr (key_value k, rest)"
  using assms
  by (cases k) (auto simp: encode_key_def cbor_item_num bind_result_Inr_iff cbor_item_head cbor_take_def
      buffer_to_string_utf8)

lemma as_key_value [simp]: "as_key (key_value k) = Inr k"
  by (cases k) (simp_all add: as_key_def)

lemma jsset_fresh: "k \<notin> set (jskeys m) \<Longrightarrow> jsset m k v = m @ [(k, v)]"
  by (induction m) auto

lemma cbor_decode_encoded:
  shows "encode_cbor v = Inr bs \<Longrightarrow> cbor_fits d v \<Longrightarrow> cbor_text_ok v \<Longrightarrow> cbor_item d (bs @ rest) = Inr (v, rest)"
    and "encode_items vs = Inr bs \<Longrightarrow> \<forall>v \<in> set vs. cbor_fits d v \<and> cbor_text_ok v \<Longrightarrow>
      cbor_array d (length vs) (bs @ rest) = Inr (vs, rest)"
    and "encode_pairs ps = Inr bs \<Longrightarrow>
      \<forall>p \<in> set ps. key_text_ok (fst p) \<and> cbor_fits d (snd p) \<and> cbor_text_ok (snd p) \<Longrightarrow>
      distinct (map fst (out @ ps)) \<Longrightarrow>
      cbor_map d (length ps) out (bs @ rest) = Inr (out @ ps, rest)"
proof (induction v and vs and ps arbitrary: d bs rest and d bs rest and d bs rest out
    rule: encode_cbor_encode_items_encode_pairs.induct)
  case (1 b)
  then show ?case by (auto simp: cbor_item.simps cbor_take_def split: if_splits)
next
  case 2
  then show ?case by (auto simp: cbor_item.simps cbor_take_def)
next
  case (3 n)
  then show ?case by (simp add: cbor_item_num)
next
  case (4 s)
  then show ?case using cbor_item_key [of "KStr s"] by simp
next
  case (5 b)
  then show ?case by (auto simp: bind_result_Inr_iff cbor_item_head cbor_take_def)
next
  case (6 vs)
  then show ?case by (auto simp: bind_result_Inr_iff cbor_item_head)
next
  case (7 m)
  then show ?case by (auto simp: bind_result_Inr_iff cbor_item_head)
next
  case 8
  then show ?case by simp
next
  case (9 v vs)
  then show ?case by (auto simp: bind_result_Inr_iff)
next
  case 10
  then show ?case by simp
next
  case (11 p ps)
  obtain k v where p: "p = (k, v)" by (cases p)
  from 11 p obtain kb vb pb where bs: "bs = kb @ vb @ pb" "encode_key k = Inr kb"
      "encode_cbor v = Inr vb" "encode_pairs ps = Inr pb"
    by (auto simp: bind_result_Inr_iff)
  have fresh: "jsset out k v = out @ [(k, v)]"
    using 11 p by (intro jsset_fresh) auto
  have ok: "cbor_fits d v" "cbor_text_ok v" "key_text_ok k" "d \<le> MAX_DEPTH"
    using "11.prems" p cbor_fits_depth by auto
  have iv: "cbor_item d (vb @ pb @ rest) = Inr (v, pb @ rest)"
    using "11.IH"(1) [of kb vb] bs p ok by simp
  have im: "cbor_map d (length ps) (out @ [(k, v)]) (pb @ rest) = Inr ((out @ [(k, v)]) @ ps, rest)"
    by (rule "11.IH"(2) [of kb vb]) (use 11 p bs in auto)
  show ?case
    using ok bs p fresh iv im by (simp add: cbor_item_key)
qed

section \<open>Decoding, whatever the bytes\<close>

text \<open>\<open>consumes n bs rest\<close>: the reader went on from \<open>bs\<close> to its suffix \<open>rest\<close>, past at least \<open>n\<close> bytes.\<close>

definition consumes :: "nat \<Rightarrow> 'a list \<Rightarrow> 'a list \<Rightarrow> bool" where
  "consumes n bs rest \<longleftrightarrow> (\<exists>pre. n \<le> length pre \<and> bs = pre @ rest)"

lemma consumes_refl: "consumes 0 bs bs"
  by (simp add: consumes_def)

lemma consumes_trans: "consumes m bs bs' \<Longrightarrow> consumes n bs' bs'' \<Longrightarrow> k \<le> m + n \<Longrightarrow> consumes k bs bs''"
  by (force simp: consumes_def)

lemma consumes_mono: "consumes m bs bs' \<Longrightarrow> k \<le> m \<Longrightarrow> consumes k bs bs'"
  by (force simp: consumes_def)

lemma cbor_take_consumes: "cbor_take n bs = Inr (a, rest) \<Longrightarrow> consumes n bs rest"
  by (auto simp: cbor_take_def consumes_def split: if_splits intro!: exI [of _ "take n bs"])

lemma cbor_argument_consumes: "cbor_argument info bs = Inr (n, rest) \<Longrightarrow> consumes 0 bs rest"
  by (auto simp: cbor_argument_def bind_result_Inr_iff consumes_refl
      dest!: cbor_take_consumes elim: consumes_mono split: if_splits)

lemma as_key_Inr: "as_key v = Inr k \<Longrightarrow> v = key_value k"
  by (auto simp: as_key_def split: cbor.splits)

lemma cbor_decode_sound:
  shows "cbor_item d bs = Inr (v, rest) \<Longrightarrow> cbor_fits d v \<and> consumes 1 bs rest"
    and "cbor_array d n bs = Inr (vs, rest) \<Longrightarrow>
      (\<forall>v \<in> set vs. cbor_fits d v) \<and> length vs = n \<and> consumes n bs rest"
    and "cbor_map d n out bs = Inr (m, rest) \<Longrightarrow> distinct (map fst out) \<Longrightarrow>
      \<forall>p \<in> set out. cbor_fits d (snd p) \<Longrightarrow>
      (\<forall>p \<in> set m. cbor_fits d (snd p)) \<and> distinct (map fst m) \<and> consumes (2 * n) bs rest"
proof (induction d bs and d n bs and d n out bs arbitrary: v rest and vs rest and m rest
    rule: cbor_item_cbor_array_cbor_map.induct)
  case (1 d bs)
  from "1.prems" obtain first bs1 where depth: "\<not> MAX_DEPTH < d" and first: "cbor_take 1 bs = Inr (first, bs1)"
    by (auto simp: cbor_item.simps [of d bs] bind_result_Inr_iff split: if_splits)
  note bs1 = cbor_take_consumes [OF first]
  let ?major = "unat (first ! 0) div 32" and ?info = "unat (first ! 0) mod 32"
  show ?case
  proof (cases "?major = 7")
    case True
    with "1.prems" depth first bs1 show ?thesis
      by (auto simp: cbor_item.simps [of d bs] Let_def split: if_splits)
  next
    case major: False
    with "1.prems" depth first obtain n bs2 where six: "?major \<noteq> 6" and arg: "cbor_argument ?info bs1 = Inr (n, bs2)"
      by (auto simp: cbor_item.simps [of d bs] Let_def bind_result_Inr_iff split: if_splits)
    have bs2: "consumes 1 bs bs2"
      using consumes_trans [OF bs1 cbor_argument_consumes [OF arg]] by simp
    note IH = "1.IH" [OF depth first refl refl refl major six arg refl]
    have item: "(if ?major = 0 then Inr (CNum (int n), bs2)
        else if ?major = 1 then Inr (CNum (- 1 - int n), bs2)
        else if ?major = 2 then bind_result (cbor_take n bs2) (\<lambda>(b, bs3). Inr (CBytes b, bs3))
        else if ?major = 3 then bind_result (cbor_take n bs2) (\<lambda>(b, bs3). Inr (CStr (buffer_to_string b), bs3))
        else if ?major = 4 then bind_result (cbor_array (Suc d) n bs2) (\<lambda>(vs, bs3). Inr (CArr vs, bs3))
        else bind_result (cbor_map (Suc d) n [] bs2) (\<lambda>(m, bs3). Inr (CMap m, bs3))) = Inr (v, rest)"
      using "1.prems" depth first major six arg by (simp add: cbor_item.simps [of d bs] Let_def)
    consider "?major = 0" | "?major = 1" | "?major = 2" | "?major = 3" | "?major = 4"
      | "?major \<notin> {0, 1, 2, 3, 4}" by auto
    then show ?thesis
    proof cases
      case 3
      with item depth bs2 show ?thesis
        by (auto simp: bind_result_Inr_iff dest!: cbor_take_consumes intro: consumes_trans)
    next
      case 4
      with item depth bs2 show ?thesis
        by (auto simp: bind_result_Inr_iff dest!: cbor_take_consumes intro: consumes_trans)
    next
      case 5
      with item obtain vs where vs: "cbor_array (Suc d) n bs2 = Inr (vs, rest)" "v = CArr vs"
        by (auto simp: bind_result_Inr_iff)
      with IH(1) 5 depth bs2 show ?thesis by (auto intro: consumes_trans)
    next
      case 6
      with item obtain m where m: "cbor_map (Suc d) n [] bs2 = Inr (m, rest)" "v = CMap m"
        by (auto simp: bind_result_Inr_iff)
      with IH(2) 6 depth bs2 show ?thesis by (auto intro: consumes_trans)
    qed (use item depth bs2 in auto)
  qed
next
  case (2 d bs)
  then show ?case by (simp add: consumes_refl)
next
  case (3 d n bs)
  from "3.prems" obtain v bs1 vs' where item: "cbor_item d bs = Inr (v, bs1)"
    and arr: "cbor_array d n bs1 = Inr (vs', rest)" and vs: "vs = v # vs'"
    by (auto simp: bind_result_Inr_iff)
  have "cbor_fits d v" "consumes 1 bs bs1" using "3.IH"(1) [OF item] by auto
  moreover have "\<forall>v \<in> set vs'. cbor_fits d v" "length vs' = n" "consumes n bs1 rest"
    using "3.IH"(2) [OF item refl arr] by auto
  ultimately show ?case using vs consumes_trans [of 1 bs bs1 n rest "Suc n"] by auto
next
  case (4 d out bs)
  then show ?case by (simp add: consumes_refl)
next
  case (5 d n out bs)
  from "5.prems"(1) obtain k bs1 key v bs2 where item: "cbor_item d bs = Inr (k, bs1)" and key: "as_key k = Inr key"
    and val: "cbor_item d bs1 = Inr (v, bs2)" and mp: "cbor_map d n (jsset out key v) bs2 = Inr (m, rest)"
    by (auto simp: bind_result_Inr_iff)
  have "consumes 1 bs bs1" using "5.IH"(1) [OF item] by auto
  moreover have v: "cbor_fits d v" "consumes 1 bs1 bs2" using "5.IH"(2) [OF item refl key val] by auto
  moreover have "\<forall>p \<in> set (jsset out key v). cbor_fits d (snd p)" "distinct (map fst (jsset out key v))"
    using "5.prems"(2,3) v(1) by (auto simp: jsset_mem distinct_update split: if_splits)
  then have "(\<forall>p \<in> set m. cbor_fits d (snd p)) \<and> distinct (map fst m) \<and> consumes (2 * n) bs2 rest"
    using "5.IH"(3) [OF item refl key val refl mp] by blast
  moreover have "consumes 2 bs bs2"
    by (rule consumes_trans [OF calculation(1) v(2)]) simp
  ultimately show ?case using consumes_trans [of 2 bs bs2 "2 * n" rest "2 * Suc n"] by auto
qed

section \<open>Properties\<close>

text \<open>C31: what the encoder writes, the decoder reads back, whatever bytes follow (the COSE key inside
  authenticator data is followed by more); and \<^verbatim>\<open>decodeCbor\<close> accepts the encoding alone.\<close>

theorem cbor_roundtrip:
  assumes "encode_cbor v = Inr bs" "cbor_fits 0 v" "cbor_text_ok v"
  shows "decode_cbor_prefix (bs @ rest) = Inr (v, rest) \<and> decode_cbor bs = Inr v"
proof -
  have "decode_cbor_prefix (bs @ rest) = Inr (v, rest)" for rest
    unfolding decode_cbor_prefix_def using assms by (rule cbor_decode_encoded(1))
  from this [of rest] this [of "[]"] show ?thesis by (simp add: decode_cbor_def)
qed

theorem cbor_roundtrip_witness:
  "decode_cbor_prefix ([0xa2, 0x01, 0x82, 0x20, 0xf5, 0x61, 0x61, 0x42, 0x07, 0x08] @ [0xff]) =
     Inr (CMap [(KNum 1, CArr [CNum (- 1), CBool True]), (KStr [97], CBytes [7, 8])], [0xff]) \<and>
   decode_cbor [0xa2, 0x01, 0x82, 0x20, 0xf5, 0x61, 0x61, 0x42, 0x07, 0x08] =
     Inr (CMap [(KNum 1, CArr [CNum (- 1), CBool True]), (KStr [97], CBytes [7, 8])])"
  by (rule cbor_roundtrip)
    (simp_all add: encode_num_def encode_key_def cbor_head_def byte_of_def utf8_char_def MAX_DEPTH_def scalar_def)

text \<open>whatever bytes arrive, a decoded value nests at most 16 deep and no map in it repeats a key, the
  decoder has read at least one byte, and what is left is the unread end of its input.\<close>

theorem cbor_decode_bounded:
  assumes "decode_cbor_prefix data = Inr (v, rest)"
  shows "cbor_fits 0 v \<and> (\<exists>pre. pre \<noteq> [] \<and> data = pre @ rest)"
  using cbor_decode_sound(1) [of 0 data v rest] assms
  by (auto simp: decode_cbor_prefix_def consumes_def)

theorem cbor_decode_bounded_witness:
  "cbor_fits 0 (CMap [(KNum 1, CNum 3)]) \<and> (\<exists>pre. pre \<noteq> [] \<and> [0xa2, 1, 2, 1, 3, 9 :: byte] = pre @ [9])"
  by (rule cbor_decode_bounded) code_simp

end
