(* ===== verification/Text.thy ===== *)
theory Text
  imports Prelude "HOL-Library.List_Lexorder" "HOL-Library.Char_ord" "HOL-Library.Multiset"
begin

text \<open>
  Strings of the sources as Isabelle strings (code units below 256), ordered by code unit as JavaScript's
  \<^verbatim>\<open><\<close> orders them, with the few conversions of the standard library the components use: decimal and hex
  numbers, \<^verbatim>\<open>split\<close>, \<^verbatim>\<open>join\<close>, \<^verbatim>\<open>startsWith\<close>, and the sorts by a string key.
\<close>

fun show_nat :: "nat \<Rightarrow> string" where
  "show_nat n = (if n < 10 then [char_of (48 + n)] else show_nat (n div 10) @ [char_of (48 + n mod 10)])"

declare show_nat.simps [simp del]

lemma show_nat_digits: "\<forall>c \<in> set (show_nat n). 48 \<le> (of_char c :: nat) \<and> (of_char c :: nat) \<le> 57"
proof (induction n rule: show_nat.induct)
  case (1 n)
  then show ?case by (subst show_nat.simps) (auto simp: of_char_of)
qed

lemma show_nat_value: "foldl (\<lambda>a c. a * 10 + ((of_char c :: nat) - 48)) 0 (show_nat n) = n"
proof (induction n rule: show_nat.induct)
  case (1 n)
  then show ?case by (subst show_nat.simps) (auto simp: of_char_of)
qed

lemma show_nat_inject: "show_nat m = show_nat n \<Longrightarrow> m = n"
  by (metis show_nat_value)

definition show_int :: "int \<Rightarrow> string" where
  "show_int i = (if i < 0 then CHR 0x2D # show_nat (nat (- i)) else show_nat (nat i))"

definition hex_digit :: "nat \<Rightarrow> char" where
  "hex_digit n = (if n < 10 then char_of (48 + n) else char_of (87 + n))"

definition hex_byte :: "nat \<Rightarrow> string" where
  "hex_byte n = [hex_digit (n div 16), hex_digit (n mod 16)]"

fun join :: "'a list \<Rightarrow> 'a list list \<Rightarrow> 'a list" where
  "join sep [] = []"
| "join sep [x] = x"
| "join sep (x # y # ys) = x @ sep @ join sep (y # ys)"

text \<open>\<^verbatim>\<open>trim\<close>, on code units below 256.\<close>

definition js_space :: "char \<Rightarrow> bool" where
  "js_space c \<longleftrightarrow> of_char c \<in> {9, 10, 11, 12, 13, 32, 160 :: nat}"

definition js_trim :: "string \<Rightarrow> string" where
  "js_trim s = rev (dropWhile js_space (rev (dropWhile js_space s)))"

text \<open>\<^verbatim>\<open>s.split(c)\<close> for a one-character separator: always at least one piece.\<close>

fun split_on :: "'a \<Rightarrow> 'a list \<Rightarrow> 'a list list" where
  "split_on c [] = [[]]"
| "split_on c (x # xs) = (if x = c then [] # split_on c xs else
     (case split_on c xs of [] \<Rightarrow> [[x]] | p # ps \<Rightarrow> (x # p) # ps))"

definition starts_with :: "'a list \<Rightarrow> 'a list \<Rightarrow> bool" where
  "starts_with s p \<longleftrightarrow> take (length p) s = p"

lemma split_on_nonempty [simp]: "split_on c xs \<noteq> []"
  by (induction xs) (auto split: list.splits)

lemma join_Cons_head [simp]: "ys \<noteq> [] \<Longrightarrow> join sep (x # ys) = x @ sep @ join sep ys"
  by (cases ys) auto

lemma join_split_on: "join [c] (split_on c xs) = xs"
proof (induction xs)
  case (Cons x xs)
  then show ?case
    by (cases "split_on c xs"; cases "tl (split_on c xs)") auto
qed simp

lemma split_on_pieces: "p \<in> set (split_on c xs) \<Longrightarrow> c \<notin> set p"
proof (induction xs arbitrary: p)
  case (Cons x xs)
  then show ?case
    by (cases "split_on c xs") (auto split: if_splits)
qed simp

lemma split_on_append: "c \<notin> set p \<Longrightarrow> split_on c (p @ c # xs) = p # split_on c xs"
  by (induction p) auto

lemma split_on_single: "c \<notin> set p \<Longrightarrow> split_on c p = [p]"
  by (induction p) auto

lemma split_on_join: "ps \<noteq> [] \<Longrightarrow> \<forall>p \<in> set ps. c \<notin> set p \<Longrightarrow> split_on c (join [c] ps) = ps"
proof (induction "[c]" ps rule: join.induct)
  case (3 x y ys)
  then show ?case by (simp add: split_on_append del: join.simps(3))
qed (auto simp: split_on_single)

text \<open>Sorting by a key that the elements do not share does not depend on the order they came in.\<close>

lemma sort_key_same:
  "mset xs = mset ys \<Longrightarrow> distinct (map f xs) \<Longrightarrow> sort_key f xs = sort_key f ys"
  by (rule sort_key_inj_key_eq) (simp_all add: distinct_map)

end
