(* ===== verification/Team_Sign.thy ===== *)
theory Team_Sign
  imports Text Utf8
begin

text \<open>
  \<^verbatim>\<open>packages/core/src/team-secrets/sign.ts\<close> and the key encodings of \<^verbatim>\<open>keys.ts\<close>: canonical JSON, document
  signatures, strict base64url, base32, key ids and fingerprints. The primitives of \<^verbatim>\<open>node:crypto\<close> (SHA-256,
  Ed25519) are the fields of the record \<open>crypto\<close>, an argument of the definitions that use them.
\<close>

section \<open>Canonical JSON\<close>

text \<open>
  The values \<^verbatim>\<open>canonicalJson\<close> may be handed: JSON's own shapes, \<^verbatim>\<open>undefined\<close>, and \<open>JOther\<close> for everything
  it refuses (a date, a class instance, a function, a number that is not finite). Numbers are integers.
\<close>

datatype json =
    JNull
  | JBool bool
  | JNum int
  | JStr string
  | JArr "json list"
  | JObj "(string \<times> json) list"
  | JUndefined
  | JOther

datatype sign_error = Not_canonical

definition escape_char :: "char \<Rightarrow> string" where
  "escape_char c = (let n = of_char c :: nat in
     if n = 0x22 then [CHR 0x5C, CHR 0x22]
     else if n = 0x5C then [CHR 0x5C, CHR 0x5C]
     else if n = 8 then CHR 0x5C # ''b''
     else if n = 9 then CHR 0x5C # ''t''
     else if n = 10 then CHR 0x5C # ''n''
     else if n = 12 then CHR 0x5C # ''f''
     else if n = 13 then CHR 0x5C # ''r''
     else if n < 32 then CHR 0x5C # ''u00'' @ hex_byte n
     else [c])"

text \<open>\<^verbatim>\<open>JSON.stringify\<close> of a string.\<close>

definition json_string :: "string \<Rightarrow> string" where
  "json_string s = [CHR 0x22] @ concat (map escape_char s) @ [CHR 0x22]"

fun all_ok :: "('e, 'a) result list \<Rightarrow> ('e, 'a list) result" where
  "all_ok [] = Inr []"
| "all_ok (r # rs) = bind_result r (\<lambda>x. bind_result (all_ok rs) (\<lambda>xs. Inr (x # xs)))"

definition canonical_field :: "string \<times> (sign_error, string) result \<Rightarrow> (sign_error, string) result" where
  "canonical_field f = bind_result (snd f) (\<lambda>v. Inr (json_string (fst f) @ '':'' @ v))"

text \<open>
  Fields that are undefined are dropped and the rest sorted by key. The fields' own texts are computed
  before the sort here and after it in the code, which is the same as every refusal is the same error.
\<close>

fun canonical_json :: "json \<Rightarrow> (sign_error, string) result"
and canonical_items :: "json list \<Rightarrow> (sign_error, string) result list"
and canonical_fields :: "(string \<times> json) list \<Rightarrow> (string \<times> (sign_error, string) result) list" where
  "canonical_json JNull = Inr ''null''"
| "canonical_json (JBool b) = Inr (if b then ''true'' else ''false'')"
| "canonical_json (JNum n) = Inr (show_int n)"
| "canonical_json (JStr s) = Inr (json_string s)"
| "canonical_json (JArr vs) =
     bind_result (all_ok (canonical_items vs)) (\<lambda>ss. Inr (''['' @ join '','' ss @ '']''))"
| "canonical_json (JObj fs) =
     bind_result (all_ok (map canonical_field (sort_key fst (canonical_fields fs))))
       (\<lambda>ss. Inr (''{'' @ join '','' ss @ ''}''))"
| "canonical_json JUndefined = Inl Not_canonical"
| "canonical_json JOther = Inl Not_canonical"
| "canonical_items [] = []"
| "canonical_items (v # vs) = canonical_json v # canonical_items vs"
| "canonical_fields [] = []"
| "canonical_fields (f # fs) =
     (if snd f = JUndefined then canonical_fields fs
      else (fst f, canonical_json (snd f)) # canonical_fields fs)"

section \<open>Base64url, base32, key ids\<close>

datatype key_error = Bad_key

definition BASE64URL :: string where
  "BASE64URL = ''ABCDEFGHIJKLMNOPQRSTUVWXYZabcdefghijklmnopqrstuvwxyz0123456789-_''"

definition BASE32_ALPHABET :: string where
  "BASE32_ALPHABET = ''ABCDEFGHIJKLMNOPQRSTUVWXYZ234567''"

fun index_in :: "'a \<Rightarrow> 'a list \<Rightarrow> nat option" where
  "index_in x [] = None"
| "index_in x (y # ys) = (if x = y then Some 0 else map_option Suc (index_in x ys))"

definition b64 :: "nat \<Rightarrow> char" where
  "b64 n = BASE64URL ! n"

text \<open>\<^verbatim>\<open>Buffer.toString('base64url')\<close> and the lenient \<^verbatim>\<open>Buffer.from(text, 'base64url')\<close>, whose left-over bits are dropped.\<close>

fun base64url :: "bytes \<Rightarrow> string" where
  "base64url [] = []"
| "base64url [a] = [b64 (unat a div 4), b64 (unat a mod 4 * 16)]"
| "base64url [a, b] =
     [b64 (unat a div 4), b64 (unat a mod 4 * 16 + unat b div 16), b64 (unat b mod 16 * 4)]"
| "base64url (a # b # c # bs) =
     b64 (unat a div 4) # b64 (unat a mod 4 * 16 + unat b div 16) #
     b64 (unat b mod 16 * 4 + unat c div 64) # b64 (unat c mod 64) # base64url bs"

fun from_sextets :: "nat list \<Rightarrow> bytes" where
  "from_sextets (p # q # r # s # rest) =
     byte_of (p * 4 + q div 16) # byte_of (q mod 16 * 16 + r div 4) # byte_of (r mod 4 * 64 + s) # from_sextets rest"
| "from_sextets [p, q, r] = [byte_of (p * 4 + q div 16), byte_of (q mod 16 * 16 + r div 4)]"
| "from_sextets [p, q] = [byte_of (p * 4 + q div 16)]"
| "from_sextets _ = []"

definition from_base64url :: "string \<Rightarrow> (key_error, bytes) result" where
  "from_base64url t =
     (if \<not> list_all (\<lambda>c. c \<in> set BASE64URL) t then Inl Bad_key
      else let bs = from_sextets (map (\<lambda>c. the (index_in c BASE64URL)) t) in
           if base64url bs \<noteq> t then Inl Bad_key else Inr bs)"

text \<open>The inner \<^verbatim>\<open>while (bits >= 5)\<close> of \<^verbatim>\<open>base32\<close>: what it writes; it leaves \<open>bits mod 5\<close> bits.\<close>

function base32_emit :: "nat \<Rightarrow> nat \<Rightarrow> string" where
  "base32_emit bits v =
     (if 5 \<le> bits then BASE32_ALPHABET ! (v div 2 ^ (bits - 5) mod 32) # base32_emit (bits - 5) v else [])"
  by pat_completeness auto
termination
  by (relation "measure fst") auto

declare base32_emit.simps [simp del]

fun base32_loop :: "nat \<Rightarrow> nat \<Rightarrow> bytes \<Rightarrow> string" where
  "base32_loop bits v [] = (if 0 < bits then [BASE32_ALPHABET ! (v * 2 ^ (5 - bits) mod 32)] else [])"
| "base32_loop bits v (b # bs) =
     (let v' = (v * 256 + unat b) mod 8192 in
      base32_emit (bits + 8) v' @ base32_loop ((bits + 8) mod 5) v' bs)"

definition base32 :: "bytes \<Rightarrow> string" where
  "base32 bs = base32_loop 0 0 bs"

record crypto =
  sha256 :: "bytes \<Rightarrow> bytes"
  ed25519_sign :: "string \<Rightarrow> bytes \<Rightarrow> bytes"
  ed25519_verify :: "bytes \<Rightarrow> bytes \<Rightarrow> bytes \<Rightarrow> bool"

record public_keys =
  encryption_key :: string
  signing_key :: string

definition PUBLIC_KEY_LENGTH :: nat where
  "PUBLIC_KEY_LENGTH = 32"

definition assert_key_length :: "bytes \<Rightarrow> nat \<Rightarrow> (key_error, bytes) result" where
  "assert_key_length bs n = (if length bs \<noteq> n then Inl Bad_key else Inr bs)"

definition raw_public_key :: "string \<Rightarrow> (key_error, bytes) result" where
  "raw_public_key t = bind_result (from_base64url t) (\<lambda>bs. assert_key_length bs PUBLIC_KEY_LENGTH)"

definition public_digest :: "crypto \<Rightarrow> string \<Rightarrow> string \<Rightarrow> (key_error, bytes) result" where
  "public_digest cr enc sig =
     bind_result (raw_public_key enc) (\<lambda>e. bind_result (raw_public_key sig) (\<lambda>s. Inr (sha256 cr (e @ s))))"

definition key_id_of :: "crypto \<Rightarrow> string \<Rightarrow> string \<Rightarrow> (key_error, string) result" where
  "key_id_of cr enc sig = bind_result (public_digest cr enc sig) (\<lambda>d. Inr (take 26 (base32 d)))"

fun fours :: "string \<Rightarrow> string list" where
  "fours (a # b # c # d # rest) = [a, b, c, d] # fours rest"
| "fours _ = []"

definition fingerprint_of :: "crypto \<Rightarrow> string \<Rightarrow> string \<Rightarrow> (key_error, string) result" where
  "fingerprint_of cr enc sig = bind_result (public_digest cr enc sig)
     (\<lambda>d. Inr (join '' '' (fours (take 16 (concat (map (\<lambda>b. hex_byte (unat b)) d))))))"

section \<open>Signatures over documents\<close>

type_synonym document = "(string \<times> json) list"

definition without_signature :: "document \<Rightarrow> document" where
  "without_signature doc = filter (\<lambda>f. fst f \<noteq> ''signature'') doc"

definition signed_bytes :: "document \<Rightarrow> (sign_error, bytes) result" where
  "signed_bytes doc = bind_result (canonical_json (JObj (without_signature doc))) (\<lambda>s. Inr (utf8 (ustring_of s)))"

text \<open>\<open>sk\<close> is the private signing key; \<^verbatim>\<open>sign\<close> appends the fresh signature as the last field.\<close>

definition sign_document :: "crypto \<Rightarrow> document \<Rightarrow> string \<Rightarrow> (sign_error, document) result" where
  "sign_document cr doc sk = bind_result (signed_bytes doc)
     (\<lambda>m. Inr (without_signature doc @ [(''signature'', JStr (base64url (ed25519_sign cr sk m)))]))"

text \<open>\<^verbatim>\<open>verifyDocument\<close> never throws: an unreadable key, signature or document is not verified.\<close>

definition verify_document :: "crypto \<Rightarrow> document \<Rightarrow> string \<Rightarrow> bool" where
  "verify_document cr doc pk =
     (case signed_bytes doc of
        Inl _ \<Rightarrow> False
      | Inr m \<Rightarrow> (case raw_public_key pk of
          Inl _ \<Rightarrow> False
        | Inr k \<Rightarrow> (case map_of doc ''signature'' of
            Some (JStr t) \<Rightarrow> (case from_base64url t of Inl _ \<Rightarrow> False | Inr s \<Rightarrow> ed25519_verify cr k m s)
          | _ \<Rightarrow> False)))"

section \<open>Base64url is strict\<close>

lemma index_in_b64: "n < 64 \<Longrightarrow> index_in (b64 n) BASE64URL = Some n"
proof -
  assume "n < 64"
  then have "n \<in> set [0..<64]" by simp
  moreover have "list_all (\<lambda>n. index_in (b64 n) BASE64URL = Some n) [0..<64]"
    by code_simp
  ultimately show ?thesis by (simp add: list_all_iff)
qed

lemma index_in_Some: "x \<in> set ys \<Longrightarrow> \<exists>n. index_in x ys = Some n"
  by (induction ys) auto

lemma length_BASE64URL: "length BASE64URL = 64"
  by (simp add: BASE64URL_def)

lemma b64_mem: "n < 64 \<Longrightarrow> b64 n \<in> set BASE64URL"
  by (simp add: b64_def length_BASE64URL)

lemma unat_byte_div4 [simp]: "unat (a :: byte) div 4 < 64"
  using unat_byte_lt [of a] by linarith

lemma unat_byte_div16 [simp]: "unat (a :: byte) div 16 < 16"
  using unat_byte_lt [of a] by linarith

lemma unat_byte_div64 [simp]: "unat (a :: byte) div 64 < 4"
  using unat_byte_lt [of a] by linarith

lemma sextets_lt:
  "unat (a :: byte) mod 4 * 16 + unat (b :: byte) div 16 < 64"
  "unat (b :: byte) mod 16 * 4 + unat (c :: byte) div 64 < 64"
proof -
  have "unat a mod 4 < 4" "unat b mod 16 < 16" "unat b div 16 < 16" "unat c div 64 < 4" by simp_all
  then show "unat a mod 4 * 16 + unat b div 16 < 64" "unat b mod 16 * 4 + unat c div 64 < 64" by linarith+
qed

lemma base64url_alphabet: "list_all (\<lambda>c. c \<in> set BASE64URL) (base64url bs)"
proof (induction bs rule: base64url.induct)
  case (2 a)
  then show ?case using sextets_lt(1) [of a 0] by (auto intro!: b64_mem)
next
  case (3 a b)
  then show ?case using sextets_lt(1) [of a b] sextets_lt(2) [of b 0] by (auto intro!: b64_mem)
next
  case (4 a b c bs)
  then show ?case using sextets_lt(1) [of a b] sextets_lt(2) [of b c] by (auto intro!: b64_mem)
qed simp

lemma sextet1:
  assumes "a < 256" "b < (256::nat)"
  shows "byte_of (a div 4 * 4 + (a mod 4 * 16 + b div 16) div 16) = byte_of a"
proof -
  have "b div 16 < 16" using assms by auto
  then have "(a mod 4 * 16 + b div 16) div 16 = a mod 4" by simp
  then show ?thesis by simp
qed

lemma sextet2:
  assumes "a < 256" "b < 256" "c < (256::nat)"
  shows "byte_of ((a mod 4 * 16 + b div 16) mod 16 * 16 + (b mod 16 * 4 + c div 64) div 4) = byte_of b"
proof -
  have "b div 16 < 16" "c div 64 < 4" using assms by auto
  then have "(a mod 4 * 16 + b div 16) mod 16 = b div 16" "(b mod 16 * 4 + c div 64) div 4 = b mod 16" by auto
  then show ?thesis by simp
qed

lemma sextet3:
  assumes "c < (256::nat)"
  shows "byte_of ((b mod 16 * 4 + c div 64) mod 4 * 64 + c mod 64) = byte_of c"
proof -
  have "c div 64 < 4" using assms by auto
  then have "(b mod 16 * 4 + c div 64) mod 4 = c div 64" by auto
  then show ?thesis by simp
qed

abbreviation sextets :: "string \<Rightarrow> nat list" where
  "sextets t \<equiv> map (\<lambda>c. the (index_in c BASE64URL)) t"

lemma from_sextets_base64url: "from_sextets (sextets (base64url bs)) = bs"
proof (induction bs rule: base64url.induct)
  case (2 a)
  have "unat a div 4 < 64" by simp
  moreover have "unat a mod 4 * 16 < 64" by auto
  ultimately show ?case
    using sextet1 [of "unat a" 0] unat_byte_lt [of a] by (simp add: index_in_b64)
next
  case (3 a b)
  have "unat a div 4 < 64" "unat b div 16 < 16" "unat a mod 4 < 4" "unat b mod 16 < 16"
    using unat_byte_lt [of a] unat_byte_lt [of b] by auto
  then have "unat a div 4 < 64" "unat a mod 4 * 16 + unat b div 16 < 64" "unat b mod 16 * 4 < 64" by linarith+
  then show ?case
    using sextet1 [of "unat a" "unat b"] sextet2 [of "unat a" "unat b" 0] unat_byte_lt [of a] unat_byte_lt [of b]
    by (simp add: index_in_b64)
next
  case (4 a b c bs)
  have "unat a div 4 < 64" "unat b div 16 < 16" "unat a mod 4 < 4" "unat b mod 16 < 16" "unat c div 64 < 4"
    "unat c mod 64 < 64"
    using unat_byte_lt [of a] unat_byte_lt [of b] unat_byte_lt [of c] by auto
  then have "unat a div 4 < 64" "unat a mod 4 * 16 + unat b div 16 < 64"
    "unat b mod 16 * 4 + unat c div 64 < 64" "unat c mod 64 < 64" by linarith+
  then show ?case
    using 4 sextet1 [of "unat a" "unat b"] sextet2 [of "unat a" "unat b" "unat c"]
      sextet3 [of "unat c" "unat b"] unat_byte_lt [of a] unat_byte_lt [of b] unat_byte_lt [of c]
    by (simp add: index_in_b64)
qed simp

text \<open>The strict decoder accepts exactly the encoder's output: a text decodes to the bytes \<open>bs\<close> if and only if it
  is the encoding of \<open>bs\<close>, so padding, the standard alphabet, white space and left-over bits are all refused.\<close>

theorem from_base64url_strict: "from_base64url t = Inr bs \<longleftrightarrow> t = base64url bs"
  by (auto simp: from_base64url_def Let_def base64url_alphabet from_sextets_base64url)

lemma base64url_inverse: "from_base64url (base64url bs) = Inr bs"
  by (simp add: from_base64url_def Let_def base64url_alphabet from_sextets_base64url)

lemma from_base64url_Inr: "from_base64url t = Inr bs \<Longrightarrow> t = base64url bs"
  by (auto simp: from_base64url_def Let_def split: if_splits)

section \<open>Base32 is RFC 4648\<close>

text \<open>The reference: the most significant bits first, in groups of five, the last group filled with zeros.\<close>

fun bits_of :: "nat \<Rightarrow> nat \<Rightarrow> bool list" where
  "bits_of 0 v = []"
| "bits_of (Suc n) v = odd (v div 2 ^ n) # bits_of n v"

fun of_bits :: "bool list \<Rightarrow> nat" where
  "of_bits [] = 0"
| "of_bits (b # bs) = of_bool b * 2 ^ length bs + of_bits bs"

function rfc4648_base32 :: "bool list \<Rightarrow> string" where
  "rfc4648_base32 bs =
     (if bs = [] then []
      else BASE32_ALPHABET ! of_bits (take 5 (bs @ replicate 4 False)) # rfc4648_base32 (drop 5 bs))"
  by pat_completeness auto
termination
  by (relation "measure length") auto

declare rfc4648_base32.simps [simp del]

lemma length_bits_of [simp]: "length (bits_of n v) = n"
  by (induction n) auto

lemma of_bits_bits_of: "of_bits (bits_of n v) = v mod 2 ^ n"
proof (induction n)
  case (Suc n)
  have "v mod 2 ^ Suc n = 2 ^ n * (v div 2 ^ n mod 2) + v mod 2 ^ n"
    using mod_mult2_eq [of v "2 ^ n" 2] by (simp add: mult.commute)
  then show ?case using Suc by (simp add: odd_iff_mod_2_eq_one mod2_eq_if)
qed simp

lemma bits_of_append: "bits_of (m + n) v = bits_of m (v div 2 ^ n) @ bits_of n v"
  by (induction m) (simp_all add: div_mult2_eq [symmetric] power_add mult.commute)

lemma bits_of_mod: "n \<le> k \<Longrightarrow> bits_of n (v mod 2 ^ k) = bits_of n v"
proof (induction n)
  case (Suc n)
  have "v mod 2 ^ k div 2 ^ n = (v div 2 ^ n) mod 2 ^ (k - n)"
    using Suc.prems mod_mult2_eq [of v "2 ^ n" "2 ^ (k - n)"]
    by (simp add: power_add [symmetric])
  moreover have "even (v div 2 ^ n mod 2 ^ (k - n)) = even (v div 2 ^ n)"
    using Suc.prems by (simp add: dvd_mod_iff)
  ultimately show ?case using Suc by simp
qed simp

lemma of_bits_append: "of_bits (xs @ ys) = of_bits xs * 2 ^ length ys + of_bits ys"
  by (induction xs) (simp_all add: power_add algebra_simps)

lemma of_bits_replicate [simp]: "of_bits (replicate n False) = 0"
  by (induction n) auto

lemma rfc_group: "rfc4648_base32 (bits_of 5 v @ r) = BASE32_ALPHABET ! (v mod 32) # rfc4648_base32 r"
proof -
  have "bits_of 5 v \<noteq> []" by (metis length_bits_of list.size(3) zero_neq_numeral)
  then show ?thesis
    by (subst rfc4648_base32.simps) (simp add: of_bits_bits_of)
qed

lemma base32_emit_rfc:
  "base32_emit n v @ rfc4648_base32 (bits_of (n mod 5) v @ r) = rfc4648_base32 (bits_of n v @ r)"
proof (induction n v rule: base32_emit.induct)
  case (1 n v)
  show ?case
  proof (cases "5 \<le> n")
    case True
    have "bits_of n v = bits_of 5 (v div 2 ^ (n - 5)) @ bits_of (n - 5) v"
      using True bits_of_append [of 5 "n - 5" v] by simp
    moreover have "(n - 5) mod 5 = n mod 5" using True by (simp add: le_mod_geq)
    ultimately show ?thesis
      using 1 True by (simp add: base32_emit.simps [of n] rfc_group)
  next
    case False
    then show ?thesis by (simp add: base32_emit.simps [of n])
  qed
qed

lemma base32_loop_rfc:
  "n < 5 \<Longrightarrow> base32_loop n v bs = rfc4648_base32 (bits_of n v @ concat (map (\<lambda>b. bits_of 8 (unat b)) bs))"
proof (induction bs arbitrary: n v)
  case Nil
  show ?case
  proof (cases "n = 0")
    case True
    then show ?thesis by (simp add: rfc4648_base32.simps)
  next
    case False
    have e: "bits_of n v @ replicate 4 False = (bits_of n v @ replicate (5 - n) False) @ replicate (n - 1) False"
      using Nil False by (simp add: replicate_add [symmetric])
    have "of_bits (take 5 (bits_of n v @ replicate 4 False)) = of_bits (bits_of n v @ replicate (5 - n) False)"
      unfolding e using Nil by (subst take_append) simp
    also have "\<dots> = v mod 2 ^ n * 2 ^ (5 - n)"
      by (simp add: of_bits_append of_bits_bits_of)
    also have "\<dots> = v * 2 ^ (5 - n) mod 32"
      using Nil mult_mod_right [of "2 ^ (5 - n)" v "2 ^ n"]
      by (simp add: power_add [symmetric] mult.commute)
    finally have "of_bits (take 5 (bits_of n v @ replicate 4 False)) = v * 2 ^ (5 - n) mod 32" .
    moreover have "bits_of n v \<noteq> []" using False by (metis length_bits_of list.size(3))
    ultimately show ?thesis
      using Nil False by (subst rfc4648_base32.simps) (simp add: rfc4648_base32.simps [of "[]"])
  qed
next
  case (Cons b bs)
  define w where "w = (v * 256 + unat b) mod 8192"
  have "bits_of (n + 8) w = bits_of (n + 8) (v * 256 + unat b)"
    using bits_of_mod [of "n + 8" 13 "v * 256 + unat b"] Cons.prems by (simp add: w_def)
  also have "\<dots> = bits_of n v @ bits_of 8 (v * 256 + unat b)"
    using bits_of_append [of n 8 "v * 256 + unat b"] unat_byte_lt [of b] by simp
  also have "bits_of 8 (v * 256 + unat b) = bits_of 8 (unat b)"
    using bits_of_mod [of 8 8 "v * 256 + unat b"] bits_of_mod [of 8 8 "unat b"] by simp
  finally have w: "bits_of (n + 8) w = bits_of n v @ bits_of 8 (unat b)" .
  show ?case
    using Cons.IH [of "(n + 8) mod 5" w] base32_emit_rfc [of "n + 8" w] w
    by (simp add: Let_def w_def [symmetric])
qed

text \<open>\<^verbatim>\<open>base32\<close>, which keeps only thirteen bits of its accumulator, writes exactly the unpadded RFC 4648 text of the
  bytes: five bits at a time from the most significant end, the last group filled up with zeros.\<close>

theorem base32_is_rfc4648:
  "base32 bs = rfc4648_base32 (concat (map (\<lambda>b. bits_of 8 (unat b)) bs))"
  using base32_loop_rfc [of 0 0 bs] by (simp add: base32_def)

section \<open>Canonical JSON ignores the order of fields\<close>

text \<open>
  The same JSON value: fields of an object in another order, undefined fields left out, at any depth. An
  object never holds a field twice.
\<close>

inductive json_same :: "json \<Rightarrow> json \<Rightarrow> bool" where
  refl: "json_same v v"
| items: "list_all2 json_same vs ws \<Longrightarrow> json_same (JArr vs) (JArr ws)"
| fields: "distinct (map fst fs) \<Longrightarrow> list_all2 (\<lambda>f g. fst f = fst g \<and> json_same (snd f) (snd g)) fs gs \<Longrightarrow>
    json_same (JObj fs) (JObj gs)"
| order: "distinct (map fst fs) \<Longrightarrow> mset fs = mset gs \<Longrightarrow> json_same (JObj fs) (JObj gs)"
| dropped: "json_same (JObj (filter (\<lambda>f. snd f \<noteq> JUndefined) fs)) (JObj fs)"
| added: "json_same (JObj fs) (JObj (filter (\<lambda>f. snd f \<noteq> JUndefined) fs))"
| trans: "json_same u v \<Longrightarrow> json_same v w \<Longrightarrow> json_same u w"

lemma json_same_undefined: "json_same v w \<Longrightarrow> v = JUndefined \<longleftrightarrow> w = JUndefined"
  by (induction rule: json_same.induct) auto

lemma canonical_items_map: "canonical_items vs = map canonical_json vs"
  by (induction vs) auto

lemma canonical_fields_map:
  "canonical_fields fs = map (\<lambda>f. (fst f, canonical_json (snd f))) (filter (\<lambda>f. snd f \<noteq> JUndefined) fs)"
  by (induction fs) auto

lemma canonical_json_same: "json_same v w \<Longrightarrow> canonical_json v = canonical_json w"
proof (induction rule: json_same.induct)
  case (items vs ws)
  have "canonical_items vs = canonical_items ws"
    using items by (simp add: canonical_items_map list_all2_conv_all_nth list_eq_iff_nth_eq)
  then show ?case by simp
next
  case (fields fs gs)
  have "list_all2 (\<lambda>f g. fst f = fst g \<and> (snd f = JUndefined \<longleftrightarrow> snd g = JUndefined) \<and>
      canonical_json (snd f) = canonical_json (snd g)) fs gs"
    using fields(2) by (rule list_all2_mono) (auto dest: json_same_undefined)
  then have "canonical_fields fs = canonical_fields gs"
    by (induction rule: list_all2_induct) (auto)
  then show ?case by simp
next
  case (order fs gs)
  have "mset (canonical_fields fs) = mset (canonical_fields gs)"
    using order by (simp add: canonical_fields_map mset_filter)
  moreover have "distinct (map fst (canonical_fields fs))"
    using order by (simp add: canonical_fields_map comp_def distinct_map_filter)
  ultimately show ?case using sort_key_same by (metis canonical_json.simps(6))
qed (auto simp: canonical_fields_map)

text \<open>C24: What is signed does not depend on how the file was written: two spellings of the same value, with object
  keys in another order at any depth or undefined fields left out, have the same canonical text, or are
  both refused.\<close>

theorem canonical_json_order_free:
  assumes "json_same v w"
  shows "canonical_json v = canonical_json w"
  using assms by (rule canonical_json_same)

definition sample_obj :: json where
  "sample_obj = JObj [(''b'', JArr [JObj [(''y'', JNum 2), (''x'', JNull)]]), (''a'', JUndefined)]"

definition sample_obj_sorted :: json where
  "sample_obj_sorted = JObj [(''b'', JArr [JObj [(''x'', JNull), (''y'', JNum 2)]])]"

lemma sample_obj_same: "json_same sample_obj sample_obj_sorted"
proof -
  have "json_same (JObj [(''y'', JNum 2), (''x'', JNull)]) (JObj [(''x'', JNull), (''y'', JNum 2)])"
    by (rule json_same.order) simp_all
  then have "json_same (JObj [(''b'', JArr [JObj [(''y'', JNum 2), (''x'', JNull)]])])
      (JObj [(''b'', JArr [JObj [(''x'', JNull), (''y'', JNum 2)]])])"
    by (intro json_same.fields) (auto intro: json_same.items)
  moreover have "json_same sample_obj (JObj [(''b'', JArr [JObj [(''y'', JNum 2), (''x'', JNull)]])])"
    using json_same.added [of "[(''b'', JArr [JObj [(''y'', JNum 2), (''x'', JNull)]]), (''a'', JUndefined)]"]
    by (simp add: sample_obj_def)
  ultimately show ?thesis unfolding sample_obj_sorted_def by (rule json_same.trans [rotated])
qed

theorem canonical_json_order_free_witness:
  "canonical_json sample_obj = canonical_json sample_obj_sorted"
  by (rule canonical_json_order_free [OF sample_obj_same])

section \<open>Signing then verifying\<close>

lemma without_signature_signed [simp]:
  "without_signature (without_signature doc @ [(''signature'', v)]) = without_signature doc"
  by (simp add: without_signature_def)

lemma map_of_without_signature: "map_of (without_signature doc) ''signature'' = None"
  by (auto simp: without_signature_def map_of_eq_None_iff)

text \<open>C22: A signed document verifies under the signer's public key, for every document the signer accepts, its old
  signature if any being replaced. Of Ed25519 only this is assumed: a signature made with \<open>sk\<close> verifies
  under the raw public key \<open>k\<close>.\<close>

theorem sign_then_verify:
  assumes ed25519: "\<And>m. ed25519_verify cr k m (ed25519_sign cr sk m)"
    and key: "raw_public_key pk = Inr k"
    and signed: "sign_document cr doc sk = Inr doc'"
  shows "verify_document cr doc' pk \<and> without_signature doc' = without_signature doc"
proof -
  from signed obtain m where m: "signed_bytes doc = Inr m"
    and d: "doc' = without_signature doc @ [(''signature'', JStr (base64url (ed25519_sign cr sk m)))]"
    by (auto simp: sign_document_def bind_result_Inr_iff)
  then have "signed_bytes doc' = Inr m" by (simp add: signed_bytes_def)
  then show ?thesis
    using ed25519 key d by (simp add: verify_document_def map_of_append map_add_def map_of_without_signature base64url_inverse)
qed

text \<open>A toy signature scheme, for the witness: the public key is all zeros and the signature is the message.\<close>

definition toy_crypto :: crypto where
  "toy_crypto = \<lparr>sha256 = (\<lambda>m. replicate 32 0), ed25519_sign = (\<lambda>sk m. m), ed25519_verify = (\<lambda>k m s. s = m)\<rparr>"

definition zero_key :: string where
  "zero_key = base64url (replicate 32 0)"

lemma raw_zero_key: "raw_public_key zero_key = Inr (replicate 32 0)"
  by (simp add: raw_public_key_def zero_key_def base64url_inverse assert_key_length_def PUBLIC_KEY_LENGTH_def)

theorem sign_then_verify_witness:
  "\<exists>doc'. sign_document toy_crypto [(''b'', JBool True), (''a'', JStr ''x'')] ''k'' = Inr doc' \<and>
     verify_document toy_crypto doc' zero_key"
proof -
  have "\<exists>doc'. sign_document toy_crypto [(''b'', JBool True), (''a'', JStr ''x'')] ''k'' = Inr doc'"
    by (simp add: sign_document_def signed_bytes_def without_signature_def canonical_field_def)
  then obtain doc' where d: "sign_document toy_crypto [(''b'', JBool True), (''a'', JStr ''x'')] ''k'' = Inr doc'" ..
  have "ed25519_verify toy_crypto (replicate 32 0) m (ed25519_sign toy_crypto ''k'' m)" for m
    by (simp add: toy_crypto_def)
  from sign_then_verify [OF this raw_zero_key d] d show ?thesis by blast
qed

end
