(* ===== verification/Machine.thy ===== *)
theory Machine
  imports Prelude
begin

text \<open>
  The contract of every component that is a state changed by one operation at a time: an invariant that the
  initial state has and each operation keeps, and, in the second locale, a preorder the state only climbs.
  Its lemmas say the same of every run of operations.
\<close>

definition run :: "('s \<Rightarrow> 'o \<Rightarrow> 's) \<Rightarrow> 's \<Rightarrow> 'o list \<Rightarrow> 's" where
  "run step s os = foldl step s os"

lemma run_simps [simp]:
  "run step s [] = s"
  "run step s (x # os) = run step (step s x) os"
  "run step s (os @ ps) = run step (run step s os) ps"
  by (simp_all add: run_def)

locale machine =
  fixes step :: "'s \<Rightarrow> 'o \<Rightarrow> 's" and inv :: "'s \<Rightarrow> bool"
  assumes inv_step: "inv s \<Longrightarrow> inv (step s x)"
begin

lemma inv_run: "inv s \<Longrightarrow> inv (run step s os)"
  by (induction os arbitrary: s) (simp_all add: inv_step)

end

locale climbing_machine = machine step inv for step :: "'s \<Rightarrow> 'o \<Rightarrow> 's" and inv +
  fixes below :: "'s \<Rightarrow> 's \<Rightarrow> bool"
  assumes below_refl: "below s s"
    and below_trans: "below s t \<Longrightarrow> below t u \<Longrightarrow> below s u"
    and below_step: "inv s \<Longrightarrow> below s (step s x)"
begin

lemma below_run: "inv s \<Longrightarrow> below s (run step s os)"
proof (induction os arbitrary: s)
  case (Cons x os)
  have "below s (step s x)" using Cons.prems by (rule below_step)
  moreover have "below (step s x) (run step (step s x) os)"
    using Cons.prems by (intro Cons.IH inv_step)
  ultimately show ?case by (simp add: below_trans [of s "step s x"])
qed (simp add: below_refl)

lemma below_prefix: "inv s \<Longrightarrow> below (run step s os) (run step s (os @ ps))"
  by (simp add: below_run inv_run)

end

end
