(* ===== verification/Access_Log.thy ===== *)
theory Access_Log
  imports Team_Sign Machine
begin

text \<open>
  \<^verbatim>\<open>packages/core/src/team-secrets/log.ts\<close>: the key requests that prove possession of their keys, and the
  replay of the signed access log that gives the approved keys and the admins.
\<close>

section \<open>Key requests\<close>

record key_request =
  rq_key_id :: string
  rq_encryption_key :: string
  rq_signing_key :: string
  rq_name :: string
  rq_email :: string
  rq_machine :: string
  rq_requested_at :: string
  rq_signature :: string

definition request_doc :: "key_request \<Rightarrow> document" where
  "request_doc f =
     [(''version'', JNum 1), (''keyId'', JStr (rq_key_id f)), (''encryptionKey'', JStr (rq_encryption_key f)),
      (''signingKey'', JStr (rq_signing_key f)), (''name'', JStr (rq_name f)), (''email'', JStr (rq_email f)),
      (''machine'', JStr (rq_machine f)), (''requestedAt'', JStr (rq_requested_at f)),
      (''signature'', JStr (rq_signature f))]"

record key_info =
  ki_key_id :: string
  ki_encryption_key :: string
  ki_signing_key :: string
  ki_name :: string
  ki_email :: string
  ki_machine :: string
  ki_requested_at :: string
  ki_fingerprint :: string

definition info_of :: "key_request \<Rightarrow> string \<Rightarrow> key_info" where
  "info_of f fp = \<lparr>ki_key_id = rq_key_id f, ki_encryption_key = rq_encryption_key f,
     ki_signing_key = rq_signing_key f, ki_name = rq_name f, ki_email = rq_email f,
     ki_machine = rq_machine f, ki_requested_at = rq_requested_at f, ki_fingerprint = fp\<rparr>"

type_synonym keys = "(string, key_info) jsmap"

definition add_verified :: "crypto \<Rightarrow> keys \<Rightarrow> key_request \<Rightarrow> (key_error, keys) result" where
  "add_verified cr ks f =
     bind_result (key_id_of cr (rq_encryption_key f) (rq_signing_key f)) (\<lambda>i.
       if i \<noteq> rq_key_id f \<or> \<not> verify_document cr (request_doc f) (rq_signing_key f) then Inr ks
       else bind_result (fingerprint_of cr (rq_encryption_key f) (rq_signing_key f)) (\<lambda>fp.
         Inr (jsset ks (rq_key_id f) (info_of f fp))))"

fun verified_keys_from :: "crypto \<Rightarrow> keys \<Rightarrow> key_request list \<Rightarrow> (key_error, keys) result" where
  "verified_keys_from cr ks [] = Inr ks"
| "verified_keys_from cr ks (f # fs) = bind_result (add_verified cr ks f) (\<lambda>ks'. verified_keys_from cr ks' fs)"

definition verified_keys :: "crypto \<Rightarrow> key_request list \<Rightarrow> (key_error, keys) result" where
  "verified_keys cr fs = verified_keys_from cr [] fs"

section \<open>Ids of new entries\<close>

text \<open>\<^verbatim>\<open>ulid\<close> and \<^verbatim>\<open>decodeTime\<close> of the package ulidx are parameters; \<open>None\<close> is \<^verbatim>\<open>decodeTime\<close> throwing.\<close>

fun newer_id :: "string \<Rightarrow> string option \<Rightarrow> string option" where
  "newer_id i None = Some i"
| "newer_id i (Some j) = (if j < i then Some i else Some j)"

definition latest_id :: "string list \<Rightarrow> string option" where
  "latest_id ids = fold newer_id ids None"

definition next_access_entry_id ::
    "(nat \<Rightarrow> string) \<Rightarrow> (string \<Rightarrow> nat option) \<Rightarrow> string list \<Rightarrow> nat \<Rightarrow> string" where
  "next_access_entry_id ulid decode_time existing now =
     (case latest_id existing of
        None \<Rightarrow> ulid now
      | Some j \<Rightarrow> (case decode_time j of
          None \<Rightarrow> ulid now
        | Some t \<Rightarrow> ulid (max now (t + 1))))"

section \<open>The replay\<close>

datatype access_action = Genesis | Approve | Remove | Grant_admin | Revoke_admin

datatype authority = Signed | Server

record access_entry =
  en_id :: string
  en_action :: access_action
  en_authority :: "authority option"
  en_key :: string
  en_by :: string
  en_at :: string
  en_signature :: string

fun action_name :: "access_action \<Rightarrow> string" where
  "action_name Genesis = ''genesis''"
| "action_name Approve = ''approve''"
| "action_name Remove = ''remove''"
| "action_name Grant_admin = ''grant-admin''"
| "action_name Revoke_admin = ''revoke-admin''"

fun authority_name :: "authority \<Rightarrow> string" where
  "authority_name Signed = ''signed''"
| "authority_name Server = ''server''"

definition entry_doc :: "access_entry \<Rightarrow> document" where
  "entry_doc e =
     [(''version'', JNum 1), (''id'', JStr (en_id e)), (''action'', JStr (action_name (en_action e)))] @
     (case en_authority e of None \<Rightarrow> [] | Some a \<Rightarrow> [(''authority'', JStr (authority_name a))]) @
     [(''key'', JStr (en_key e)), (''by'', JStr (en_by e)), (''at'', JStr (en_at e)),
      (''signature'', JStr (en_signature e))]"

datatype log_problem =
    Unknown_signer | Bad_signature | Second_genesis | No_genesis | Not_allowed | Unknown_key
  | Already_approved | Removed_key | Not_approved | Not_admin | Already_admin | Last_admin
  | Last_approved | Wrong_authority

record removal =
  rm_key_id :: string
  rm_at :: string
  rm_by :: string
  rm_entry_id :: string

record replay =
  authority :: "authority option"
  genesis_id :: "string option"
  approved :: "string list"
  admins :: "string list"
  removed_keys :: "string list"
  removed :: "removal list"
  problems :: "(string \<times> log_problem) list"

definition replay_start :: replay where
  "replay_start = \<lparr>authority = None, genesis_id = None, approved = [], admins = [], removed_keys = [],
     removed = [], problems = []\<rparr>"

definition reject :: "replay \<Rightarrow> access_entry \<Rightarrow> log_problem \<Rightarrow> replay" where
  "reject s e p = s\<lparr>problems := problems s @ [(en_id e, p)]\<rparr>"

definition do_genesis :: "string option \<Rightarrow> replay \<Rightarrow> access_entry \<Rightarrow> replay" where
  "do_genesis pin s e =
     (if authority s \<noteq> None \<or> (pin \<noteq> None \<and> pin \<noteq> Some (en_id e)) then reject s e Second_genesis
      else if en_key e \<noteq> en_by e \<or> en_authority e = None then reject s e Not_allowed
      else s\<lparr>authority := en_authority e, genesis_id := Some (en_id e),
             approved := jsadd (approved s) (en_key e),
             admins := if en_authority e = Some Signed then jsadd (admins s) (en_key e) else admins s\<rparr>)"

definition do_approve :: "replay \<Rightarrow> access_entry \<Rightarrow> replay" where
  "do_approve s e =
     (if en_key e \<in> set (removed_keys s) then reject s e Removed_key
      else if en_key e \<in> set (approved s) then reject s e Already_approved
      else s\<lparr>approved := jsadd (approved s) (en_key e)\<rparr>)"

definition do_remove :: "replay \<Rightarrow> access_entry \<Rightarrow> replay" where
  "do_remove s e =
     (if en_key e \<notin> set (approved s) then reject s e Not_approved
      else if authority s = Some Signed \<and> en_key e \<in> set (admins s) \<and> length (admins s) = 1
        then reject s e Last_admin
      else if authority s = Some Server \<and> length (approved s) = 1 then reject s e Last_approved
      else s\<lparr>approved := jsremove (approved s) (en_key e), admins := jsremove (admins s) (en_key e),
             removed_keys := jsadd (removed_keys s) (en_key e),
             removed := removed s @
               [\<lparr>rm_key_id = en_key e, rm_at = en_at e, rm_by = en_by e, rm_entry_id = en_id e\<rparr>]\<rparr>)"

definition do_grant :: "replay \<Rightarrow> access_entry \<Rightarrow> replay" where
  "do_grant s e =
     (if authority s \<noteq> Some Signed then reject s e Wrong_authority
      else if en_key e \<notin> set (approved s) then reject s e Not_approved
      else if en_key e \<in> set (admins s) then reject s e Already_admin
      else s\<lparr>admins := jsadd (admins s) (en_key e)\<rparr>)"

definition do_revoke :: "replay \<Rightarrow> access_entry \<Rightarrow> replay" where
  "do_revoke s e =
     (if authority s \<noteq> Some Signed then reject s e Wrong_authority
      else if en_key e \<notin> set (admins s) then reject s e Not_admin
      else if length (admins s) = 1 then reject s e Last_admin
      else s\<lparr>admins := jsremove (admins s) (en_key e)\<rparr>)"

definition may_manage :: "replay \<Rightarrow> string \<Rightarrow> bool" where
  "may_manage s k \<longleftrightarrow> (if authority s = Some Signed then k \<in> set (admins s) else k \<in> set (approved s))"

fun do_action :: "access_action \<Rightarrow> string option \<Rightarrow> replay \<Rightarrow> access_entry \<Rightarrow> replay" where
  "do_action Genesis = do_genesis"
| "do_action Approve = (\<lambda>_. do_approve)"
| "do_action Remove = (\<lambda>_. do_remove)"
| "do_action Grant_admin = (\<lambda>_. do_grant)"
| "do_action Revoke_admin = (\<lambda>_. do_revoke)"

text \<open>The body of the loop; \<open>pin\<close> is \<^verbatim>\<open>options.genesisId\<close>.\<close>

definition replay_entry :: "crypto \<Rightarrow> keys \<Rightarrow> string option \<Rightarrow> replay \<Rightarrow> access_entry \<Rightarrow> replay" where
  "replay_entry cr ks pin s e =
     (case jsget ks (en_by e) of
        None \<Rightarrow> reject s e Unknown_signer
      | Some signer \<Rightarrow>
          if \<not> verify_document cr (entry_doc e) (ki_signing_key signer) then reject s e Bad_signature
          else if en_action e = Genesis then do_genesis pin s e
          else if authority s = None then reject s e No_genesis
          else if \<not> may_manage s (en_by e) then reject s e Not_allowed
          else if \<not> jshas ks (en_key e) then reject s e Unknown_key
          else do_action (en_action e) pin s e)"

definition replay_all :: "crypto \<Rightarrow> keys \<Rightarrow> string option \<Rightarrow> access_entry list \<Rightarrow> replay" where
  "replay_all cr ks pin es = run (replay_entry cr ks pin) replay_start (sort_key en_id es)"

record access_state =
  st_on :: bool
  st_authority :: "authority option"
  st_genesis_id :: "string option"
  st_keys :: keys
  st_approved :: "string list"
  st_admins :: "string list"
  st_removed :: "removal list"
  st_problems :: "(string \<times> log_problem) list"

definition replay_access_log :: "crypto \<Rightarrow> keys \<Rightarrow> string option \<Rightarrow> access_entry list \<Rightarrow> access_state" where
  "replay_access_log cr ks pin es =
     (let s = replay_all cr ks pin es in
      \<lparr>st_on = (authority s \<noteq> None), st_authority = authority s, st_genesis_id = genesis_id s, st_keys = ks,
       st_approved = approved s, st_admins = admins s, st_removed = removed s, st_problems = problems s\<rparr>)"

section \<open>The invariant of the replay\<close>

definition replay_inv :: "keys \<Rightarrow> string option \<Rightarrow> replay \<Rightarrow> bool" where
  "replay_inv ks pin s \<longleftrightarrow>
     distinct (approved s) \<and> distinct (admins s) \<and>
     set (admins s) \<subseteq> set (approved s) \<and>
     (\<forall>k \<in> set (approved s). jshas ks k) \<and>
     set (approved s) \<inter> set (removed_keys s) = {} \<and>
     set (map rm_key_id (removed s)) = set (removed_keys s) \<and>
     (authority s = None \<longrightarrow> genesis_id s = None \<and> approved s = [] \<and> removed_keys s = []) \<and>
     (authority s = Some Signed \<longrightarrow> admins s \<noteq> []) \<and>
     (authority s = Some Server \<longrightarrow> admins s = [] \<and> approved s \<noteq> []) \<and>
     (authority s \<noteq> None \<longrightarrow> genesis_id s \<noteq> None \<and> (pin = None \<or> genesis_id s = pin))"

lemma jsremove_empty: "distinct xs \<Longrightarrow> jsremove xs x = [] \<Longrightarrow> xs = [] \<or> xs = [x]"
  unfolding jsremove_def
  by (cases xs; cases "tl xs") (auto split: if_splits)

lemma jsremove_nonempty: "distinct xs \<Longrightarrow> xs \<noteq> [] \<Longrightarrow> length xs \<noteq> 1 \<or> x \<notin> set xs \<Longrightarrow> jsremove xs x \<noteq> []"
  using jsremove_empty by fastforce

lemma reject_inv: "replay_inv ks pin s \<Longrightarrow> replay_inv ks pin (reject s e p)"
  by (simp add: replay_inv_def reject_def)

lemma do_genesis_inv:
  "replay_inv ks pin s \<Longrightarrow> jshas ks (en_by e) \<Longrightarrow> replay_inv ks pin (do_genesis pin s e)"
  unfolding do_genesis_def
  by (cases "en_authority e"; cases "the (en_authority e)")
     (auto simp: reject_inv, auto simp: replay_inv_def jsadd_def)

lemma do_approve_inv:
  "replay_inv ks pin s \<Longrightarrow> authority s \<noteq> None \<Longrightarrow> jshas ks (en_key e) \<Longrightarrow> replay_inv ks pin (do_approve s e)"
  unfolding do_approve_def by (auto simp: reject_inv) (auto simp: replay_inv_def jsadd_def)

lemma do_remove_inv:
  assumes "replay_inv ks pin s" "authority s \<noteq> None"
  shows "replay_inv ks pin (do_remove s e)"
proof (cases "en_key e \<in> set (approved s)
    \<and> \<not> (authority s = Some Signed \<and> en_key e \<in> set (admins s) \<and> length (admins s) = 1)
    \<and> \<not> (authority s = Some Server \<and> length (approved s) = 1)")
  case True
  have "authority s = Some Signed \<Longrightarrow> jsremove (admins s) (en_key e) \<noteq> []"
    using True assms by (intro jsremove_nonempty) (auto simp: replay_inv_def)
  moreover have "authority s = Some Server \<Longrightarrow> jsremove (approved s) (en_key e) \<noteq> []"
    using True assms by (intro jsremove_nonempty) (auto simp: replay_inv_def)
  moreover have "authority s = Some Server \<Longrightarrow> jsremove (admins s) (en_key e) = []"
    using assms by (auto simp: replay_inv_def jsremove_def)
  ultimately show ?thesis
    using True assms by (auto simp: do_remove_def replay_inv_def)
next
  case False
  then show ?thesis using assms by (auto simp: do_remove_def reject_inv)
qed

lemma do_grant_inv: "replay_inv ks pin s \<Longrightarrow> replay_inv ks pin (do_grant s e)"
  unfolding do_grant_def by (auto simp: reject_inv) (auto simp: replay_inv_def jsadd_def)

lemma do_revoke_inv:
  assumes "replay_inv ks pin s"
  shows "replay_inv ks pin (do_revoke s e)"
proof (cases "authority s = Some Signed \<and> en_key e \<in> set (admins s) \<and> length (admins s) \<noteq> 1")
  case True
  then have "jsremove (admins s) (en_key e) \<noteq> []"
    using assms by (intro jsremove_nonempty) (auto simp: replay_inv_def)
  then show ?thesis using True assms by (auto simp: do_revoke_def replay_inv_def)
next
  case False
  then show ?thesis using assms by (auto simp: do_revoke_def reject_inv)
qed

lemma replay_entry_inv:
  assumes "replay_inv ks pin s"
  shows "replay_inv ks pin (replay_entry cr ks pin s e)"
  using assms
  by (cases "en_action e")
     (auto simp: replay_entry_def reject_inv do_genesis_inv do_approve_inv do_remove_inv do_grant_inv
       do_revoke_inv split: option.splits)

lemma replay_start_inv: "replay_inv ks pin replay_start"
  by (simp add: replay_inv_def replay_start_def)

text \<open>A key once removed stays removed, and the genesis once found stays.\<close>

definition replay_below :: "replay \<Rightarrow> replay \<Rightarrow> bool" where
  "replay_below s t \<longleftrightarrow> set (removed_keys s) \<subseteq> set (removed_keys t) \<and>
     (\<exists>ps. problems t = problems s @ ps) \<and> (\<exists>rs. removed t = removed s @ rs) \<and>
     (authority s \<noteq> None \<longrightarrow> authority t = authority s \<and> genesis_id t = genesis_id s)"

lemma replay_entry_below: "replay_below s (replay_entry cr ks pin s e)"
  by (cases "en_action e")
     (auto simp: replay_below_def replay_entry_def reject_def do_genesis_def do_approve_def do_remove_def
       do_grant_def do_revoke_def split: option.splits)

interpretation access: climbing_machine "replay_entry cr ks pin" "replay_inv ks pin" replay_below
  for cr ks pin
proof unfold_locales
  show "replay_inv ks pin s \<Longrightarrow> replay_inv ks pin (replay_entry cr ks pin s e)" for s e
    by (rule replay_entry_inv)
  show "replay_below s s" for s by (simp add: replay_below_def)
  show "replay_below s t \<Longrightarrow> replay_below t u \<Longrightarrow> replay_below s u" for s t u
    by (auto simp: replay_below_def)
  show "replay_below s (replay_entry cr ks pin s e)" for s e by (rule replay_entry_below)
qed

lemma replay_all_inv: "replay_inv ks pin (replay_all cr ks pin es)"
  unfolding replay_all_def by (intro access.inv_run replay_start_inv)

text \<open>C1: Whatever entries the tree holds, the replayed state is one the product can stand on: admins are approved,
  approved keys have a verified request, no removed key is approved, a signed workspace that is on has an
  admin, a server workspace has an approved key and no admins, and a pinned genesis is the genesis.\<close>

theorem access_state_sound:
  "let st = replay_access_log cr ks pin es in
     set (st_admins st) \<subseteq> set (st_approved st)
   \<and> (\<forall>k \<in> set (st_approved st). jshas ks k)
   \<and> (\<forall>r \<in> set (st_removed st). rm_key_id r \<notin> set (st_approved st))
   \<and> (st_authority st = Some Signed \<longrightarrow> st_admins st \<noteq> [])
   \<and> (st_authority st = Some Server \<longrightarrow> st_admins st = [] \<and> st_approved st \<noteq> [])
   \<and> (\<not> st_on st \<longrightarrow> st_approved st = [])
   \<and> (st_on st \<and> pin \<noteq> None \<longrightarrow> st_genesis_id st = pin)"
proof -
  have "replay_inv ks pin (replay_all cr ks pin es)" by (rule replay_all_inv)
  then show ?thesis
    by (auto simp: replay_access_log_def replay_inv_def Let_def)
qed

section \<open>Only authorised entries count\<close>

definition who_can :: "replay \<Rightarrow> string list \<times> string list \<times> string list" where
  "who_can s = (approved s, admins s, removed_keys s)"

text \<open>What it takes for an entry to be counted, apart from the action's own conditions.\<close>

definition authorised :: "crypto \<Rightarrow> keys \<Rightarrow> string option \<Rightarrow> replay \<Rightarrow> access_entry \<Rightarrow> bool" where
  "authorised cr ks pin s e \<longleftrightarrow>
     (\<exists>signer. jsget ks (en_by e) = Some signer \<and> verify_document cr (entry_doc e) (ki_signing_key signer)) \<and>
     (case authority s of
        None \<Rightarrow> en_action e = Genesis \<and> en_key e = en_by e \<and> (pin = None \<or> pin = Some (en_id e))
      | Some Signed \<Rightarrow> en_by e \<in> set (admins s)
      | Some Server \<Rightarrow> en_by e \<in> set (approved s))"

lemma who_can_reject [simp]: "who_can (reject s e p) = who_can s"
  by (simp add: who_can_def reject_def)

lemma authority_cases: "a = None \<or> a = Some Signed \<or> a = Some Server"
  by (cases a) (auto, metis authority.exhaust)

lemma replay_entry_authorised:
  assumes "who_can (replay_entry cr ks pin s e) \<noteq> who_can s"
  shows "authorised cr ks pin s e"
  using assms authority_cases [of "authority s"]
  by (auto simp: replay_entry_def authorised_def do_genesis_def may_manage_def
      split: option.splits if_splits)

text \<open>C2: An entry that changes who is approved, who is an admin or who is removed was signed by the key it names as its
  author, and that key was an admin at that point of the replay (an approved key where the server holds
  the authority); only the genesis, self-signed and not a pinned-out one, needs nobody before it.\<close>

theorem access_changes_are_authorised:
  assumes "who_can (replay_entry cr ks pin s e) \<noteq> who_can s"
  shows "authorised cr ks pin s e"
  using assms by (rule replay_entry_authorised)

section \<open>The order of the files, and later entries\<close>

text \<open>C33: The replay does not depend on the order the files are read in: two listings of the same entries, no two with the
  same id, give the same state.\<close>

theorem replay_order_free:
  assumes "mset es = mset es'" and "distinct (map en_id es)"
  shows "replay_access_log cr ks pin es = replay_access_log cr ks pin es'"
  using sort_key_same [OF assms] by (simp add: replay_access_log_def replay_all_def)

lemma sort_key_append_later:
  assumes "\<forall>x \<in> set xs. \<forall>y \<in> set ys. f x < f y"
  shows "sort_key f (xs @ ys) = sort_key f xs @ sort_key f ys"
proof (rule properties_for_sort_key)
  show "sorted (map f (sort_key f xs @ sort_key f ys))"
    using assms by (auto simp: sorted_append less_imp_le)
  fix k
  have "filter (\<lambda>y. f k = f y) (sort_key f zs) = filter (\<lambda>y. f k = f y) zs" for zs
    using sort_key_stable [of f "f k" zs] by (simp add: eq_commute)
  then show "filter (\<lambda>y. f k = f y) (sort_key f xs @ sort_key f ys) = filter (\<lambda>y. f k = f y) (xs @ ys)"
    by simp
qed simp

lemma replay_inv_removed:
  assumes "replay_inv ks pin t" and "r \<in> set (removed t)"
  shows "r \<in> set (removed t) \<and> rm_key_id r \<notin> set (approved t) \<and> rm_key_id r \<notin> set (admins t)"
proof -
  have "rm_key_id r \<in> set (removed_keys t)"
    using assms by (auto simp: replay_inv_def)
  then show ?thesis using assms by (auto simp: replay_inv_def)
qed

text \<open>C4: Later entries only add to history: when every new id sorts after every old one, a key removed before is never
  approved again, whatever the new entries say and whoever signed them, and the genesis and its authority,
  the removals and the problems already listed stay as they were.\<close>

theorem removal_is_final:
  assumes later: "\<forall>e \<in> set es. \<forall>e' \<in> set new. en_id e < en_id e'"
  shows "let old = replay_access_log cr ks pin es; st = replay_access_log cr ks pin (es @ new) in
     (\<forall>r \<in> set (st_removed old). r \<in> set (st_removed st) \<and> rm_key_id r \<notin> set (st_approved st)
        \<and> rm_key_id r \<notin> set (st_admins st))
   \<and> (\<exists>ps. st_problems st = st_problems old @ ps)
   \<and> (st_on old \<longrightarrow> st_genesis_id st = st_genesis_id old \<and> st_authority st = st_authority old)"
proof -
  let ?s = "replay_all cr ks pin es" and ?t = "replay_all cr ks pin (es @ new)"
  have t: "?t = run (replay_entry cr ks pin) ?s (sort_key en_id new)"
    using sort_key_append_later [of es new en_id] later by (simp add: replay_all_def)
  have b: "replay_below ?s ?t"
    unfolding t by (intro access.below_run replay_all_inv)
  have "r \<in> set (removed ?t) \<and> rm_key_id r \<notin> set (approved ?t) \<and> rm_key_id r \<notin> set (admins ?t)"
    if "r \<in> set (removed ?s)" for r
    using that b by (intro replay_inv_removed [OF replay_all_inv]) (auto simp: replay_below_def)
  with b show ?thesis
    by (simp add: replay_access_log_def replay_below_def Let_def)
qed

lemma fold_newer_id: "fold newer_id ids (Some j) = Some k \<Longrightarrow> j \<le> k \<and> (\<forall>i \<in> set ids. i \<le> k)"
proof (induction ids arbitrary: j)
  case (Cons i ids)
  obtain l where l: "newer_id i (Some j) = Some l" "i \<le> l" "j \<le> l"
    by (cases "j < i") auto
  with Cons.IH [of l] Cons.prems show ?case by auto
qed simp

lemma latest_id_upper: "latest_id ids = Some j \<Longrightarrow> \<forall>i \<in> set ids. i \<le> j"
  using fold_newer_id by (cases ids) (auto simp: latest_id_def)

text \<open>A new entry sorts after every entry its writer saw, even on a machine whose clock is behind, provided the newest
  id decodes. Of the ULID package only this is assumed: an id for a later millisecond than an id decodes to
  sorts after that id.\<close>

theorem next_entry_is_last:
  assumes ulid: "\<And>i t t'. decode_time i = Some t \<Longrightarrow> t < t' \<Longrightarrow> i < ulid t'"
    and newest: "latest_id existing = Some j" "decode_time j = Some t"
    and i: "i \<in> set existing"
  shows "i < next_access_entry_id ulid decode_time existing now"
proof -
  have "t < max now (t + 1)" by simp
  from ulid [OF newest(2) this] have "j < next_access_entry_id ulid decode_time existing now"
    using newest by (simp add: next_access_entry_id_def)
  moreover have "i \<le> j" using latest_id_upper [OF newest(1)] i by blast
  ultimately show ?thesis by simp
qed

section \<open>A corrupt key request stops the load\<close>

lemma key_id_of_bad: "raw_public_key enc = Inl er \<Longrightarrow> key_id_of cr enc sg = Inl er"
  by (simp add: key_id_of_def public_digest_def)

lemma key_error_only: "(e :: key_error) = Bad_key"
  by (cases e) simp

lemma verified_keys_from_bad:
  "f \<in> set fs \<Longrightarrow> raw_public_key (rq_encryption_key f) = Inl er \<Longrightarrow> verified_keys_from cr ks fs = Inl Bad_key"
proof (induction fs arbitrary: ks)
  case (Cons g fs)
  show ?case
  proof (cases "add_verified cr ks g")
    case (Inl e)
    then show ?thesis by (simp add: key_error_only [of e])
  next
    case (Inr ks')
    have "f \<noteq> g" using Inr Cons.prems(2) by (auto simp: add_verified_def key_id_of_bad)
    then show ?thesis using Cons Inr by simp
  qed
qed simp

text \<open>C38: One key request whose encryption key is not strict base64url of 32 bytes makes the reading of all of them throw,
  however many good ones there are: the request is not skipped as the others that do not verify are. The
  schema does not keep such a request out, as the witness shows: 43 characters of the alphabet, the last
  with bits left over.\<close>

theorem corrupt_request_stops_all:
  assumes "f \<in> set fs" and "raw_public_key (rq_encryption_key f) = Inl er"
  shows "verified_keys cr fs = Inl Bad_key"
  using assms by (simp add: verified_keys_def verified_keys_from_bad)

definition corrupt_key :: string where
  "corrupt_key = replicate 42 CHR ''A'' @ ''B''"

definition corrupt_request :: key_request where
  "corrupt_request = \<lparr>rq_key_id = replicate 26 CHR ''A'', rq_encryption_key = corrupt_key, rq_signing_key = zero_key,
     rq_name = ''n'', rq_email = [], rq_machine = ''m'', rq_requested_at = [], rq_signature = []\<rparr>"

lemma corrupt_key_refused: "raw_public_key corrupt_key = Inl Bad_key"
  by code_simp

theorem corrupt_request_stops_all_witness:
  "length (rq_encryption_key corrupt_request) = 43 \<and>
   list_all (\<lambda>c. c \<in> set BASE64URL) (rq_encryption_key corrupt_request) \<and>
   verified_keys toy_crypto [corrupt_request] = Inl Bad_key"
proof -
  have "length corrupt_key = 43 \<and> list_all (\<lambda>c. c \<in> set BASE64URL) corrupt_key"
    by code_simp
  moreover have "verified_keys toy_crypto [corrupt_request] = Inl Bad_key"
    by (rule corrupt_request_stops_all [of corrupt_request]) (simp_all add: corrupt_request_def corrupt_key_refused)
  ultimately show ?thesis by (simp add: corrupt_request_def)
qed

lemma add_verified_sound:
  assumes "add_verified cr ks f = Inr ks'" and "jsget ks' k = Some i" and "jsget ks k \<noteq> Some i"
  shows "k = ki_key_id i \<and> key_id_of cr (ki_encryption_key i) (ki_signing_key i) = Inr k
    \<and> (k = rq_key_id f \<and> verify_document cr (request_doc f) (ki_signing_key i))"
  using assms
  by (auto simp: add_verified_def bind_result_Inr_iff info_of_def jsget_jsset split: if_splits)

lemma verified_keys_from_sound:
  assumes "verified_keys_from cr ks fs = Inr ks'" and "jsget ks' k = Some i" and "jsget ks k \<noteq> Some i"
  shows "k = ki_key_id i \<and> key_id_of cr (ki_encryption_key i) (ki_signing_key i) = Inr k
    \<and> (\<exists>f \<in> set fs. k = rq_key_id f \<and> verify_document cr (request_doc f) (ki_signing_key i))"
  using assms
proof (induction fs arbitrary: ks)
  case (Cons f fs)
  then obtain ks1 where a: "add_verified cr ks f = Inr ks1" and b: "verified_keys_from cr ks1 fs = Inr ks'"
    by (auto simp: bind_result_Inr_iff)
  show ?case
  proof (cases "jsget ks1 k = Some i")
    case True
    then show ?thesis using add_verified_sound [OF a] Cons.prems by auto
  next
    case False
    then show ?thesis using Cons.IH [OF b] Cons.prems by auto
  qed
qed simp

text \<open>A key counts as requested only with proof: every key the log knows is filed under the id its two public keys
  hash to, and a request with that id carries a signature by that very signing key.\<close>

theorem verified_keys_prove_possession:
  assumes "verified_keys cr fs = Inr ks" and "jsget ks k = Some i"
  shows "key_id_of cr (ki_encryption_key i) (ki_signing_key i) = Inr k
    \<and> (\<exists>f \<in> set fs. k = rq_key_id f \<and> verify_document cr (request_doc f) (ki_signing_key i))"
  using verified_keys_from_sound [of cr "[]" fs ks k i] assms by (auto simp: verified_keys_def)

section \<open>Witnesses\<close>

text \<open>A crypto that accepts every signature, a workspace of one key, its genesis and a request for itself.\<close>

definition trusting_crypto :: crypto where
  "trusting_crypto = toy_crypto\<lparr>ed25519_verify := (\<lambda>k m s. True)\<rparr>"

definition zero_id :: string where
  "zero_id = take 26 (base32 (replicate 32 0))"

definition sample_request :: key_request where
  "sample_request = \<lparr>rq_key_id = zero_id, rq_encryption_key = zero_key, rq_signing_key = zero_key,
     rq_name = ''n'', rq_email = [], rq_machine = ''m'', rq_requested_at = [], rq_signature = []\<rparr>"

definition sample_keys :: keys where
  "sample_keys = [(zero_id, info_of sample_request ''0000 0000 0000 0000'')]"

definition sample_entry :: "string \<Rightarrow> access_action \<Rightarrow> access_entry" where
  "sample_entry i a = \<lparr>en_id = i, en_action = a, en_authority = (if a = Genesis then Some Signed else None),
     en_key = zero_id, en_by = zero_id, en_at = [], en_signature = []\<rparr>"

lemma from_base64url_Nil [simp]: "from_base64url [] = Inr []"
  using base64url_inverse [of "[]"] by simp

lemma canonical_json_strings:
  assumes "\<forall>f \<in> set fs. (\<exists>s. snd f = JStr s) \<or> (\<exists>n. snd f = JNum n)"
  shows "\<exists>t. canonical_json (JObj fs) = Inr t"
proof -
  have ok: "\<forall>r \<in> set rs. \<exists>x. r = Inr x \<Longrightarrow> \<exists>xs. all_ok rs = Inr xs" for rs :: "(sign_error, string) result list"
    by (induction rs) auto
  have "\<exists>x. canonical_field (fst f, canonical_json (snd f)) = Inr x" if "f \<in> set fs" for f
    using assms that by (fastforce simp: canonical_field_def)
  then have "\<exists>xs. all_ok (map canonical_field (sort_key fst (canonical_fields fs))) = Inr xs"
    by (intro ok) (auto simp: canonical_fields_map)
  then show ?thesis by auto
qed

lemma sample_entry_verifies: "verify_document trusting_crypto (entry_doc (sample_entry i a)) zero_key"
proof -
  have "\<exists>t. canonical_json (JObj (without_signature (entry_doc (sample_entry i a)))) = Inr t"
    by (rule canonical_json_strings) (cases a; auto simp: without_signature_def entry_doc_def sample_entry_def)
  moreover have "map_of (entry_doc (sample_entry i a)) ''signature'' = Some (JStr [])"
    by (cases a) (simp_all add: entry_doc_def sample_entry_def)
  ultimately show ?thesis
    by (auto simp: verify_document_def signed_bytes_def raw_zero_key trusting_crypto_def)
qed

lemma sample_genesis_counts:
  "replay_entry trusting_crypto sample_keys None replay_start (sample_entry i Genesis) =
   replay_start\<lparr>authority := Some Signed, genesis_id := Some i, approved := [zero_id], admins := [zero_id]\<rparr>"
  using sample_entry_verifies [of i Genesis]
  by (simp add: replay_entry_def sample_keys_def sample_entry_def info_of_def sample_request_def do_genesis_def
      replay_start_def jsadd_def)

theorem access_changes_are_authorised_witness:
  "authorised trusting_crypto sample_keys None replay_start (sample_entry ''1'' Genesis)"
  by (rule access_changes_are_authorised)
     (simp add: sample_genesis_counts who_can_def, simp add: replay_start_def)

theorem access_state_sound_witness:
  "st_admins (replay_access_log trusting_crypto sample_keys None [sample_entry ''1'' Genesis]) \<noteq> []"
  using access_state_sound [of trusting_crypto sample_keys None "[sample_entry ''1'' Genesis]"]
  by (simp add: Let_def replay_access_log_def replay_all_def sample_genesis_counts)

theorem replay_order_free_witness:
  "replay_access_log trusting_crypto sample_keys None [sample_entry ''2'' Remove, sample_entry ''1'' Genesis] =
   replay_access_log trusting_crypto sample_keys None [sample_entry ''1'' Genesis, sample_entry ''2'' Remove]"
  by (rule replay_order_free) (simp_all add: sample_entry_def add_mset_commute)

theorem removal_is_final_witness:
  "let st = replay_access_log trusting_crypto sample_keys None ([sample_entry ''1'' Genesis] @ [sample_entry ''2'' Remove])
   in st_genesis_id st = Some ''1''"
proof -
  have "\<forall>e \<in> set [sample_entry ''1'' Genesis]. \<forall>e' \<in> set [sample_entry ''2'' Remove]. en_id e < en_id e'"
    by (simp add: sample_entry_def)
  from removal_is_final [OF this, of trusting_crypto sample_keys None] show ?thesis
    by (simp add: Let_def replay_access_log_def replay_all_def sample_genesis_counts)
qed

lemma replicate_less: "m < n \<Longrightarrow> replicate m CHR ''a'' < replicate n CHR ''a''"
proof (induction m arbitrary: n)
  case 0
  then show ?case by (cases n) auto
next
  case (Suc m)
  then show ?case by (cases n) auto
qed

theorem next_entry_is_last_witness:
  "''aaa'' < next_access_entry_id (\<lambda>t. replicate t CHR ''a'')
     (\<lambda>i. if i = replicate (length i) CHR ''a'' then Some (length i) else None) [''a'', ''aaa''] 1"
proof (rule next_entry_is_last [where j = "''aaa''" and t = 3])
  show "i < replicate t' CHR ''a''"
    if "(if i = replicate (length i) CHR ''a'' then Some (length i) else None) = Some t" "t < t'" for i t t'
    using that replicate_less [of "length i" t'] by (auto split: if_splits)
qed (simp_all add: latest_id_def numeral_3_eq_3)

theorem verified_keys_prove_possession_witness:
  "key_id_of trusting_crypto zero_key zero_key = Inr zero_id"
proof -
  have k: "key_id_of trusting_crypto zero_key zero_key = Inr zero_id"
    by (simp add: key_id_of_def public_digest_def raw_zero_key trusting_crypto_def toy_crypto_def zero_id_def)
  have "\<exists>t. canonical_json (JObj (without_signature (request_doc sample_request))) = Inr t"
    by (rule canonical_json_strings) (auto simp: without_signature_def request_doc_def sample_request_def)
  then have v: "verify_document trusting_crypto (request_doc sample_request) zero_key"
    by (auto simp: verify_document_def signed_bytes_def raw_zero_key trusting_crypto_def)
       (simp add: request_doc_def sample_request_def)
  have f: "\<exists>fp. fingerprint_of trusting_crypto zero_key zero_key = Inr fp"
    by (simp add: fingerprint_of_def public_digest_def raw_zero_key)
  then obtain fp where fp: "fingerprint_of trusting_crypto zero_key zero_key = Inr fp" ..
  have "verified_keys trusting_crypto [sample_request] = Inr [(zero_id, info_of sample_request fp)]"
    using k v fp by (simp add: verified_keys_def add_verified_def sample_request_def)
  from verified_keys_prove_possession [OF this, of zero_id "info_of sample_request fp"] show ?thesis
    by (simp add: info_of_def sample_request_def)
qed

end
