(* ===== verification/Merge.thy ===== *)
theory Merge
  imports Text
begin

text \<open>
  \<^verbatim>\<open>packages/core/src/sync/three-way-merge.ts\<close>: the per-file three-way merge of the desktop's unsaved-changes
  recovery and of the sync backends. Files are a map from tree paths to contents.
\<close>

type_synonym project_files = "(string, string) jsmap"

datatype modify_delete = Drop | Conflict

record file_merge =
  mg_files :: project_files
  mg_conflicts :: "string list"
  mg_dropped :: "string list"
  mg_changed :: bool

definition MANIFEST_PATH :: string where
  "MANIFEST_PATH = ''wirebench.yaml''"

definition comparable :: "string \<Rightarrow> string option \<Rightarrow> string option" where
  "comparable path content =
     (case content of
        None \<Rightarrow> None
      | Some c \<Rightarrow> if path \<noteq> MANIFEST_PATH then Some c
          else Some (join [CHR 0x0A] (filter (\<lambda>line. \<not> starts_with line ''writtenBy:'') (split_on (CHR 0x0A) c))))"

definition same :: "string \<Rightarrow> string option \<Rightarrow> string option \<Rightarrow> bool" where
  "same path a b \<longleftrightarrow> comparable path a = comparable path b"

record merging =
  ms_files :: project_files
  ms_conflicts :: "string list"
  ms_dropped :: "string list"

definition put :: "merging \<Rightarrow> string \<Rightarrow> string option \<Rightarrow> merging" where
  "put m path kept_version = (case kept_version of None \<Rightarrow> m | Some c \<Rightarrow> m\<lparr>ms_files := jsset (ms_files m) path c\<rparr>)"

definition flag :: "merging \<Rightarrow> string \<Rightarrow> merging" where
  "flag m path = m\<lparr>ms_conflicts := ms_conflicts m @ [path]\<rparr>"

definition drop_change :: "merging \<Rightarrow> string \<Rightarrow> merging" where
  "drop_change m path = m\<lparr>ms_dropped := ms_dropped m @ [path]\<rparr>"

text \<open>The body of the loop over the paths.\<close>

definition merge_path ::
    "modify_delete \<Rightarrow> project_files \<Rightarrow> project_files \<Rightarrow> project_files \<Rightarrow> merging \<Rightarrow> string \<Rightarrow> merging" where
  "merge_path mode baseline disk unsaved m path =
     (let b = jsget baseline path; d = jsget disk path; u = jsget unsaved path in
      if same path u b then put m path d
      else if same path d b then put m path u
      else if same path d u then put m path u
      else if d = None then (if mode = Conflict then put (flag m path) path u else put (drop_change m path) path None)
      else if u = None then put (flag m path) path d
      else put (flag m path) path u)"

definition merge_paths :: "project_files \<Rightarrow> project_files \<Rightarrow> project_files \<Rightarrow> string list" where
  "merge_paths baseline disk unsaved = sort (jsuniq (jskeys baseline @ jskeys disk @ jskeys unsaved))"

definition merge_files :: "project_files \<Rightarrow> project_files \<Rightarrow> project_files \<Rightarrow> modify_delete \<Rightarrow> file_merge" where
  "merge_files baseline disk unsaved mode =
     (let m = foldl (merge_path mode baseline disk unsaved) \<lparr>ms_files = [], ms_conflicts = [], ms_dropped = []\<rparr>
                (merge_paths baseline disk unsaved);
          files = ms_files m in
      \<lparr>mg_files = files, mg_conflicts = ms_conflicts m, mg_dropped = ms_dropped m,
       mg_changed = list_ex (\<lambda>path. \<not> same path (jsget files path) (jsget disk path))
         (jsuniq (jskeys files @ jskeys disk))\<rparr>)"

section \<open>The merge of one file, as a specification\<close>

text \<open>
  What the loop decides for one path from the three versions of its file: the version kept, whether it is a
  conflict, and whether a change was dropped.
\<close>

definition kept :: "modify_delete \<Rightarrow> string \<Rightarrow> string option \<Rightarrow> string option \<Rightarrow> string option \<Rightarrow> string option" where
  "kept mode path b d u =
     (if same path u b then d else if same path d b \<or> same path d u then u
      else if d = None then (if mode = Conflict then u else None) else if u = None then d else u)"

definition clash :: "string \<Rightarrow> string option \<Rightarrow> string option \<Rightarrow> string option \<Rightarrow> bool" where
  "clash path b d u \<longleftrightarrow> \<not> same path u b \<and> \<not> same path d b \<and> \<not> same path d u"

lemma same_refl [simp]: "same p a a"
  by (simp add: same_def)

lemma same_sym: "same p a b \<longleftrightarrow> same p b a"
  by (auto simp: same_def)

lemma same_trans: "same p a b \<Longrightarrow> same p b c \<Longrightarrow> same p a c"
  by (simp add: same_def)

lemma same_None [simp]: "same p None a \<longleftrightarrow> a = None" "same p a None \<longleftrightarrow> a = None"
  by (auto simp: same_def comparable_def split: option.splits if_splits)

definition ms_inv where
  "ms_inv mode baseline disk unsaved m done \<longleftrightarrow>
     jsmap_ok (ms_files m) \<and>
     (\<forall>p. jsget (ms_files m) p =
        (if p \<in> set done then kept mode p (jsget baseline p) (jsget disk p) (jsget unsaved p) else None)) \<and>
     ms_conflicts m = filter (\<lambda>p. clash p (jsget baseline p) (jsget disk p) (jsget unsaved p)
        \<and> (mode = Conflict \<or> jsget disk p \<noteq> None)) done \<and>
     ms_dropped m = filter (\<lambda>p. clash p (jsget baseline p) (jsget disk p) (jsget unsaved p)
        \<and> mode = Drop \<and> jsget disk p = None) done"

lemma modify_delete_cases: "mode \<noteq> Conflict \<longleftrightarrow> mode = Drop"
  by (cases mode) auto

lemma merge_path_step:
  assumes "ms_inv mode b d u m done" and "p \<notin> set done"
  shows "ms_inv mode b d u (merge_path mode b d u m p) (done @ [p])"
proof -
  have none: "jsget (ms_files m) p = None" using assms by (auto simp: ms_inv_def)
  have 1: "jsmap_ok (ms_files m) \<Longrightarrow> jsmap_ok (ms_files (merge_path mode b d u m p))"
    by (auto simp: merge_path_def Let_def put_def flag_def drop_change_def jsmap_ok_jsset split: option.splits)
  have 2: "jsget (ms_files (merge_path mode b d u m p)) =
      (jsget (ms_files m))(p := kept mode p (jsget b p) (jsget d p) (jsget u p))"
    using none
    by (auto simp: merge_path_def Let_def put_def flag_def drop_change_def kept_def jsget_jsset fun_upd_idem_iff
        split: option.splits)
  have 3: "ms_conflicts (merge_path mode b d u m p) = ms_conflicts m @
      (if clash p (jsget b p) (jsget d p) (jsget u p) \<and> (mode = Conflict \<or> jsget d p \<noteq> None) then [p] else [])"
    by (auto simp: merge_path_def Let_def put_def flag_def drop_change_def clash_def split: option.splits)
  have 4: "ms_dropped (merge_path mode b d u m p) = ms_dropped m @
      (if clash p (jsget b p) (jsget d p) (jsget u p) \<and> mode = Drop \<and> jsget d p = None then [p] else [])"
    by (auto simp: merge_path_def Let_def put_def flag_def drop_change_def clash_def modify_delete_cases
        split: option.splits)
  show ?thesis
    using assms 1 unfolding ms_inv_def 2 3 4 by auto
qed

lemma merge_path_fold:
  "ms_inv mode b d u m done \<Longrightarrow> distinct (done @ ps) \<Longrightarrow>
   ms_inv mode b d u (foldl (merge_path mode b d u) m ps) (done @ ps)"
proof (induction ps arbitrary: m "done")
  case (Cons p ps)
  then show ?case
    using Cons.IH [OF merge_path_step [OF Cons.prems(1), of p]] by simp
qed simp

lemma merge_paths_set: "set (merge_paths b d u) = {p. jshas b p \<or> jshas d p \<or> jshas u p}"
  by (auto simp: merge_paths_def jshas_iff simp del: not_None_eq not_Some_eq)

lemma kept_outside: "\<not> (jshas b p \<or> jshas d p \<or> jshas u p) \<Longrightarrow> kept mode p (jsget b p) (jsget d p) (jsget u p) = None"
  by (simp add: kept_def)

lemma clash_inside: "clash p (jsget b p) (jsget d p) (jsget u p) \<Longrightarrow> jshas b p \<or> jshas d p \<or> jshas u p"
  by (auto simp: clash_def)

lemma merge_files_inv:
  "ms_inv mode b d u (foldl (merge_path mode b d u) \<lparr>ms_files = [], ms_conflicts = [], ms_dropped = []\<rparr> (merge_paths b d u))
     (merge_paths b d u)"
  using merge_path_fold [of mode b d u "\<lparr>ms_files = [], ms_conflicts = [], ms_dropped = []\<rparr>" "[]" "merge_paths b d u"]
  by (simp add: ms_inv_def merge_paths_def)

lemma mg_files_at:
  "jsget (mg_files (merge_files b d u mode)) p = kept mode p (jsget b p) (jsget d p) (jsget u p)"
  using merge_files_inv [of mode b d u] kept_outside [of b p d u mode]
  by (auto simp: merge_files_def Let_def ms_inv_def merge_paths_set)

lemma mg_conflicts_iff:
  "p \<in> set (mg_conflicts (merge_files b d u mode)) \<longleftrightarrow>
     clash p (jsget b p) (jsget d p) (jsget u p) \<and> (mode = Conflict \<or> jsget d p \<noteq> None)"
  using merge_files_inv [of mode b d u] clash_inside [of p b d u]
  by (auto simp: merge_files_def Let_def ms_inv_def merge_paths_set)

lemma mg_dropped_iff:
  "p \<in> set (mg_dropped (merge_files b d u mode)) \<longleftrightarrow>
     clash p (jsget b p) (jsget d p) (jsget u p) \<and> mode = Drop \<and> jsget d p = None"
  using merge_files_inv [of mode b d u] clash_inside [of p b d u]
  by (auto simp: merge_files_def Let_def ms_inv_def merge_paths_set)

lemma mg_conflicts_list:
  "mg_conflicts (merge_files b d u Conflict) =
     filter (\<lambda>p. clash p (jsget b p) (jsget d p) (jsget u p)) (merge_paths b d u)"
  using merge_files_inv [of Conflict b d u] by (simp add: merge_files_def Let_def ms_inv_def)

text \<open>C11: No change is lost silently. In the sync's mode every path changed on one side either keeps that side's version in
  the merged tree or is listed as a conflict, whatever the other side did, and nothing is ever dropped; in
  the recovery's mode the only other possibility is that the path is listed as dropped.\<close>

theorem merge_loses_nothing:
  "let m = merge_files baseline disk unsaved mode in
     (\<not> same p (jsget unsaved p) (jsget baseline p) \<longrightarrow>
        same p (jsget (mg_files m) p) (jsget unsaved p) \<or> p \<in> set (mg_conflicts m) \<or> p \<in> set (mg_dropped m)) \<and>
     (\<not> same p (jsget disk p) (jsget baseline p) \<longrightarrow>
        same p (jsget (mg_files m) p) (jsget disk p) \<or> p \<in> set (mg_conflicts m)) \<and>
     (mode = Conflict \<longrightarrow> mg_dropped m = [])"
proof -
  have "mode = Conflict \<Longrightarrow> mg_dropped (merge_files baseline disk unsaved mode) = []"
    using merge_files_inv [of Conflict baseline disk unsaved] by (simp add: merge_files_def Let_def ms_inv_def)
  then show ?thesis
    by (auto simp: Let_def mg_files_at mg_conflicts_iff mg_dropped_iff kept_def clash_def same_sym modify_delete_cases
        split: if_splits)
qed

text \<open>A run for the implications above: both sides changed one file, one side deleted another.\<close>

theorem merge_loses_nothing_witness:
  "''a'' \<in> set (mg_conflicts (merge_files [(''a'', ''0''), (''b'', ''0'')] [(''a'', ''1'')] [(''a'', ''2''), (''b'', ''0'')] Conflict))"
  using merge_loses_nothing [of "[(''a'', ''0''), (''b'', ''0'')]" "[(''a'', ''1'')]" "[(''a'', ''2''), (''b'', ''0'')]" Conflict "''a''"]
  by (simp add: Let_def mg_files_at kept_def same_def comparable_def MANIFEST_PATH_def)

lemma kept_agree: "\<not> clash p b d u \<Longrightarrow> same p (kept Conflict p b d u) (kept Conflict p b u d)"
  by (cases "comparable p u = comparable p b"; cases "comparable p d = comparable p b")
     (simp_all add: kept_def clash_def same_def)

text \<open>C13: The two machines agree. When each lays its own files over the other's from the same baseline, they list the same
  conflicts in the same order, and outside the conflicts they end with the same content of every file
  (the manifest's \<^verbatim>\<open>writtenBy\<close> line aside).\<close>

theorem merge_sides_agree:
  "mg_conflicts (merge_files baseline mine theirs Conflict) = mg_conflicts (merge_files baseline theirs mine Conflict) \<and>
   (p \<notin> set (mg_conflicts (merge_files baseline mine theirs Conflict)) \<longrightarrow>
      same p (jsget (mg_files (merge_files baseline mine theirs Conflict)) p)
             (jsget (mg_files (merge_files baseline theirs mine Conflict)) p))"
proof -
  have c: "clash p b d u \<longleftrightarrow> clash p b u d" for p b d u
    using same_sym by (auto simp: clash_def)
  have "merge_paths baseline mine theirs = merge_paths baseline theirs mine"
    by (rule sorted_distinct_set_unique)
       (simp_all add: merge_paths_def, auto)
  then have "mg_conflicts (merge_files baseline mine theirs Conflict) = mg_conflicts (merge_files baseline theirs mine Conflict)"
    using c by (simp add: mg_conflicts_list)
  moreover have "same p (jsget (mg_files (merge_files baseline mine theirs Conflict)) p)
      (jsget (mg_files (merge_files baseline theirs mine Conflict)) p)"
    if "p \<notin> set (mg_conflicts (merge_files baseline mine theirs Conflict))"
    using that kept_agree by (simp add: mg_conflicts_iff mg_files_at)
  ultimately show ?thesis by blast
qed

theorem merge_sides_agree_witness:
  "same ''b'' (jsget (mg_files (merge_files [(''b'', ''0'')] [(''b'', ''1'')] [(''b'', ''0'')] Conflict)) ''b'')
              (jsget (mg_files (merge_files [(''b'', ''0'')] [(''b'', ''0'')] [(''b'', ''1'')] Conflict)) ''b'')"
  using merge_sides_agree [of "[(''b'', ''0'')]" "[(''b'', ''1'')]" "[(''b'', ''0'')]" "''b''"]
  by (simp add: mg_conflicts_iff clash_def same_def comparable_def MANIFEST_PATH_def)

lemma differs_at_key:
  "(\<exists>p \<in> fst ` set a \<union> fst ` set b. \<not> same p (jsget a p) (jsget b p)) \<longleftrightarrow> (\<exists>p. \<not> same p (jsget a p) (jsget b p))"
proof -
  have "p \<in> fst ` set a \<union> fst ` set b" if "\<not> same p (jsget a p) (jsget b p)" for p
  proof (rule ccontr)
    assume "p \<notin> fst ` set a \<union> fst ` set b"
    then have "jsget a p = None" "jsget b p = None" by (simp_all add: map_of_eq_None_iff)
    then show False using that by simp
  qed
  then show ?thesis by blast
qed

text \<open>\<^verbatim>\<open>changed\<close> says exactly whether some file of the merged tree differs from the one on disk, present or absent
  included; the paths only one of the trees has are not overlooked.\<close>

theorem merge_changed_iff:
  "mg_changed (merge_files baseline disk unsaved mode) \<longleftrightarrow>
     (\<exists>p. \<not> same p (jsget (mg_files (merge_files baseline disk unsaved mode)) p) (jsget disk p))"
  by (simp add: merge_files_def Let_def list_ex_iff differs_at_key)

end
