(* ===== verification/Tree_Paths.thy ===== *)
theory Tree_Paths
  imports Text
begin

text \<open>
  \<^verbatim>\<open>packages/core/src/sync/tree-paths.ts\<close>: which paths a shared workspace tree may hold, the check both ends of the
  sync make before they touch git or the disk, with \<^verbatim>\<open>isTeamSecretsPath\<close> of \<^verbatim>\<open>team-secrets/schema.ts\<close>. The
  regular expressions are written out; none of them backtracks into a different answer.
\<close>

definition lower_char :: "char \<Rightarrow> char" where
  "lower_char c = (let n = of_char c :: nat in if 65 \<le> n \<and> n \<le> 90 then char_of (n + 32) else c)"

definition lower :: "string \<Rightarrow> string" where
  "lower s = map lower_char s"

definition is_digit :: "char \<Rightarrow> bool" where
  "is_digit c = (let n = of_char c :: nat in 48 \<le> n \<and> n \<le> 57)"

definition is_upper :: "char \<Rightarrow> bool" where
  "is_upper c = (let n = of_char c :: nat in 65 \<le> n \<and> n \<le> 90)"

definition is_letter :: "char \<Rightarrow> bool" where
  "is_letter c = (let n = of_char c :: nat in 65 \<le> n \<and> n \<le> 90 \<or> 97 \<le> n \<and> n \<le> 122)"

definition TREE_ITEMS :: "string list" where
  "TREE_ITEMS = [''workspace.yaml'', ''environments'', ''projects'', ''.gitattributes'', ''team-secrets'']"

definition FILE_ITEMS :: "string list" where
  "FILE_ITEMS = [''workspace.yaml'', ''.gitattributes'']"

definition MAX_TREE_PATH_LENGTH :: nat where
  "MAX_TREE_PATH_LENGTH = 512"

definition MACHINE_LOCAL_PATHS :: "string list" where
  "MACHINE_LOCAL_PATHS = [''share.yaml'', ''local.yaml'', ''unsaved'']"

definition TEAM_SECRETS_DIR :: string where
  "TEAM_SECRETS_DIR = ''team-secrets''"

definition is_control :: "char \<Rightarrow> bool" where
  "is_control c = (let n = of_char c :: nat in n < 32 \<or> n = 127)"

definition is_absolute :: "string \<Rightarrow> bool" where
  "is_absolute p = (case p of
     [] \<Rightarrow> False
   | c # rest \<Rightarrow> c = CHR ''/'' \<or> (is_letter c \<and> (case rest of [] \<Rightarrow> False | d # _ \<Rightarrow> d = CHR '':'')))"

text \<open>The end of \<^verbatim>\<open>GIT_SEGMENT\<close>: \<^verbatim>\<open>[. ]*(?::.*)?$\<close>, where the dot matches no line end.\<close>

definition is_line_end :: "char \<Rightarrow> bool" where
  "is_line_end c \<longleftrightarrow> c = CHR 0x0A \<or> c = CHR 0x0D"

definition git_tail :: "string \<Rightarrow> bool" where
  "git_tail s = (case dropWhile (\<lambda>c. c = CHR ''.'' \<or> c = CHR '' '') s of
     [] \<Rightarrow> True
   | c # rest \<Rightarrow> c = CHR '':'' \<and> \<not> list_ex is_line_end rest)"

definition git_segment :: "string \<Rightarrow> bool" where
  "git_segment s \<longleftrightarrow>
     starts_with (lower s) ''.git'' \<and> git_tail (drop 4 s) \<or>
     starts_with (lower s) ''git~'' \<and> drop 4 s \<noteq> [] \<and> is_digit (hd (drop 4 s)) \<and>
       git_tail (dropWhile is_digit (drop 4 s))"

definition device_names :: "string list" where
  "device_names = [''con'', ''prn'', ''aux'', ''nul''] @
     map (\<lambda>n. ''com'' @ [n]) ''123456789'' @ map (\<lambda>n. ''lpt'' @ [n]) ''123456789''"

definition device_tail :: "string \<Rightarrow> bool" where
  "device_tail s = (case dropWhile (\<lambda>c. c = CHR '' '') s of [] \<Rightarrow> True | c # _ \<Rightarrow> c = CHR ''.'')"

definition windows_refused :: string where
  "windows_refused = [CHR ''<'', CHR ''>'', CHR '':'', CHR 0x22, CHR ''|'', CHR ''?'', CHR ''*'']"

definition windows_unsafe :: "string \<Rightarrow> bool" where
  "windows_unsafe s \<longleftrightarrow>
     list_ex (\<lambda>d. starts_with (lower s) d \<and> device_tail (drop (length d) s)) device_names \<or>
     s \<noteq> [] \<and> (last s = CHR ''.'' \<or> last s = CHR '' '') \<or>
     list_ex (\<lambda>c. c \<in> set windows_refused) s"

text \<open>\<^verbatim>\<open>TEAM_SECRETS_FILE\<close>: \<^verbatim>\<open>team-secrets/(keys|access|values)/([0-9A-Z]{26})\.yaml\<close>.\<close>

definition team_secrets_name :: "string \<Rightarrow> bool" where
  "team_secrets_name n \<longleftrightarrow> length n = 31 \<and> drop 26 n = ''.yaml'' \<and> list_all (\<lambda>c. is_digit c \<or> is_upper c) (take 26 n)"

definition is_team_secrets_path :: "string \<Rightarrow> bool" where
  "is_team_secrets_path path = (case split_on (CHR ''/'') path of
     [d, kind, name] \<Rightarrow> d = TEAM_SECRETS_DIR \<and> kind \<in> set [''keys'', ''access'', ''values''] \<and> team_secrets_name name
   | _ \<Rightarrow> False)"

datatype refusal =
    Empty | Too_long | Control_character | Backslash | Absolute | Empty_segment | Dot_segment
  | Git_segment | Windows_unsafe | Machine_local | Not_in_tree | Not_a_file

definition refusal_of :: "string \<Rightarrow> refusal option" where
  "refusal_of path =
     (if length path = 0 then Some Empty
      else if length path > MAX_TREE_PATH_LENGTH then Some Too_long
      else if list_ex is_control path then Some Control_character
      else if CHR 0x5C \<in> set path then Some Backslash
      else if is_absolute path then Some Absolute
      else let segments = split_on (CHR ''/'') path in
        if list_ex (\<lambda>s. length s = 0) segments then Some Empty_segment
        else if list_ex (\<lambda>s. s = ''.'' \<or> s = ''..'') segments then Some Dot_segment
        else if list_ex git_segment segments then Some Git_segment
        else if list_ex windows_unsafe segments then Some Windows_unsafe
        else let first = hd segments in
          if first \<in> set MACHINE_LOCAL_PATHS then Some Machine_local
          else if first \<notin> set TREE_ITEMS then Some Not_in_tree
          else if (first \<in> set FILE_ITEMS) \<noteq> (length segments = 1) then Some Not_a_file
          else if first = TEAM_SECRETS_DIR \<and> \<not> is_team_secrets_path path then Some Not_a_file
          else None)"

text \<open>The error carries the path cut to its longest length and the rule that refused it.\<close>

datatype tree_error = Sync_path_refused string refusal

definition assert_tree_path :: "string \<Rightarrow> (tree_error, string) result" where
  "assert_tree_path path = (case refusal_of path of
     Some r \<Rightarrow> Inl (Sync_path_refused (take MAX_TREE_PATH_LENGTH path) r)
   | None \<Rightarrow> Inr path)"

definition is_tree_path :: "string \<Rightarrow> bool" where
  "is_tree_path path \<longleftrightarrow> refusal_of path = None"

definition is_safe_tree_segment :: "string \<Rightarrow> bool" where
  "is_safe_tree_segment s \<longleftrightarrow> 0 < length s \<and> s \<noteq> ''.'' \<and> s \<noteq> ''..'' \<and> \<not> list_ex is_control s \<and>
     \<not> git_segment s \<and> \<not> windows_unsafe s"

section \<open>Where an accepted path leads\<close>

text \<open>
  How a file system walks a path below a folder: empty and dot segments stay, a double dot goes up, out of the
  folder (\<open>None\<close>) when there is nothing left to leave.
\<close>

fun walk :: "string list \<Rightarrow> string list \<Rightarrow> string list option" where
  "walk at [] = Some (rev at)"
| "walk at (s # ss) =
     (if s = [] \<or> s = ''.'' then walk at ss
      else if s = ''..'' then (case at of [] \<Rightarrow> None | _ # up \<Rightarrow> walk up ss)
      else walk (s # at) ss)"

lemma walk_plain: "\<forall>s \<in> set ss. s \<noteq> [] \<and> s \<noteq> ''.'' \<and> s \<noteq> ''..'' \<Longrightarrow> walk at ss = Some (rev at @ ss)"
  by (induction ss arbitrary: at) auto

lemma is_tree_pathD:
  assumes "is_tree_path p"
  shows "p \<noteq> []" "length p \<le> MAX_TREE_PATH_LENGTH" "\<not> list_ex is_control p" "\<not> is_absolute p" "CHR 0x5C \<notin> set p"
    "\<forall>s \<in> set (split_on (CHR ''/'') p). s \<noteq> [] \<and> s \<noteq> ''.'' \<and> s \<noteq> ''..'' \<and> \<not> git_segment s \<and> \<not> windows_unsafe s"
    "hd (split_on (CHR ''/'') p) \<in> set TREE_ITEMS"
    "hd (split_on (CHR ''/'') p) = TEAM_SECRETS_DIR \<longrightarrow> is_team_secrets_path p"
  using assms
  by (auto simp: is_tree_path_def refusal_of_def Let_def list_ex_iff split: if_splits)



text \<open>A file of the case-insensitive name \<^verbatim>\<open>.git\<close>, and its spellings with ignored dots and spaces or a stream suffix.\<close>

lemma git_segment_spellings:
  assumes "lower (take 4 s) = ''.git''" and "git_tail (drop 4 s)"
  shows "git_segment s"
  using assms by (simp add: git_segment_def starts_with_def lower_def take_map numeral_eq_Suc)

text \<open>No path that is accepted has git's own folder among its segments, in any mix of cases, with any number of trailing
  dots and spaces, or with an NTFS stream suffix after them.\<close>

theorem tree_path_never_git:
  assumes "is_tree_path p"
    and "lower g = ''.git''" and "set pad \<subseteq> {CHR ''.'', CHR '' ''}"
    and "stream = [] \<or> (\<exists>x. stream = CHR '':'' # x \<and> \<not> list_ex is_line_end x)"
  shows "g @ pad @ stream \<notin> set (split_on (CHR ''/'') p)"
proof
  assume m: "g @ pad @ stream \<in> set (split_on (CHR ''/'') p)"
  have "length (lower g) = 4" using assms(2) by simp
  then have l: "length g = 4" by (simp add: lower_def)
  have "dropWhile (\<lambda>c. c = CHR ''.'' \<or> c = CHR '' '') (pad @ stream) = stream"
    using assms(3,4) by (subst dropWhile_append2) auto
  then have "git_tail (pad @ stream)"
    using assms(4) by (auto simp: git_tail_def)
  then have "git_segment (g @ pad @ stream)"
    using assms(2) l by (intro git_segment_spellings) simp_all
  then show False using is_tree_pathD(6) [OF assms(1)] m by blast
qed

theorem tree_path_never_git_witness:
  "''.GiT'' @ ''. '' @ '':x'' \<notin> set (split_on (CHR ''/'') ''projects/a/wirebench.yaml'')"
proof (rule tree_path_never_git)
  show "is_tree_path ''projects/a/wirebench.yaml''" by code_simp
  show "lower ''.GiT'' = ''.git''" by code_simp
  show "'':x'' = [] \<or> (\<exists>x. '':x'' = CHR '':'' # x \<and> \<not> list_ex is_line_end x)" by (simp add: is_line_end_def)
qed simp

text \<open>The walk of a local tree prunes no folder that holds a file the sync accepts.\<close>

lemma tree_path_segments_safe:
  assumes "is_tree_path p" and "s \<in> set (split_on (CHR ''/'') p)"
  shows "is_safe_tree_segment s"
proof -
  have sub: "set s \<subseteq> set p" if "s \<in> set (split_on c p)" for c s and p :: string
    using that by (induction p arbitrary: s) (auto split: if_splits list.splits, fastforce+)
  have "\<not> list_ex is_control s"
    using is_tree_pathD(3) [OF assms(1)] sub [OF assms(2)] by (auto simp: list_ex_iff)
  then show ?thesis
    using is_tree_pathD(6) [OF assms(1)] assms(2) by (auto simp: is_safe_tree_segment_def)
qed

end
