(* ===== verification/Sequence.thy ===== *)
theory Sequence
  imports Text Machine
begin

text \<open>
  \<^verbatim>\<open>packages/core/src/sequence/\<close>: running a sequence of saved requests (\<^verbatim>\<open>run.ts\<close>), the branches that choose
  where the run goes (\<^verbatim>\<open>branch.ts\<close>) and the values lifted from responses (\<^verbatim>\<open>transfer.ts\<close>). Sending, looking
  a request up, evaluating one check and evaluating a body expression are the host's and other components':
  they are the fields of the record \<open>host\<close>. The abort signal is read at fixed places; \<open>aborted n\<close> is what
  the \<open>n\<close>-th reading sees.
\<close>

section \<open>Sequences\<close>

datatype outcome = Passed | Failed | Errored | Skipped

datatype source =
    From_body string string
  | From_header string
  | From_status
  | From_cookie string

record transfer =
  tr_name :: string
  tr_secret :: bool
  tr_optional :: bool
  tr_from :: source

datatype 'c condition = Outcome_is "outcome list" | Check 'c

datatype branch_then =
    Goto string nat "nat option"
  | Repeat nat "nat option"
  | Skip_next

record 'c branch_rule =
  rl_when :: "'c condition"
  rl_not :: bool
  rl_then :: branch_then

record 'c seq_step =
  sp_id :: string
  sp_name :: "string option"
  sp_request_id :: string
  sp_enabled :: bool
  sp_request_assertions :: bool
  sp_transfers :: "transfer list"
  sp_assertions :: "'c list"
  sp_branches :: "'c branch_rule list"

record 'c sequence =
  sq_id :: string
  sq_name :: string
  sq_stop_on_failure :: bool
  sq_steps :: "'c seq_step list"

definition STEP_RUNS :: nat where
  "STEP_RUNS = 1000"

definition VALUE_BYTES :: nat where
  "VALUE_BYTES = 65536"

section \<open>The host\<close>

datatype 'c target = Missing_request | Unsupported string | Found string "'c list"

datatype extracted = Value string | Missing | Extract_error string string

record 'u sent =
  se_subject :: 'u
  se_callbacks :: "outcome list"
  se_checks :: "outcome list"
  se_script_tests :: "bool list"
  se_script_values :: "(string \<times> string \<times> bool) list"
  se_script_error :: "(string \<times> string) option"

text \<open>
  \<open>send n index attempt values\<close> is what the sender returns or throws, as an error code, the \<open>n\<close>-th time it is
  called; \<open>lift\<close> is the part of \<^verbatim>\<open>extractTransfer\<close> before its size check.
\<close>

record ('u, 'c) host =
  find_request :: "string \<Rightarrow> 'c target"
  send :: "nat \<Rightarrow> nat \<Rightarrow> nat \<Rightarrow> (string, string) jsmap \<Rightarrow> (string \<times> string, 'u sent) result"
  evaluate :: "'u \<Rightarrow> 'c \<Rightarrow> outcome"
  is_callback :: "'c \<Rightarrow> bool"
  lift :: "'u \<Rightarrow> source \<Rightarrow> extracted"
  known_secret :: "string \<Rightarrow> bool"
  utf8_length :: "string \<Rightarrow> nat"
  aborted :: "nat \<Rightarrow> bool"

section \<open>Results\<close>

datatype transfer_outcome = Set | Nothing_there | Transfer_errored

record transfer_result =
  tx_name :: string
  tx_outcome :: transfer_outcome
  tx_secret :: bool
  tx_value :: "string option"

datatype branch_action = Act_goto | Act_repeat | Act_skip_next

fun action_of :: "branch_then \<Rightarrow> branch_action" where
  "action_of (Goto _ _ _) = Act_goto"
| "action_of (Repeat _ _) = Act_repeat"
| "action_of Skip_next = Act_skip_next"

record decision =
  dc_rule :: nat
  dc_action :: branch_action
  dc_count :: nat
  dc_max :: "nat option"
  dc_limit_reached :: bool

datatype skip_reason = Disabled | After_failure | Cancelled | By_branch

record step_result =
  sr_index :: nat
  sr_step_id :: string
  sr_request_id :: string
  sr_name :: string
  sr_outcome :: outcome
  sr_assertions :: "outcome list"
  sr_transfers :: "transfer_result list"
  sr_error :: "(string \<times> string) option"
  sr_skipped :: "skip_reason option"
  sr_attempt :: "nat option"
  sr_retried :: bool
  sr_branch :: "(decision \<times> nat option) option"

fun rank :: "outcome \<Rightarrow> nat" where
  "rank Skipped = 0"
| "rank Passed = 1"
| "rank Failed = 2"
| "rank Errored = 3"

definition worst :: "outcome list \<Rightarrow> outcome" where
  "worst os = foldl (\<lambda>a b. if rank b > rank a then b else a) Skipped os"

section \<open>Branches\<close>

type_synonym fired = "(string \<times> nat, nat) jsmap"

definition holds :: "('u, 'c) host \<Rightarrow> 'c branch_rule \<Rightarrow> 'u option \<Rightarrow> outcome \<Rightarrow> bool" where
  "holds h rl subject oc =
     (case rl_when rl of
        Outcome_is wanted \<Rightarrow> (oc \<in> set wanted) \<noteq> rl_not rl
      | Check c \<Rightarrow> (case subject of
          None \<Rightarrow> False
        | Some u \<Rightarrow> if evaluate h u c = Errored then False else (evaluate h u c = Passed) \<noteq> rl_not rl))"

fun max_of :: "branch_then \<Rightarrow> nat option" where
  "max_of (Goto _ m _) = Some m"
| "max_of (Repeat m _) = Some m"
| "max_of Skip_next = None"

definition count_of :: "fired \<Rightarrow> string \<times> nat \<Rightarrow> nat" where
  "count_of fired k = (case jsget fired k of None \<Rightarrow> 0 | Some n \<Rightarrow> n)"

text \<open>The loop over the rules: \<open>i\<close> is the next rule's index, \<open>at_limit\<close> the first match found at its limit.\<close>

fun choose_from ::
    "('u, 'c) host \<Rightarrow> string \<Rightarrow> 'u option \<Rightarrow> outcome \<Rightarrow> fired \<Rightarrow> nat \<Rightarrow> decision option \<Rightarrow> 'c branch_rule list \<Rightarrow>
     decision option \<times> fired" where
  "choose_from h sid subject oc fired i at_limit [] = (at_limit, fired)"
| "choose_from h sid subject oc fired i at_limit (rl # rls) =
     (if \<not> holds h rl subject oc then choose_from h sid subject oc fired (i + 1) at_limit rls
      else let count = count_of fired (sid, i) in
        if (case max_of (rl_then rl) of None \<Rightarrow> False | Some m \<Rightarrow> count \<ge> m)
        then choose_from h sid subject oc fired (i + 1)
          (case at_limit of
             None \<Rightarrow> Some \<lparr>dc_rule = i, dc_action = action_of (rl_then rl), dc_count = count,
                            dc_max = max_of (rl_then rl), dc_limit_reached = True\<rparr>
           | Some d \<Rightarrow> Some d) rls
        else (Some \<lparr>dc_rule = i, dc_action = action_of (rl_then rl), dc_count = count + 1,
                     dc_max = max_of (rl_then rl), dc_limit_reached = False\<rparr>,
              jsset fired (sid, i) (count + 1)))"

definition choose_branch ::
    "('u, 'c) host \<Rightarrow> 'c seq_step \<Rightarrow> 'u option \<Rightarrow> outcome \<Rightarrow> fired \<Rightarrow> decision option \<times> fired" where
  "choose_branch h step subject oc fired = choose_from h (sp_id step) subject oc fired 0 None (sp_branches step)"

section \<open>One step\<close>

definition extract_transfer :: "('u, 'c) host \<Rightarrow> 'u \<Rightarrow> transfer \<Rightarrow> extracted" where
  "extract_transfer h u t =
     (case lift h u (tr_from t) of
        Value v \<Rightarrow> if utf8_length h v > VALUE_BYTES
          then Extract_error ''sequence-value-too-large'' (tr_name t @ '' is larger than 65536 bytes'') else Value v
      | found \<Rightarrow> found)"

record bag =
  bg_values :: "(string, string) jsmap"
  bg_masked :: "string list"

definition merge_script_values :: "('u, 'c) host \<Rightarrow> bag \<Rightarrow> (string \<times> string \<times> bool) list \<Rightarrow> bag" where
  "merge_script_values h b vs = foldl (\<lambda>b (n, v, secret).
     \<lparr>bg_values = jsset (bg_values b) n v,
      bg_masked = (if secret \<or> known_secret h v then bg_masked b @ [v] else bg_masked b)\<rparr>) b vs"

record lifting =
  lf_bag :: bag
  lf_results :: "transfer_result list"
  lf_error :: "(string \<times> string) option"

definition first_error :: "(string \<times> string) option \<Rightarrow> string \<times> string \<Rightarrow> (string \<times> string) option" where
  "first_error e e' = (case e of None \<Rightarrow> Some e' | Some x \<Rightarrow> Some x)"

definition do_transfer :: "('u, 'c) host \<Rightarrow> 'u \<Rightarrow> lifting \<Rightarrow> transfer \<Rightarrow> lifting" where
  "do_transfer h u l t =
     (case extract_transfer h u t of
        Value v \<Rightarrow>
          (let secret = tr_secret t \<or> known_secret h v; b = lf_bag l in
           l\<lparr>lf_bag := \<lparr>bg_values = jsset (bg_values b) (tr_name t) v,
                         bg_masked = (if secret then bg_masked b @ [v] else bg_masked b)\<rparr>,
             lf_results := lf_results l @ [\<lparr>tx_name = tr_name t, tx_outcome = Set, tx_secret = secret,
                                             tx_value = (if secret then None else Some v)\<rparr>]\<rparr>)
      | Missing \<Rightarrow>
          l\<lparr>lf_results := lf_results l @ [\<lparr>tx_name = tr_name t, tx_outcome = Nothing_there,
                                            tx_secret = tr_secret t, tx_value = None\<rparr>],
            lf_error := if tr_optional t then lf_error l
              else first_error (lf_error l) (''sequence-transfer-missing'', tr_name t @ '': the response had nothing there'')\<rparr>
      | Extract_error code msg \<Rightarrow>
          l\<lparr>lf_results := lf_results l @ [\<lparr>tx_name = tr_name t, tx_outcome = Transfer_errored,
                                            tx_secret = tr_secret t, tx_value = None\<rparr>],
            lf_error := first_error (lf_error l) (code, tr_name t @ '': '' @ msg)\<rparr>)"

definition base_at :: "('u, 'c) host \<Rightarrow> 'c sequence \<Rightarrow> nat \<Rightarrow> step_result" where
  "base_at h sq i =
     (let step = sq_steps sq ! i in
      \<lparr>sr_index = i, sr_step_id = sp_id step, sr_request_id = sp_request_id step,
       sr_name = (case sp_name step of Some n \<Rightarrow> n | None \<Rightarrow>
         (case find_request h (sp_request_id step) of Found n _ \<Rightarrow> n | _ \<Rightarrow> sp_request_id step)),
       sr_outcome = Skipped, sr_assertions = [], sr_transfers = [], sr_error = None, sr_skipped = None,
       sr_attempt = None, sr_retried = False, sr_branch = None\<rparr>)"

definition errored :: "step_result \<Rightarrow> string \<times> string \<Rightarrow> step_result" where
  "errored base e = base\<lparr>sr_outcome := Errored, sr_error := Some e\<rparr>"

text \<open>The sender's answer, once it is there: transfers, then checks.\<close>

definition finish_step ::
    "('u, 'c) host \<Rightarrow> 'c seq_step \<Rightarrow> 'c list \<Rightarrow> step_result \<Rightarrow> bag \<Rightarrow> 'u sent \<Rightarrow> step_result \<times> 'u option \<times> bag" where
  "finish_step h step step_assertions base b s =
     (let u = se_subject s;
          b1 = merge_script_values h b (se_script_values s);
          l = foldl (do_transfer h u) \<lparr>lf_bag = b1, lf_results = [], lf_error = None\<rparr> (sp_transfers step);
          assertions = map (evaluate h u) (filter (\<lambda>c. \<not> is_callback h c) step_assertions) @ se_callbacks s @
            se_checks s @ map (\<lambda>ok. if ok then Passed else Failed) (se_script_tests s);
          err = (case lf_error l of Some e \<Rightarrow> Some e | None \<Rightarrow> se_script_error s);
          oc = (if err \<noteq> None \<or> Errored \<in> set assertions then Errored
                else if Failed \<in> set assertions then Failed else Passed) in
      (base\<lparr>sr_outcome := oc, sr_assertions := assertions, sr_transfers := lf_results l, sr_error := err\<rparr>,
       Some u, lf_bag l))"

definition run_step ::
    "('u, 'c) host \<Rightarrow> 'c seq_step \<Rightarrow> nat \<Rightarrow> nat \<Rightarrow> nat \<Rightarrow> step_result \<Rightarrow> bag \<Rightarrow> step_result \<times> 'u option \<times> bag" where
  "run_step h step i attempt n base b =
     (case find_request h (sp_request_id step) of
        Missing_request \<Rightarrow> (errored base (''sequence-step-missing-request'',
          ''The request '' @ sp_request_id step @ '' no longer exists''), None, b)
      | Unsupported reason \<Rightarrow> (errored base (''sequence-step-unsupported'', reason), None, b)
      | Found _ request_assertions \<Rightarrow>
          (case send h n i attempt (bg_values b) of
             Inl e \<Rightarrow> (errored base e, None, b)
           | Inr s \<Rightarrow> finish_step h step
               ((if sp_request_assertions step then request_assertions else []) @ sp_assertions step) base b s))"

section \<open>The run\<close>

record run_state =
  rs_cursor :: nat
  rs_bag :: bag
  rs_steps :: "step_result list"
  rs_latest :: "(string, nat) jsmap"
  rs_runs_of :: "(string, nat) jsmap"
  rs_fired :: fired
  rs_step_runs :: nat
  rs_stopped :: bool
  rs_clock :: nat

definition run_start :: run_state where
  "run_start = \<lparr>rs_cursor = 0, rs_bag = \<lparr>bg_values = [], bg_masked = []\<rparr>, rs_steps = [], rs_latest = [],
     rs_runs_of = [], rs_fired = [], rs_step_runs = 0, rs_stopped = False, rs_clock = 0\<rparr>"

definition report :: "run_state \<Rightarrow> step_result \<Rightarrow> run_state" where
  "report s r = s\<lparr>rs_steps := rs_steps s @ [r]\<rparr>"

definition skipped_result :: "step_result \<Rightarrow> skip_reason \<Rightarrow> step_result" where
  "skipped_result base why = base\<lparr>sr_outcome := Skipped, sr_skipped := Some why\<rparr>"

definition pass_over :: "('u, 'c) host \<Rightarrow> 'c sequence \<Rightarrow> nat \<Rightarrow> nat \<Rightarrow> run_state \<Rightarrow> run_state" where
  "pass_over h sq first till s =
     foldl (\<lambda>s i. report s (skipped_result (base_at h sq i) By_branch)) s [first..<till]"

definition find_index :: "('a \<Rightarrow> bool) \<Rightarrow> 'a list \<Rightarrow> nat option" where
  "find_index P xs = (case filter (\<lambda>i. P (xs ! i)) [0..<length xs] of [] \<Rightarrow> None | i # _ \<Rightarrow> Some i)"

definition mark_retried :: "step_result list \<Rightarrow> nat option \<Rightarrow> step_result list" where
  "mark_retried rs p = (case p of None \<Rightarrow> rs | Some i \<Rightarrow> rs[i := (rs ! i)\<lparr>sr_retried := True\<rparr>])"

definition skip_reason_of :: "('u, 'c) host \<Rightarrow> run_state \<Rightarrow> 'c seq_step \<Rightarrow> skip_reason option" where
  "skip_reason_of h s step =
     (if aborted h (rs_clock s) then Some Cancelled
      else if rs_stopped s then Some After_failure
      else if \<not> sp_enabled step then Some Disabled else None)"

text \<open>Where a rule leads: \<open>Some None\<close> is a \<^verbatim>\<open>goto\<close> to a step the sequence does not have.\<close>

definition jump_of :: "'c sequence \<Rightarrow> nat \<Rightarrow> 'c branch_rule option \<Rightarrow> nat option option" where
  "jump_of sq i rl = (case rl of
     None \<Rightarrow> None
   | Some r \<Rightarrow> (case rl_then r of
       Goto target _ _ \<Rightarrow> Some (find_index (\<lambda>st. sp_id st = target) (sq_steps sq))
     | Repeat _ _ \<Rightarrow> Some (Some i)
     | Skip_next \<Rightarrow> None))"

datatype run_error = No_such_step

definition fires :: "decision option \<Rightarrow> decision option" where
  "fires branch = (case branch of Some d \<Rightarrow> if dc_limit_reached d then None else Some d | None \<Rightarrow> None)"

definition attempt_of :: "run_state \<Rightarrow> string \<Rightarrow> nat" where
  "attempt_of s sid = (case jsget (rs_runs_of s) sid of None \<Rightarrow> 0 | Some n \<Rightarrow> n) + 1"

definition decide :: "('u, 'c) host \<Rightarrow> run_state \<Rightarrow> 'c seq_step \<Rightarrow> 'u option \<Rightarrow> outcome \<Rightarrow> decision option \<times> fired" where
  "decide h s step subject oc =
     (if aborted h (rs_clock s + 1) then (None, rs_fired s) else choose_branch h step subject oc (rs_fired s))"

definition decorated :: "step_result \<Rightarrow> nat \<Rightarrow> decision option \<Rightarrow> nat option option \<Rightarrow> step_result" where
  "decorated res attempt branch jump =
     res\<lparr>sr_attempt := (if 1 < attempt then Some attempt else None),
         sr_retried := (case fires branch of Some d \<Rightarrow> dc_action d = Act_repeat | None \<Rightarrow> False),
         sr_branch := map_option (\<lambda>d. (d, Option.bind jump id)) branch\<rparr>"

text \<open>
  The part of the loop's body that sends, everything after the limit check: \<open>record_run\<close> up to the report of
  the result, \<open>go_on\<close> the choice of the next step.
\<close>

definition record_run :: "run_state \<Rightarrow> string \<Rightarrow> nat \<Rightarrow> bag \<Rightarrow> fired \<Rightarrow> step_result \<Rightarrow> run_state" where
  "record_run s sid attempt b fd r =
     s\<lparr>rs_bag := b, rs_runs_of := jsset (rs_runs_of s) sid attempt, rs_fired := fd,
       rs_step_runs := rs_step_runs s + 1, rs_clock := rs_clock s + 2,
       rs_steps := mark_retried (rs_steps s) (jsget (rs_latest s) sid) @ [r],
       rs_latest := jsset (rs_latest s) sid (length (rs_steps s))\<rparr>"

definition go_on ::
    "('u, 'c) host \<Rightarrow> 'c sequence \<Rightarrow> nat \<Rightarrow> decision option \<Rightarrow> nat option option \<Rightarrow> outcome \<Rightarrow> run_state \<Rightarrow>
     (run_error, run_state) result" where
  "go_on h sq i goes jump oc s =
     (case goes of
        None \<Rightarrow> Inr (s\<lparr>rs_stopped := rs_stopped s \<or> (sq_stop_on_failure sq \<and> (oc = Failed \<or> oc = Errored)),
                        rs_cursor := i + 1\<rparr>)
      | Some d \<Rightarrow>
          if dc_action d = Act_skip_next
          then Inr ((pass_over h sq (i + 1) (min (i + 2) (length (sq_steps sq))) s)\<lparr>rs_cursor := i + 2\<rparr>)
          else (case jump of
              Some None \<Rightarrow> Inl No_such_step
            | Some (Some to) \<Rightarrow> Inr ((pass_over h sq (i + 1) to s)\<lparr>rs_cursor := to\<rparr>)
            | None \<Rightarrow> Inr ((pass_over h sq (i + 1) i s)\<lparr>rs_cursor := i\<rparr>)))"

definition send_step :: "('u, 'c) host \<Rightarrow> 'c sequence \<Rightarrow> run_state \<Rightarrow> (run_error, run_state) result" where
  "send_step h sq s =
     (let i = rs_cursor s; step = sq_steps sq ! i; sid = sp_id step; attempt = attempt_of s sid;
          (res, subject, b) = run_step h step i attempt (rs_step_runs s) (base_at h sq i) (rs_bag s);
          (branch, fd) = decide h s step subject (sr_outcome res);
          jump = jump_of sq i (map_option (\<lambda>d. sp_branches step ! dc_rule d) branch) in
      go_on h sq i (fires branch) jump (sr_outcome res)
        (record_run s sid attempt b fd (decorated res attempt branch jump)))"

definition LIMIT_ERROR :: "string \<times> string" where
  "LIMIT_ERROR = (''sequence-run-limit'', ''The run reached 1000 step runs; it stopped here'')"

definition loop_body :: "('u, 'c) host \<Rightarrow> 'c sequence \<Rightarrow> run_state \<Rightarrow> (run_error, run_state) result" where
  "loop_body h sq s =
     (let i = rs_cursor s; step = sq_steps sq ! i; base = base_at h sq i in
      case skip_reason_of h s step of
        Some why \<Rightarrow> Inr ((report s (skipped_result base why))\<lparr>rs_cursor := i + 1, rs_clock := rs_clock s + 1\<rparr>)
      | None \<Rightarrow>
          if rs_step_runs s \<ge> STEP_RUNS
          then Inr ((report s (errored base LIMIT_ERROR))
                 \<lparr>rs_stopped := True, rs_cursor := i + 1, rs_clock := rs_clock s + 1\<rparr>)
          else send_step h sq s)"

lemma rs_pass_over [simp]:
  "rs_cursor (pass_over h sq first till s) = rs_cursor s" "rs_step_runs (pass_over h sq first till s) = rs_step_runs s"
  "rs_fired (pass_over h sq first till s) = rs_fired s" "rs_stopped (pass_over h sq first till s) = rs_stopped s"
  "rs_bag (pass_over h sq first till s) = rs_bag s" "rs_clock (pass_over h sq first till s) = rs_clock s"
  "rs_runs_of (pass_over h sq first till s) = rs_runs_of s" "rs_latest (pass_over h sq first till s) = rs_latest s"
  "rs_steps (pass_over h sq first till s) =
     rs_steps s @ map (\<lambda>i. skipped_result (base_at h sq i) By_branch) [first..<till]"
proof -
  have "foldl (\<lambda>s i. report s (skipped_result (base_at h sq i) By_branch)) s is =
      s\<lparr>rs_steps := rs_steps s @ map (\<lambda>i. skipped_result (base_at h sq i) By_branch) is\<rparr>" for "is"
    by (induction "is" arbitrary: s) (simp_all add: report_def)
  then show "rs_cursor (pass_over h sq first till s) = rs_cursor s" "rs_step_runs (pass_over h sq first till s) = rs_step_runs s"
    "rs_fired (pass_over h sq first till s) = rs_fired s" "rs_stopped (pass_over h sq first till s) = rs_stopped s"
    "rs_bag (pass_over h sq first till s) = rs_bag s" "rs_clock (pass_over h sq first till s) = rs_clock s"
    "rs_runs_of (pass_over h sq first till s) = rs_runs_of s" "rs_latest (pass_over h sq first till s) = rs_latest s"
    "rs_steps (pass_over h sq first till s) =
       rs_steps s @ map (\<lambda>i. skipped_result (base_at h sq i) By_branch) [first..<till]"
    by (simp_all add: pass_over_def)
qed

lemma send_step_runs: "send_step h sq s = Inr s' \<Longrightarrow> rs_step_runs s' = Suc (rs_step_runs s)"
  by (auto simp: send_step_def Let_def case_prod_unfold go_on_def record_run_def split: option.splits if_splits)

lemma loop_body_measure:
  assumes "loop_body h sq s = Inr s'"
  shows "rs_step_runs s < STEP_RUNS \<and> rs_step_runs s' = Suc (rs_step_runs s) \<or>
    rs_step_runs s' = rs_step_runs s \<and> rs_cursor s' = Suc (rs_cursor s)"
  using assms
  by (auto simp: loop_body_def Let_def report_def dest: send_step_runs split: option.splits if_splits)

function run_loop :: "('u, 'c) host \<Rightarrow> 'c sequence \<Rightarrow> run_state \<Rightarrow> (run_error, run_state) result" where
  "run_loop h sq s =
     (if rs_cursor s < length (sq_steps sq) then bind_result (loop_body h sq s) (run_loop h sq) else Inr s)"
  by pat_completeness auto
termination
proof (relation "measures [\<lambda>(h, sq, s). STEP_RUNS - rs_step_runs s, \<lambda>(h, sq, s). length (sq_steps sq) - rs_cursor s]")
  fix h :: "('u, 'c) host" and sq s s'
  assume "rs_cursor s < length (sq_steps sq)" and "loop_body h sq s = Inr s'"
  then show "((h, sq, s'), h, sq, s) \<in>
      measures [\<lambda>(h, sq, s). STEP_RUNS - rs_step_runs s, \<lambda>(h, sq, s). length (sq_steps sq) - rs_cursor s]"
    using loop_body_measure [of h sq s s'] by auto
qed simp

declare run_loop.simps [simp del]

record run_result =
  rr_sequence_id :: string
  rr_name :: string
  rr_outcome :: outcome
  rr_steps :: "step_result list"

definition run_sequence :: "('u, 'c) host \<Rightarrow> 'c sequence \<Rightarrow> (run_error, run_result) result" where
  "run_sequence h sq = bind_result (run_loop h sq run_start) (\<lambda>s.
     Inr \<lparr>rr_sequence_id = sq_id sq, rr_name = sq_name sq,
          rr_outcome = worst (map sr_outcome (filter (\<lambda>r. \<not> sr_retried r) (rs_steps s))),
          rr_steps = rs_steps s\<rparr>)"

section \<open>Reasoning about a run\<close>

lemma run_loop_invariant:
  assumes "\<And>s s'. I s \<Longrightarrow> rs_cursor s < length (sq_steps sq) \<Longrightarrow> loop_body h sq s = Inr s' \<Longrightarrow> I s'"
    and "I s" and "run_loop h sq s = Inr s'"
  shows "I s'"
  using assms
proof (induction h sq s rule: run_loop.induct)
  case (1 h sq s)
  show ?case
  proof (cases "rs_cursor s < length (sq_steps sq)")
    case True
    then obtain s1 where b: "loop_body h sq s = Inr s1" and l: "run_loop h sq s1 = Inr s'"
      using 1(4) by (auto simp: run_loop.simps [of h sq s] bind_result_Inr_iff)
    show ?thesis by (rule 1(1) [OF True b 1(2) 1(2) [OF 1(3) True b] l])
  next
    case False
    then show ?thesis using 1(3,4) by (simp add: run_loop.simps [of h sq s])
  qed
qed

lemma run_loop_errorless:
  assumes "\<And>s s'. I s \<Longrightarrow> rs_cursor s < length (sq_steps sq) \<Longrightarrow> loop_body h sq s = Inr s' \<Longrightarrow> I s'"
    and "\<And>s. I s \<Longrightarrow> rs_cursor s < length (sq_steps sq) \<Longrightarrow> \<exists>s'. loop_body h sq s = Inr s'"
    and "I s"
  shows "\<exists>s'. run_loop h sq s = Inr s'"
  using assms
proof (induction h sq s rule: run_loop.induct)
  case (1 h sq s)
  show ?case
  proof (cases "rs_cursor s < length (sq_steps sq)")
    case True
    then obtain s1 where b: "loop_body h sq s = Inr s1" using 1(3,4) by blast
    have "\<exists>s'. run_loop h sq s1 = Inr s'"
      by (rule 1(1) [OF True b 1(2) 1(3) 1(2) [OF 1(4) True b]])
    then show ?thesis using b True by (simp add: run_loop.simps [of h sq s])
  next
    case False
    then show ?thesis by (simp add: run_loop.simps [of h sq s])
  qed
qed

lemma send_stepE:
  fixes sq :: "'c sequence"
  assumes "send_step h sq s = Inr s'"
  defines "i \<equiv> rs_cursor s" and "step \<equiv> sq_steps sq ! rs_cursor s"
  obtains res subject b branch fd jump passed where
    "run_step h step i (attempt_of s (sp_id step)) (rs_step_runs s) (base_at h sq i) (rs_bag s) = (res, subject, b)"
    "decide h s step subject (sr_outcome res) = (branch, fd)"
    "rs_steps s' = mark_retried (rs_steps s) (jsget (rs_latest s) (sp_id step)) @
       [decorated res (attempt_of s (sp_id step)) branch jump] @
       map (\<lambda>i. skipped_result (base_at h sq i) By_branch) passed"
    "rs_fired s' = fd" "rs_bag s' = b" "rs_step_runs s' = Suc (rs_step_runs s)"
    "rs_latest s' = jsset (rs_latest s) (sp_id step) (length (rs_steps s))"
    "rs_runs_of s' = jsset (rs_runs_of s) (sp_id step) (attempt_of s (sp_id step))"
    "rs_stopped s' \<longleftrightarrow> rs_stopped s \<or> fires branch = None \<and> sq_stop_on_failure sq \<and>
       (sr_outcome res = Failed \<or> sr_outcome res = Errored)"
    "fires branch = None \<longrightarrow> passed = []"
proof -
  obtain res subject b where res: "run_step h step i (attempt_of s (sp_id step)) (rs_step_runs s) (base_at h sq i) (rs_bag s)
      = (res, subject, b)" by (metis prod_cases3)
  obtain branch fd where br: "decide h s step subject (sr_outcome res) = (branch, fd)" by fastforce
  define jump where "jump = jump_of sq i (map_option (\<lambda>d. sp_branches step ! dc_rule d) branch)"
  have g: "go_on h sq i (fires branch) jump (sr_outcome res)
      (record_run s (sp_id step) (attempt_of s (sp_id step)) b fd (decorated res (attempt_of s (sp_id step)) branch jump)) = Inr s'"
    using assms(1) res br by (simp add: send_step_def Let_def i_def step_def jump_def)
  show ?thesis
  proof (cases "fires branch")
    case None
    show ?thesis
      using g None by (intro that [OF res br, of jump "[]"]) (auto simp: go_on_def record_run_def)
  next
    case (Some d)
    from g Some show ?thesis
      by (auto simp: go_on_def record_run_def intro!: that [OF res br, of jump] split: if_splits option.splits)
  qed
qed

lemma loop_bodyE:
  assumes "loop_body h sq s = Inr s'"
  obtains
    (skip) why where "skip_reason_of h s (sq_steps sq ! rs_cursor s) = Some why"
      "rs_steps s' = rs_steps s @ [skipped_result (base_at h sq (rs_cursor s)) why]"
      "rs_stopped s' = rs_stopped s" "rs_fired s' = rs_fired s" "rs_latest s' = rs_latest s" "rs_bag s' = rs_bag s"
      "rs_runs_of s' = rs_runs_of s" "rs_step_runs s' = rs_step_runs s"
  | (limit) "skip_reason_of h s (sq_steps sq ! rs_cursor s) = None" "STEP_RUNS \<le> rs_step_runs s"
      "rs_steps s' = rs_steps s @ [errored (base_at h sq (rs_cursor s)) LIMIT_ERROR]"
      "rs_stopped s'" "rs_fired s' = rs_fired s" "rs_latest s' = rs_latest s" "rs_bag s' = rs_bag s"
      "rs_runs_of s' = rs_runs_of s" "rs_step_runs s' = rs_step_runs s"
  | (sent) "skip_reason_of h s (sq_steps sq ! rs_cursor s) = None" "rs_step_runs s < STEP_RUNS" "send_step h sq s = Inr s'"
  using assms by (auto simp: loop_body_def Let_def report_def split: option.splits if_splits)

section \<open>Rules fire at most so often\<close>

definition fired_at :: "string \<Rightarrow> nat \<Rightarrow> step_result \<Rightarrow> bool" where
  "fired_at sid i r \<longleftrightarrow> sr_step_id r = sid \<and>
     (case sr_branch r of None \<Rightarrow> False | Some (d, _) \<Rightarrow> dc_rule d = i \<and> \<not> dc_limit_reached d)"

definition times_fired :: "string \<Rightarrow> nat \<Rightarrow> step_result list \<Rightarrow> nat" where
  "times_fired sid i rs = length (filter (fired_at sid i) rs)"

lemma base_at_simps [simp]:
  "sr_step_id (base_at h sq i) = sp_id (sq_steps sq ! i)" "sr_index (base_at h sq i) = i"
  "sr_skipped (base_at h sq i) = None" "sr_branch (base_at h sq i) = None" "sr_retried (base_at h sq i) = False"
  "sr_transfers (base_at h sq i) = []"
  by (simp_all add: base_at_def Let_def)

lemma skipped_result_simps [simp]:
  "sr_branch (skipped_result r why) = sr_branch r" "sr_skipped (skipped_result r why) = Some why"
  "sr_step_id (skipped_result r why) = sr_step_id r" "sr_index (skipped_result r why) = sr_index r"
  "sr_transfers (skipped_result r why) = sr_transfers r" "sr_outcome (skipped_result r why) = Skipped"
  by (simp_all add: skipped_result_def)

lemma errored_simps [simp]:
  "sr_branch (errored r e) = sr_branch r" "sr_skipped (errored r e) = sr_skipped r"
  "sr_step_id (errored r e) = sr_step_id r" "sr_index (errored r e) = sr_index r"
  "sr_transfers (errored r e) = sr_transfers r" "sr_outcome (errored r e) = Errored" "sr_error (errored r e) = Some e"
  by (simp_all add: errored_def)

lemma run_step_base:
  assumes "run_step h step i attempt n base b = (res, subject, b')"
  shows "sr_step_id res = sr_step_id base" "sr_index res = sr_index base" "sr_skipped res = sr_skipped base"
    "sr_retried res = sr_retried base" "sr_branch res = sr_branch base"
  using assms
  by (auto simp: run_step_def finish_step_def errored_def Let_def split: target.splits sum.splits)

lemma decorated_simps [simp]:
  "sr_step_id (decorated r a b j) = sr_step_id r" "sr_index (decorated r a b j) = sr_index r"
  "sr_skipped (decorated r a b j) = sr_skipped r" "sr_outcome (decorated r a b j) = sr_outcome r"
  "sr_transfers (decorated r a b j) = sr_transfers r"
  "sr_branch (decorated r a b j) = map_option (\<lambda>d. (d, Option.bind j id)) b"
  by (simp_all add: decorated_def)

lemma times_fired_append [simp]: "times_fired sid i (xs @ ys) = times_fired sid i xs + times_fired sid i ys"
  by (simp add: times_fired_def)

lemma times_fired_mark [simp]: "times_fired sid i (mark_retried rs p) = times_fired sid i rs"
proof -
  have "map (fired_at sid i) (rs[j := (rs ! j)\<lparr>sr_retried := True\<rparr>]) = map (fired_at sid i) rs" for j
    by (cases "j < length rs") (auto simp: map_update fired_at_def list_update_same_conv list_update_beyond)
  moreover have "times_fired sid i xs = length (filter id (map (fired_at sid i) xs))" for xs
    by (simp add: times_fired_def filter_map comp_def)
  ultimately have "times_fired sid i (rs[j := (rs ! j)\<lparr>sr_retried := True\<rparr>]) = times_fired sid i rs" for j
    by metis
  then show ?thesis by (simp add: mark_retried_def split: option.split)
qed

lemma times_fired_Nil [simp]: "times_fired sid i [] = 0"
  by (simp add: times_fired_def)

lemma times_fired_Cons [simp]:
  "times_fired sid i (r # rs) = (if fired_at sid i r then 1 else 0) + times_fired sid i rs"
  by (simp add: times_fired_def)

text \<open>What \<^verbatim>\<open>chooseBranch\<close> decides: the rule that fires is one of the step's, was under its limit, and is counted.\<close>

definition fires_rule :: "string \<Rightarrow> 'c branch_rule list \<Rightarrow> nat \<Rightarrow> fired \<Rightarrow> fired \<Rightarrow> decision \<Rightarrow> bool" where
  "fires_rule sid rls i fd fd' d \<longleftrightarrow>
     i \<le> dc_rule d \<and> dc_rule d < i + length rls \<and>
     dc_action d = action_of (rl_then (rls ! (dc_rule d - i))) \<and> \<not> dc_limit_reached d \<and>
     (\<forall>m. max_of (rl_then (rls ! (dc_rule d - i))) = Some m \<longrightarrow> count_of fd (sid, dc_rule d) < m) \<and>
     fd' = jsset fd (sid, dc_rule d) (count_of fd (sid, dc_rule d) + 1)"

lemma fires_rule_Cons: "fires_rule sid rls (Suc i) fd fd' d \<Longrightarrow> fires_rule sid (rl # rls) i fd fd' d"
  by (auto simp: fires_rule_def nth_Cons' Suc_diff_le)

lemma fires_limit [simp]:
  "fires None = None" "fires (Some d) = (if dc_limit_reached d then None else Some d)"
  by (simp_all add: fires_def)

lemma choose_from_fires:
  assumes "choose_from h sid subject oc fd i at_limit rls = (branch, fd')" and "fires at_limit = None"
  shows "case fires branch of None \<Rightarrow> fd' = fd | Some d \<Rightarrow> branch = Some d \<and> fires_rule sid rls i fd fd' d"
  using assms
proof (induction rls arbitrary: i at_limit)
  case (Cons rl rls)
  let ?count = "count_of fd (sid, i)"
  consider (no) "\<not> holds h rl subject oc"
    | (full) m where "holds h rl subject oc" "max_of (rl_then rl) = Some m" "?count \<ge> m"
    | (fire) "holds h rl subject oc" "\<forall>m. max_of (rl_then rl) = Some m \<longrightarrow> ?count < m"
    by (metis not_less)
  then show ?case
  proof cases
    case no
    with Cons.prems Cons.IH [of "i + 1" at_limit] show ?thesis
      by (auto split: option.splits intro: fires_rule_Cons)
  next
    case full
    let ?al = "case at_limit of None \<Rightarrow> Some \<lparr>dc_rule = i, dc_action = action_of (rl_then rl), dc_count = ?count,
        dc_max = max_of (rl_then rl), dc_limit_reached = True\<rparr> | Some d \<Rightarrow> Some d"
    have "fires ?al = None" using Cons.prems(2) by (cases at_limit) auto
    with full Cons.prems(1) Cons.IH [of "i + 1" ?al] show ?thesis
      by (auto simp: Let_def split: option.splits intro: fires_rule_Cons)
  next
    case fire
    then have "branch = Some \<lparr>dc_rule = i, dc_action = action_of (rl_then rl), dc_count = ?count + 1,
        dc_max = max_of (rl_then rl), dc_limit_reached = False\<rparr>" "fd' = jsset fd (sid, i) (?count + 1)"
      using Cons.prems by (auto simp: Let_def split: option.splits)
    with fire show ?thesis by (simp add: fires_rule_def)
  qed
qed auto

lemma decide_fires:
  assumes "decide h s step subject oc = (branch, fd')"
  shows "case fires branch of None \<Rightarrow> fd' = rs_fired s
     | Some d \<Rightarrow> branch = Some d \<and> fires_rule (sp_id step) (sp_branches step) 0 (rs_fired s) fd' d"
proof (cases "aborted h (rs_clock s + 1)")
  case False
  then show ?thesis
    using assms by (intro choose_from_fires [where at_limit = None]) (auto simp: decide_def choose_branch_def)
qed (use assms in \<open>auto simp: decide_def\<close>)

definition fired_inv :: "'c sequence \<Rightarrow> run_state \<Rightarrow> bool" where
  "fired_inv sq s \<longleftrightarrow>
     (\<forall>sid i. times_fired sid i (rs_steps s) = count_of (rs_fired s) (sid, i)) \<and>
     (\<forall>st \<in> set (sq_steps sq). \<forall>i < length (sp_branches st). \<forall>m. max_of (rl_then (sp_branches st ! i)) = Some m \<longrightarrow>
        count_of (rs_fired s) (sp_id st, i) \<le> m)"

lemma count_of_jsset: "count_of (jsset fd k n) k' = (if k' = k then n else count_of fd k')"
  by (simp add: count_of_def jsget_jsset)

lemma times_fired_skipped [simp]:
  "times_fired sid i (map (\<lambda>i. skipped_result (base_at h sq i) why) is) = 0"
  "\<not> fired_at sid i (skipped_result (base_at h sq j) why)"
  "\<not> fired_at sid i (errored (base_at h sq j) e)"
  by (auto simp: times_fired_def fired_at_def filter_empty_conv)

lemma send_step_fired_inv:
  assumes inv: "fired_inv sq s" and d: "distinct (map sp_id (sq_steps sq))" and c: "rs_cursor s < length (sq_steps sq)"
    and s': "send_step h sq s = Inr s'"
  shows "fired_inv sq s'"
proof -
  let ?step = "sq_steps sq ! rs_cursor s"
  from s' obtain res subject b branch fd jump passed where
    run: "run_step h ?step (rs_cursor s) (attempt_of s (sp_id ?step)) (rs_step_runs s) (base_at h sq (rs_cursor s)) (rs_bag s) = (res, subject, b)"
    and dec: "decide h s ?step subject (sr_outcome res) = (branch, fd)"
    and steps: "rs_steps s' = mark_retried (rs_steps s) (jsget (rs_latest s) (sp_id ?step)) @
       [decorated res (attempt_of s (sp_id ?step)) branch jump] @
       map (\<lambda>i. skipped_result (base_at h sq i) By_branch) passed"
    and fd: "rs_fired s' = fd"
    by (rule send_stepE) blast
  have sid: "sr_step_id res = sp_id ?step" using run_step_base [OF run] by simp
  show ?thesis
  proof (cases "fires branch")
    case None
    then have "\<not> fired_at sid i (decorated res (attempt_of s (sp_id ?step)) branch jump)" for sid i
      by (auto simp: fired_at_def fires_def split: option.splits if_splits)
    moreover have "fd = rs_fired s" using decide_fires [OF dec] None by simp
    ultimately show ?thesis using inv by (simp add: fired_inv_def steps fd)
  next
    case (Some dd)
    then have br: "branch = Some dd" and f: "fires_rule (sp_id ?step) (sp_branches ?step) 0 (rs_fired s) fd dd"
      using decide_fires [OF dec] by auto
    have t: "fired_at sid i (decorated res (attempt_of s (sp_id ?step)) branch jump) \<longleftrightarrow>
        (sid, i) = (sp_id ?step, dc_rule dd)" for sid i
      using f br sid by (auto simp: fired_at_def fires_rule_def)
    have same: "st = ?step" if "st \<in> set (sq_steps sq)" "sp_id st = sp_id ?step" for st
      using that d c by (auto simp: distinct_map inj_on_def)
    have fd': "fd = jsset (rs_fired s) (sp_id ?step, dc_rule dd) (count_of (rs_fired s) (sp_id ?step, dc_rule dd) + 1)"
      and lt: "\<And>m. max_of (rl_then (sp_branches ?step ! dc_rule dd)) = Some m \<Longrightarrow>
        count_of (rs_fired s) (sp_id ?step, dc_rule dd) < m"
      using f by (auto simp: fires_rule_def)
    show ?thesis
      using inv same lt
      by (auto simp: fired_inv_def steps fd fd' t count_of_jsset Suc_le_eq)
  qed
qed

lemma loop_body_fired_inv:
  assumes "fired_inv sq s" and "distinct (map sp_id (sq_steps sq))" and "rs_cursor s < length (sq_steps sq)"
    and "loop_body h sq s = Inr s'"
  shows "fired_inv sq s'"
  using assms(4)
proof (cases rule: loop_bodyE)
  case sent
  then show ?thesis using assms send_step_fired_inv by blast
qed (use assms(1) in \<open>simp_all add: fired_inv_def\<close>)

lemma fired_inv_start: "fired_inv sq run_start"
  by (simp add: fired_inv_def run_start_def times_fired_def count_of_def)

lemma run_sequenceE:
  assumes "run_sequence h sq = Inr r"
  obtains s where "run_loop h sq run_start = Inr s" "rr_steps r = rs_steps s"
    "rr_outcome r = worst (map sr_outcome (filter (\<lambda>r. \<not> sr_retried r) (rs_steps s)))"
  using assms by (auto simp: run_sequence_def bind_result_Inr_iff)

text \<open>In a run of a sequence whose steps have different ids, no rule fires more often than its \<^verbatim>\<open>max\<close>, as the results
  report it, whatever the host answers and wherever the branches jump.\<close>

theorem rule_fires_at_most_max:
  assumes r: "run_sequence h sq = Inr r" and d: "distinct (map sp_id (sq_steps sq))"
    and st: "st \<in> set (sq_steps sq)" and i: "i < length (sp_branches st)"
    and m: "max_of (rl_then (sp_branches st ! i)) = Some m"
  shows "times_fired (sp_id st) i (rr_steps r) \<le> m"
proof -
  from r obtain s where s: "run_loop h sq run_start = Inr s" "rr_steps r = rs_steps s" by (rule run_sequenceE)
  have "fired_inv sq s"
    using loop_body_fired_inv [OF _ d] fired_inv_start s(1) by (rule run_loop_invariant)
  then show ?thesis using s st i m by (simp add: fired_inv_def)
qed

section \<open>Only the last run of a step counts\<close>

definition was_sent :: "step_result \<Rightarrow> bool" where
  "was_sent r \<longleftrightarrow> sr_skipped r = None \<and> sr_error r \<noteq> Some LIMIT_ERROR"

definition latest_inv :: "run_state \<Rightarrow> bool" where
  "latest_inv s \<longleftrightarrow>
     (\<forall>a < length (rs_steps s). was_sent (rs_steps s ! a) \<longrightarrow>
        (\<exists>l < length (rs_steps s). jsget (rs_latest s) (sr_step_id (rs_steps s ! a)) = Some l \<and> a \<le> l \<and>
           (a < l \<longrightarrow> sr_retried (rs_steps s ! a))))"

lemma nth_update_any: "xs[i := x] ! j = (if i = j \<and> i < length xs then x else xs ! j)"
  by (cases "i < length xs") (auto simp: nth_list_update list_update_beyond)

lemma mark_retried_simps [simp]:
  "length (mark_retried rs p) = length rs"
  "a < length rs \<Longrightarrow> sr_step_id (mark_retried rs p ! a) = sr_step_id (rs ! a)"
  "a < length rs \<Longrightarrow> sr_skipped (mark_retried rs p ! a) = sr_skipped (rs ! a)"
  "a < length rs \<Longrightarrow> sr_error (mark_retried rs p ! a) = sr_error (rs ! a)"
  "a < length rs \<Longrightarrow> sr_outcome (mark_retried rs p ! a) = sr_outcome (rs ! a)"
  "a < length rs \<Longrightarrow> sr_branch (mark_retried rs p ! a) = sr_branch (rs ! a)"
  "a < length rs \<Longrightarrow> sr_index (mark_retried rs p ! a) = sr_index (rs ! a)"
  "a < length rs \<Longrightarrow> sr_transfers (mark_retried rs p ! a) = sr_transfers (rs ! a)"
  "a < length rs \<Longrightarrow> sr_retried (mark_retried rs p ! a) \<longleftrightarrow> p = Some a \<or> sr_retried (rs ! a)"
  by (auto simp: mark_retried_def nth_update_any split: option.splits)

lemma was_sent_mark [simp]: "a < length rs \<Longrightarrow> was_sent (mark_retried rs p ! a) = was_sent (rs ! a)"
  by (simp add: was_sent_def)

lemma not_sent [simp]: "\<not> was_sent (skipped_result r why)" "\<not> was_sent (errored r LIMIT_ERROR)"
  by (simp_all add: was_sent_def)

lemma latest_inv_append:
  assumes "latest_inv s" and "\<forall>r \<in> set rs. \<not> was_sent r"
    and "rs_steps s' = rs_steps s @ rs" and "rs_latest s' = rs_latest s"
  shows "latest_inv s'"
  unfolding latest_inv_def
proof (intro allI impI)
  fix a assume a: "a < length (rs_steps s')" "was_sent (rs_steps s' ! a)"
  have l: "a < length (rs_steps s)"
  proof (rule ccontr)
    assume n: "\<not> a < length (rs_steps s)"
    then have "rs_steps s' ! a = rs ! (a - length (rs_steps s))" and "a - length (rs_steps s) < length rs"
      using assms(3) a(1) by (auto simp: nth_append)
    then show False using a(2) assms(2) by (metis nth_mem)
  qed
  then have e: "rs_steps s' ! a = rs_steps s ! a" using assms(3) by (simp add: nth_append)
  with l a assms(1) obtain k where "k < length (rs_steps s)" "jsget (rs_latest s) (sr_step_id (rs_steps s ! a)) = Some k"
    "a \<le> k" "a < k \<longrightarrow> sr_retried (rs_steps s ! a)" unfolding latest_inv_def by auto
  then show "\<exists>l < length (rs_steps s'). jsget (rs_latest s') (sr_step_id (rs_steps s' ! a)) = Some l \<and> a \<le> l \<and>
      (a < l \<longrightarrow> sr_retried (rs_steps s' ! a))"
    using assms(3,4) e by (intro exI [of _ k]) auto
qed

definition with_run :: "run_state \<Rightarrow> string \<Rightarrow> step_result \<Rightarrow> run_state" where
  "with_run s sid r = s\<lparr>rs_steps := mark_retried (rs_steps s) (jsget (rs_latest s) sid) @ [r],
     rs_latest := jsset (rs_latest s) sid (length (rs_steps s))\<rparr>"

lemma latest_inv_with_run:
  assumes inv: "latest_inv s" and r: "sr_step_id r = sid"
  shows "latest_inv (with_run s sid r)"
  unfolding latest_inv_def
proof (intro allI impI)
  let ?t = "with_run s sid r" and ?n = "length (rs_steps s)"
  fix a assume a: "a < length (rs_steps ?t)" "was_sent (rs_steps ?t ! a)"
  show "\<exists>l < length (rs_steps ?t). jsget (rs_latest ?t) (sr_step_id (rs_steps ?t ! a)) = Some l \<and> a \<le> l \<and>
      (a < l \<longrightarrow> sr_retried (rs_steps ?t ! a))"
  proof (cases "a = ?n")
    case True
    then have "rs_steps ?t ! a = r" by (simp add: with_run_def nth_append)
    then show ?thesis using True r by (simp add: with_run_def jsget_jsset)
  next
    case False
    with a have l: "a < ?n" by (simp add: with_run_def)
    then have e: "rs_steps ?t ! a = mark_retried (rs_steps s) (jsget (rs_latest s) sid) ! a"
      by (simp add: with_run_def nth_append)
    with a(2) l have "was_sent (rs_steps s ! a)" by simp
    with inv l obtain k where k: "k < ?n" "jsget (rs_latest s) (sr_step_id (rs_steps s ! a)) = Some k"
      "a \<le> k" "a < k \<longrightarrow> sr_retried (rs_steps s ! a)" unfolding latest_inv_def by blast
    show ?thesis
    proof (cases "sr_step_id (rs_steps s ! a) = sid")
      case True
      with k have "sr_retried (rs_steps ?t ! a)" using e l by (cases "a = k") auto
      then show ?thesis using True e l by (auto simp: with_run_def jsget_jsset)
    next
      case False
      then show ?thesis using k e l by (intro exI [of _ k]) (auto simp: with_run_def jsget_jsset)
    qed
  qed
qed

lemma loop_body_latest_inv:
  assumes inv: "latest_inv s" and b: "loop_body h sq s = Inr s'"
  shows "latest_inv s'"
  using b
proof (cases rule: loop_bodyE)
  case skip
  then show ?thesis by (intro latest_inv_append [OF inv]) auto
next
  case limit
  then show ?thesis by (intro latest_inv_append [OF inv]) auto
next
  case sent
  let ?step = "sq_steps sq ! rs_cursor s"
  from sent(3) obtain res subject b branch fd jump passed where
    run: "run_step h ?step (rs_cursor s) (attempt_of s (sp_id ?step)) (rs_step_runs s) (base_at h sq (rs_cursor s)) (rs_bag s) = (res, subject, b)"
    and steps: "rs_steps s' = mark_retried (rs_steps s) (jsget (rs_latest s) (sp_id ?step)) @
       [decorated res (attempt_of s (sp_id ?step)) branch jump] @
       map (\<lambda>i. skipped_result (base_at h sq i) By_branch) passed"
    and latest: "rs_latest s' = jsset (rs_latest s) (sp_id ?step) (length (rs_steps s))"
    by (rule send_stepE) blast
  have "latest_inv (with_run s (sp_id ?step) (decorated res (attempt_of s (sp_id ?step)) branch jump))"
    using run_step_base [OF run] by (intro latest_inv_with_run [OF inv]) simp
  then show ?thesis
    by (rule latest_inv_append) (auto simp: with_run_def steps latest)
qed

text \<open>Only the last run of each step counts: when a step was sent twice in a run, every result but its last is marked as
  retried, and so is left out of the run's outcome.\<close>

theorem only_last_run_counts:
  assumes r: "run_sequence h sq = Inr r"
    and ab: "a < b" "b < length (rr_steps r)"
    and sent: "was_sent (rr_steps r ! a)" "was_sent (rr_steps r ! b)"
    and same: "sr_step_id (rr_steps r ! a) = sr_step_id (rr_steps r ! b)"
  shows "sr_retried (rr_steps r ! a)"
proof -
  from r obtain s where s: "run_loop h sq run_start = Inr s" "rr_steps r = rs_steps s" by (rule run_sequenceE)
  have "latest_inv run_start" by (simp add: latest_inv_def run_start_def)
  with loop_body_latest_inv have "latest_inv s" using s(1) by (rule run_loop_invariant)
  with ab sent show ?thesis unfolding latest_inv_def s(2) [symmetric] same [symmetric]
    by (metis same le_less_trans less_imp_le_nat less_trans linorder_not_less option.inject)
qed

section \<open>The run always ends, within its limit\<close>

definition gotos_present :: "'c sequence \<Rightarrow> bool" where
  "gotos_present sq \<longleftrightarrow> (\<forall>st \<in> set (sq_steps sq). \<forall>rl \<in> set (sp_branches st).
     case rl_then rl of Goto t _ _ \<Rightarrow> \<exists>st' \<in> set (sq_steps sq). sp_id st' = t | _ \<Rightarrow> True)"

lemma find_index_present: "\<exists>x \<in> set xs. P x \<Longrightarrow> \<exists>i < length xs. find_index P xs = Some i \<and> P (xs ! i)"
proof -
  assume "\<exists>x \<in> set xs. P x"
  then have "filter (\<lambda>i. P (xs ! i)) [0..<length xs] \<noteq> []"
    by (force simp: in_set_conv_nth filter_empty_conv)
  then obtain i "is" where f: "filter (\<lambda>i. P (xs ! i)) [0..<length xs] = i # is" by (auto simp: neq_Nil_conv)
  have "i \<in> set (i # is)" by simp
  then have "i < length xs \<and> P (xs ! i)" unfolding f [symmetric] by simp
  then show ?thesis using f by (simp add: find_index_def)
qed

lemma jump_present:
  assumes "gotos_present sq" and "i < length (sq_steps sq)" and "k < length (sp_branches (sq_steps sq ! i))"
  shows "jump_of sq i (Some (sp_branches (sq_steps sq ! i) ! k)) \<noteq> Some None"
proof -
  let ?rl = "sp_branches (sq_steps sq ! i) ! k"
  have "case rl_then ?rl of Goto t _ _ \<Rightarrow> \<exists>st' \<in> set (sq_steps sq). sp_id st' = t | _ \<Rightarrow> True"
    using assms(1) nth_mem [OF assms(2)] nth_mem [OF assms(3)] unfolding gotos_present_def by blast
  then show ?thesis
  proof (cases "rl_then ?rl")
    case (Goto t m d)
    with \<open>case rl_then ?rl of Goto t _ _ \<Rightarrow> \<exists>st' \<in> set (sq_steps sq). sp_id st' = t | _ \<Rightarrow> True\<close>
    obtain k where "find_index (\<lambda>st. sp_id st = t) (sq_steps sq) = Some k"
      using find_index_present [of "sq_steps sq" "\<lambda>st. sp_id st = t"] by auto
    with Goto show ?thesis by (simp add: jump_of_def)
  qed (simp_all add: jump_of_def)
qed

lemma send_step_ok:
  assumes "gotos_present sq" and "rs_cursor s < length (sq_steps sq)"
  shows "\<exists>s'. send_step h sq s = Inr s'"
proof -
  let ?step = "sq_steps sq ! rs_cursor s"
  obtain res subject b where res: "run_step h ?step (rs_cursor s) (attempt_of s (sp_id ?step)) (rs_step_runs s)
      (base_at h sq (rs_cursor s)) (rs_bag s) = (res, subject, b)" by (metis prod_cases3)
  obtain branch fd where br: "decide h s ?step subject (sr_outcome res) = (branch, fd)" by fastforce
  have "go_on h sq (rs_cursor s) (fires branch) (jump_of sq (rs_cursor s) (map_option (\<lambda>d. sp_branches ?step ! dc_rule d) branch))
      oc t \<noteq> Inl No_such_step" for oc t
  proof (cases "fires branch")
    case (Some d)
    then have "branch = Some d" and "dc_rule d < length (sp_branches ?step)"
      using decide_fires [OF br] by (auto simp: fires_rule_def)
    then show ?thesis using Some jump_present [OF assms, of "dc_rule d"]
      by (auto simp: go_on_def split: option.splits)
  qed (simp add: go_on_def)
  moreover have "r \<noteq> Inl No_such_step \<Longrightarrow> \<exists>s'. r = Inr s'" for r :: "(run_error, run_state) result"
    by (cases r) (auto, metis run_error.exhaust)
  ultimately show ?thesis by (simp add: send_step_def Let_def res br)
qed

lemma loop_body_ok:
  assumes "gotos_present sq" and "rs_cursor s < length (sq_steps sq)"
  shows "\<exists>s'. loop_body h sq s = Inr s'"
  using send_step_ok [OF assms] by (auto simp: loop_body_def Let_def split: option.split)

definition sent_count :: "step_result list \<Rightarrow> nat" where
  "sent_count rs = length (filter was_sent rs)"

lemma sent_count_simps [simp]:
  "sent_count [] = 0" "sent_count (xs @ ys) = sent_count xs + sent_count ys"
  "sent_count (r # rs) = (if was_sent r then 1 else 0) + sent_count rs"
  "sent_count (map (\<lambda>i. skipped_result (f i) why) is) = 0"
  by (auto simp: sent_count_def filter_empty_conv)

lemma sent_count_mark [simp]: "sent_count (mark_retried rs p) = sent_count rs"
proof -
  have "map was_sent (mark_retried rs p) = map was_sent rs"
    by (rule nth_equalityI) simp_all
  moreover have "sent_count xs = length (filter id (map was_sent xs))" for xs
    by (simp add: sent_count_def filter_map comp_def)
  ultimately show ?thesis by metis
qed

definition bound_inv :: "run_state \<Rightarrow> bool" where
  "bound_inv s \<longleftrightarrow> sent_count (rs_steps s) \<le> rs_step_runs s \<and> rs_step_runs s \<le> STEP_RUNS"

lemma loop_body_bound_inv:
  assumes inv: "bound_inv s" and b: "loop_body h sq s = Inr s'"
  shows "bound_inv s'"
  using b
proof (cases rule: loop_bodyE)
  case sent
  from sent(3) show ?thesis
    by (rule send_stepE) (use inv sent(2) in \<open>auto simp: bound_inv_def\<close>)
qed (use inv in \<open>auto simp: bound_inv_def\<close>)

text \<open>C20: A run always ends with a result, and sends at most a thousand times, whatever loops the branches describe and whatever
  the host answers; of the file it needs only what the parser checks, that every \<^verbatim>\<open>goto\<close> names a step of the
  sequence.\<close>

theorem sequence_run_ends:
  assumes g: "gotos_present sq"
  shows "\<exists>r. run_sequence h sq = Inr r \<and> sent_count (rr_steps r) \<le> STEP_RUNS"
proof -
  have "\<exists>s. run_loop h sq run_start = Inr s"
    by (rule run_loop_errorless [where I = "\<lambda>_. True"]) (use loop_body_ok [OF g] in auto)
  then obtain s where s: "run_loop h sq run_start = Inr s" ..
  have "bound_inv run_start" by (simp add: bound_inv_def run_start_def)
  with loop_body_bound_inv have "bound_inv s" using s by (rule run_loop_invariant)
  then show ?thesis using s by (auto simp: run_sequence_def bound_inv_def)
qed

section \<open>Stopping on a failure\<close>

definition stopping :: "step_result \<Rightarrow> bool" where
  "stopping r \<longleftrightarrow> was_sent r \<and> (sr_outcome r = Failed \<or> sr_outcome r = Errored) \<and>
     fires (map_option fst (sr_branch r)) = None"

definition stop_inv :: "run_state \<Rightarrow> bool" where
  "stop_inv s \<longleftrightarrow> (\<forall>a < length (rs_steps s). stopping (rs_steps s ! a) \<longrightarrow>
     rs_stopped s \<and> (\<forall>b. a < b \<and> b < length (rs_steps s) \<longrightarrow> sr_skipped (rs_steps s ! b) \<noteq> None))"

lemma stopping_mark [simp]: "a < length rs \<Longrightarrow> stopping (mark_retried rs p ! a) = stopping (rs ! a)"
  by (simp add: stopping_def)

lemma not_stopping [simp]: "\<not> stopping (skipped_result r why)" "\<not> stopping (errored r LIMIT_ERROR)"
  by (simp_all add: stopping_def)

lemma stopping_decorated:
  "stopping (decorated res n branch jump) \<Longrightarrow>
     (sr_outcome res = Failed \<or> sr_outcome res = Errored) \<and> fires branch = None"
  by (cases branch) (auto simp: stopping_def option.map_comp comp_def)

lemma loop_body_stop_inv:
  assumes inv: "stop_inv s" and f: "sq_stop_on_failure sq" and b: "loop_body h sq s = Inr s'"
  shows "stop_inv s'"
  using b
proof (cases rule: loop_bodyE)
  case skip
  then show ?thesis using inv unfolding stop_inv_def by (auto simp: nth_append less_Suc_eq)
next
  case limit
  then have "\<not> rs_stopped s" by (simp add: skip_reason_of_def split: if_splits)
  then show ?thesis using limit inv unfolding stop_inv_def by (auto simp: nth_append less_Suc_eq)
next
  case sent
  then have ns: "\<not> rs_stopped s" by (simp add: skip_reason_of_def split: if_splits)
  then have old: "a < length (rs_steps s) \<Longrightarrow> \<not> stopping (rs_steps s ! a)" for a
    using inv by (auto simp: stop_inv_def)
  let ?step = "sq_steps sq ! rs_cursor s" and ?n = "length (rs_steps s)"
  from sent(3) obtain res branch jump passed where
    steps: "rs_steps s' = mark_retried (rs_steps s) (jsget (rs_latest s) (sp_id ?step)) @
       [decorated res (attempt_of s (sp_id ?step)) branch jump] @
       map (\<lambda>i. skipped_result (base_at h sq i) By_branch) passed"
    and st: "rs_stopped s' \<longleftrightarrow> rs_stopped s \<or> fires branch = None \<and> sq_stop_on_failure sq \<and>
       (sr_outcome res = Failed \<or> sr_outcome res = Errored)"
    and passed: "fires branch = None \<longrightarrow> passed = []"
    by (rule send_stepE) (assumption | rule that)+
  show ?thesis
    unfolding stop_inv_def
  proof (intro allI impI)
    fix a assume a: "a < length (rs_steps s')" "stopping (rs_steps s' ! a)"
    have "a = ?n"
    proof (rule ccontr)
      assume ne: "a \<noteq> ?n"
      then consider "a < ?n" | "a > ?n" by linarith
      then show False
      proof cases
        case 1
        then show False using a old by (simp add: steps nth_append)
      next
        case 2
        then have "rs_steps s' ! a = map (\<lambda>i. skipped_result (base_at h sq i) By_branch) passed ! (a - Suc ?n)"
          "a - Suc ?n < length passed"
          using a(1) by (auto simp: steps nth_append nth_Cons')
        then show False using a(2) by simp
      qed
    qed
    then have "stopping (decorated res (attempt_of s (sp_id ?step)) branch jump)"
      using a(2) by (simp add: steps nth_append)
    then have "fires branch = None" "sr_outcome res = Failed \<or> sr_outcome res = Errored"
      using stopping_decorated by blast+
    then show "rs_stopped s' \<and> (\<forall>b. a < b \<and> b < length (rs_steps s') \<longrightarrow> sr_skipped (rs_steps s' ! b) \<noteq> None)"
      using st f passed \<open>a = ?n\<close> by (auto simp: steps less_Suc_eq)
  qed
qed

text \<open>With \<^verbatim>\<open>stopOnFailure\<close>, once a step has failed or errored and none of its rules took over, nothing is sent any more:
  every later result of the run is a skipped one.\<close>

theorem stop_on_failure_stops:
  assumes r: "run_sequence h sq = Inr r" and f: "sq_stop_on_failure sq"
    and a: "a < length (rr_steps r)" "stopping (rr_steps r ! a)"
    and b: "a < b" "b < length (rr_steps r)"
  shows "sr_skipped (rr_steps r ! b) \<noteq> None"
proof -
  from r obtain s where s: "run_loop h sq run_start = Inr s" "rr_steps r = rs_steps s" by (rule run_sequenceE)
  have "stop_inv run_start" by (simp add: stop_inv_def run_start_def)
  with loop_body_stop_inv [OF _ f] have "stop_inv s" using s(1) by (rule run_loop_invariant)
  then show ?thesis using a b unfolding stop_inv_def s(2) [symmetric] by blast
qed

section \<open>What a result may show\<close>

definition shown_ok :: "('u, 'c) host \<Rightarrow> transfer_result list \<Rightarrow> bool" where
  "shown_ok h xs \<longleftrightarrow> (\<forall>x \<in> set xs. \<forall>v. tx_value x = Some v \<longrightarrow> \<not> tx_secret x \<and> \<not> known_secret h v)"

definition result_ok :: "('u, 'c) host \<Rightarrow> 'c sequence \<Rightarrow> step_result \<Rightarrow> bool" where
  "result_ok h sq r \<longleftrightarrow>
     (was_sent r \<longrightarrow> sr_index r < length (sq_steps sq) \<and> sp_enabled (sq_steps sq ! sr_index r)) \<and>
     shown_ok h (sr_transfers r)"

lemma do_transfer_ok: "shown_ok h (lf_results l) \<Longrightarrow> shown_ok h (lf_results (do_transfer h u l t))"
  by (auto simp: shown_ok_def do_transfer_def Let_def split: extracted.splits)

lemma do_transfers_ok: "shown_ok h (lf_results l) \<Longrightarrow> shown_ok h (lf_results (foldl (do_transfer h u) l ts))"
  by (induction ts arbitrary: l) (simp_all add: do_transfer_ok)

lemma finish_step_shown: "finish_step h step cs base b st = (res, subject, b') \<Longrightarrow> shown_ok h (sr_transfers res)"
  using do_transfers_ok [of h "\<lparr>lf_bag = merge_script_values h b (se_script_values st), lf_results = [], lf_error = None\<rparr>"
      "se_subject st" "sp_transfers step"]
  by (auto simp: finish_step_def Let_def shown_ok_def [of h "[]"])

lemma run_step_transfers:
  assumes "run_step h step i n k base b = (res, subject, b')" and "sr_transfers base = []"
  shows "shown_ok h (sr_transfers res)"
  using assms finish_step_shown
  by (fastforce simp: run_step_def shown_ok_def [of h "[]"] split: target.splits sum.splits)

lemma result_ok_skipped [simp]: "result_ok h sq (skipped_result (base_at h sq i) why)"
  by (simp add: result_ok_def shown_ok_def)

lemma result_ok_mark: "\<forall>r \<in> set rs. result_ok h sq r \<Longrightarrow> \<forall>r \<in> set (mark_retried rs p). result_ok h sq r"
  by (simp add: all_set_conv_all_nth result_ok_def)

lemma loop_body_results_ok:
  assumes inv: "\<forall>r \<in> set (rs_steps s). result_ok h sq r" and c: "rs_cursor s < length (sq_steps sq)"
    and b: "loop_body h sq s = Inr s'"
  shows "\<forall>r \<in> set (rs_steps s'). result_ok h sq r"
  using b
proof (cases rule: loop_bodyE)
  case limit
  then show ?thesis using inv by (simp add: result_ok_def shown_ok_def)
next
  case sent
  let ?step = "sq_steps sq ! rs_cursor s"
  from sent(3) obtain res subject b branch jump passed where
    run: "run_step h ?step (rs_cursor s) (attempt_of s (sp_id ?step)) (rs_step_runs s) (base_at h sq (rs_cursor s)) (rs_bag s) = (res, subject, b)"
    and steps: "rs_steps s' = mark_retried (rs_steps s) (jsget (rs_latest s) (sp_id ?step)) @
       [decorated res (attempt_of s (sp_id ?step)) branch jump] @
       map (\<lambda>i. skipped_result (base_at h sq i) By_branch) passed"
    by (rule send_stepE) blast
  have "sp_enabled ?step" using sent(1) by (simp add: skip_reason_of_def split: if_splits)
  then have "result_ok h sq (decorated res (attempt_of s (sp_id ?step)) branch jump)"
    using run_step_transfers [OF run] run_step_base [OF run] c by (simp add: result_ok_def)
  then show ?thesis using result_ok_mark [OF inv] by (auto simp: steps)
qed (use inv in auto)


section \<open>Witnesses\<close>

text \<open>
  A host whose every request exists and whose every send errors, and a one-step sequence that repeats the
  step once on an error; the second host's signal is aborted at its third reading, while the rule waits.
\<close>

definition sample_host :: "(nat \<Rightarrow> bool) \<Rightarrow> (unit, unit) host" where
  "sample_host ab = \<lparr>find_request = (\<lambda>_. Found ''r'' []), send = (\<lambda>_ _ _ _. Inl (''e'', ''m'')),
     evaluate = (\<lambda>_ _. Passed), is_callback = (\<lambda>_. False), lift = (\<lambda>_ _. Missing),
     known_secret = (\<lambda>_. False), utf8_length = length, aborted = ab\<rparr>"

definition sample_step :: "unit seq_step" where
  "sample_step = \<lparr>sp_id = ''s'', sp_name = None, sp_request_id = ''q'', sp_enabled = True, sp_request_assertions = True,
     sp_transfers = [], sp_assertions = [],
     sp_branches = [\<lparr>rl_when = Outcome_is [Errored], rl_not = False, rl_then = Repeat 1 None\<rparr>]\<rparr>"

definition sample_sequence :: "unit sequence" where
  "sample_sequence = \<lparr>sq_id = ''i'', sq_name = ''n'', sq_stop_on_failure = True, sq_steps = [sample_step]\<rparr>"

definition error_run :: "nat \<Rightarrow> bool \<Rightarrow> decision \<Rightarrow> step_result" where
  "error_run attempt retried d = \<lparr>sr_index = 0, sr_step_id = ''s'', sr_request_id = ''q'', sr_name = ''r'',
     sr_outcome = Errored, sr_assertions = [], sr_transfers = [], sr_error = Some (''e'', ''m''), sr_skipped = None,
     sr_attempt = (if 1 < attempt then Some attempt else None), sr_retried = retried, sr_branch = Some (d, Some 0)\<rparr>"

definition repeat_once :: "bool \<Rightarrow> decision" where
  "repeat_once full = \<lparr>dc_rule = 0, dc_action = Act_repeat, dc_count = 1, dc_max = Some 1, dc_limit_reached = full\<rparr>"

definition steps_of :: "(run_error, run_result) result \<Rightarrow> step_result list" where
  "steps_of r = (case r of Inl _ \<Rightarrow> [] | Inr x \<Rightarrow> rr_steps x)"

lemma sample_steps:
  "steps_of (run_sequence (sample_host (\<lambda>_. False)) sample_sequence) =
     [error_run 1 True (repeat_once False), error_run 2 False (repeat_once True)]"
  by code_simp

lemma sample_run:
  "\<exists>r. run_sequence (sample_host (\<lambda>_. False)) sample_sequence = Inr r \<and>
     rr_steps r = [error_run 1 True (repeat_once False), error_run 2 False (repeat_once True)]"
  using sample_steps by (cases "run_sequence (sample_host (\<lambda>_. False)) sample_sequence") (auto simp: steps_of_def)

theorem rule_fires_at_most_max_witness:
  "times_fired ''s'' 0 [error_run 1 True (repeat_once False), error_run 2 False (repeat_once True)] \<le> 1"
proof -
  obtain r where r: "run_sequence (sample_host (\<lambda>_. False)) sample_sequence = Inr r"
    "rr_steps r = [error_run 1 True (repeat_once False), error_run 2 False (repeat_once True)]" using sample_run by blast
  have "times_fired (sp_id sample_step) 0 (rr_steps r) \<le> 1"
    by (rule rule_fires_at_most_max [OF r(1)]) (simp_all add: sample_sequence_def sample_step_def)
  then show ?thesis using r(2) by (simp only: sample_step_def seq_step.simps)
qed

theorem only_last_run_counts_witness:
  "\<exists>r. run_sequence (sample_host (\<lambda>_. False)) sample_sequence = Inr r \<and> sr_retried (rr_steps r ! 0)"
proof -
  obtain r where r: "run_sequence (sample_host (\<lambda>_. False)) sample_sequence = Inr r"
    "rr_steps r = [error_run 1 True (repeat_once False), error_run 2 False (repeat_once True)]" using sample_run by blast
  have "sr_retried (rr_steps r ! 0)"
    by (rule only_last_run_counts [OF r(1), of 0 1])
       (simp_all add: r(2) was_sent_def error_run_def LIMIT_ERROR_def)
  with r(1) show ?thesis by blast
qed

lemma sample_gotos: "gotos_present sample_sequence"
  by (simp add: gotos_present_def sample_sequence_def sample_step_def)

theorem sequence_run_ends_witness: "\<exists>r. run_sequence (sample_host (\<lambda>_. True)) sample_sequence = Inr r"
  using sequence_run_ends [OF sample_gotos] by blast

text \<open>A sequence without branches that stops at its first failing step.\<close>

definition plain_sequence :: "unit sequence" where
  "plain_sequence = sample_sequence\<lparr>sq_steps := [sample_step\<lparr>sp_branches := []\<rparr>, sample_step\<lparr>sp_branches := []\<rparr>]\<rparr>"

lemma plain_steps:
  "case steps_of (run_sequence (sample_host (\<lambda>_. False)) plain_sequence) of [x, y] \<Rightarrow> stopping x | _ \<Rightarrow> False"
  by code_simp

lemma plain_run:
  "\<exists>r x y. run_sequence (sample_host (\<lambda>_. False)) plain_sequence = Inr r \<and> rr_steps r = [x, y] \<and> stopping x"
  using plain_steps by (cases "run_sequence (sample_host (\<lambda>_. False)) plain_sequence")
    (auto simp: steps_of_def split: list.splits)

theorem stop_on_failure_stops_witness:
  "\<exists>r x y. run_sequence (sample_host (\<lambda>_. False)) plain_sequence = Inr r \<and> rr_steps r = [x, y] \<and> sr_skipped y \<noteq> None"
proof -
  obtain r x y where r: "run_sequence (sample_host (\<lambda>_. False)) plain_sequence = Inr r" "rr_steps r = [x, y]" "stopping x"
    using plain_run by blast
  have "sr_skipped (rr_steps r ! 1) \<noteq> None"
    by (rule stop_on_failure_stops [OF r(1), of 0 1]) (simp_all add: r plain_sequence_def sample_sequence_def)
  with r show ?thesis by auto
qed


text \<open>
  A repeat is marked as superseded when it is reported, before the step runs again. When the run is cancelled
  while the rule waits, the step is not run again, and the run whose only send errored ends as skipped.
\<close>

lemma cancelled_repeat_hides_error:
  "case run_sequence (sample_host (\<lambda>n. 2 \<le> n)) sample_sequence of
     Inr r \<Rightarrow> rr_outcome r = Skipped \<and> map sr_outcome (filter was_sent (rr_steps r)) = [Errored] | Inl _ \<Rightarrow> False"
  by code_simp

end
