(* ===== verification/Share_Registry.thy ===== *)
theory Share_Registry
  imports Text Machine
begin

text \<open>
  \<^verbatim>\<open>packages/server/src/terminal-shares/registry.ts\<close>: the terminal shares a server relays. Share objects live in
  a heap, which is what the closures and the loops that were suspended refer to; \<^verbatim>\<open>shares\<close> is the list of
  the keys of the live ones in insertion order and \<^verbatim>\<open>byPeer\<close> maps a socket to its share's key. A socket is a
  number. Everything sent, closed, pinged or audited is appended to the list of effects. The checks of
  \<^verbatim>\<open>recheck\<close> that were suspended at an \<^verbatim>\<open>await\<close> are steps of their own, so other steps may come in between.
\<close>

section \<open>The replay buffer\<close>

record replay_buffer =
  rb_cap :: nat
  rb_chunks :: "bytes list"
  rb_size :: nat

definition new_replay :: "nat \<Rightarrow> replay_buffer" where
  "new_replay cap = \<lparr>rb_cap = cap, rb_chunks = [], rb_size = 0\<rparr>"

text \<open>The loop that drops the oldest bytes; an empty list, which the loop never meets, ends it.\<close>

fun rb_trim :: "nat \<Rightarrow> bytes list \<Rightarrow> nat \<Rightarrow> bytes list \<times> nat" where
  "rb_trim cap [] n = ([], n)"
| "rb_trim cap (c # cs) n =
     (if n \<le> cap then (c # cs, n)
      else let over = n - cap in
        if length c \<le> over then rb_trim cap cs (n - length c)
        else (drop over c # cs, n - over))"

definition rb_push :: "replay_buffer \<Rightarrow> bytes \<Rightarrow> replay_buffer" where
  "rb_push b d =
     (if length d \<ge> rb_cap b then b\<lparr>rb_chunks := [drop (length d - rb_cap b) d], rb_size := rb_cap b\<rparr>
      else let (cs, n) = rb_trim (rb_cap b) (rb_chunks b @ [d]) (rb_size b + length d) in
           b\<lparr>rb_chunks := cs, rb_size := n\<rparr>)"

text \<open>\<^verbatim>\<open>Buffer.concat(chunks, size)\<close> cuts or pads to the size it is given.\<close>

definition rb_contents :: "replay_buffer \<Rightarrow> bytes" where
  "rb_contents b = (let bs = concat (rb_chunks b) in take (rb_size b) bs @ replicate (rb_size b - length bs) 0)"

section \<open>Shares\<close>

type_synonym peer = nat
text \<open>\<^verbatim>\<open>tenantId:shareId\<close>; share ids have no colon, so the parts are read off.\<close>

datatype share_key = Share_key string string

record identity =
  wh_user :: string
  wh_name :: string
  wh_token :: string
  wh_expires :: int
  wh_source :: string

record member =
  mb_peer :: peer
  mb_who :: identity
  mb_alive :: bool

record viewer =
  vw_who :: identity
  vw_alive :: bool
  vw_requesting :: bool
  vw_inputs :: nat
  vw_window :: int

record share =
  sh_id :: string
  sh_workspace :: string
  sh_tenant :: string
  sh_host :: string
  sh_owner_id :: string
  sh_owner_name :: string
  sh_owner_source :: string
  sh_cols :: nat
  sh_rows :: nat
  sh_owner :: "member option"
  sh_viewers :: "(peer, viewer) jsmap"
  sh_control :: "peer option"
  sh_removed :: "string list"
  sh_joined :: "string list"
  sh_replay :: replay_buffer
  sh_timer :: bool

definition REPLAY_BYTES :: nat where "REPLAY_BYTES = 262144"
definition MAX_VIEWERS :: nat where "MAX_VIEWERS = 20"
definition INPUTS_PER_SECOND :: nat where "INPUTS_PER_SECOND = 64"
definition CLOSE_ENDED :: nat where "CLOSE_ENDED = 4410"
definition CLOSE_UNAUTHENTICATED :: nat where "CLOSE_UNAUTHENTICATED = 4401"
definition CLOSE_FORBIDDEN :: nat where "CLOSE_FORBIDDEN = 4403"

datatype end_reason = Owner_left | Revoked | Access | Removed | Over | Server

datatype server_message =
    Ready
  | Viewer_ready string string nat nat
  | Control "string option"
  | Presence string string "(string \<times> string \<times> bool \<times> bool) list"
  | Pong
  | Resize nat nat
  | Declined
  | Ended end_reason
  | Input string string

datatype client_message =
    C_ping
  | C_resize nat nat
  | C_grant string
  | C_decline string
  | C_take_back
  | C_remove string
  | C_end
  | C_request_control
  | C_release
  | C_input string
  | C_other

datatype return_by = By_grant | By_owner | By_viewer | By_left | By_removed | By_access

datatype audit_detail =
    Started
  | Joined string
  | Control_granted string
  | Control_returned string return_by
  | Viewer_removed string
  | Share_ended end_reason nat

datatype effect =
    Send_text peer server_message
  | Send_binary peer bytes
  | Close peer nat
  | Terminate peer
  | Ping peer
  | Audit share_key string string audit_detail
  | Location_gone share_key

record registry =
  rg_heap :: "(share_key, share) jsmap"
  rg_live :: "share_key list"
  rg_by_peer :: "(peer, share_key) jsmap"
  rg_out :: "effect list"

definition new_registry :: registry where
  "new_registry = \<lparr>rg_heap = [], rg_live = [], rg_by_peer = [], rg_out = []\<rparr>"

definition key_of :: "share \<Rightarrow> share_key" where
  "key_of sh = Share_key (sh_tenant sh) (sh_id sh)"

definition emit :: "registry \<Rightarrow> effect list \<Rightarrow> registry" where
  "emit r es = r\<lparr>rg_out := rg_out r @ es\<rparr>"

definition put_share :: "registry \<Rightarrow> share_key \<Rightarrow> share \<Rightarrow> registry" where
  "put_share r k sh = r\<lparr>rg_heap := jsset (rg_heap r) k sh\<rparr>"

definition owner_peer :: "share \<Rightarrow> peer option" where
  "owner_peer sh = map_option mb_peer (sh_owner sh)"

definition viewer_peers :: "share \<Rightarrow> peer list" where
  "viewer_peers sh = jskeys (sh_viewers sh)"

definition owner_peers :: "share \<Rightarrow> peer list" where
  "owner_peers sh = (case owner_peer sh of None \<Rightarrow> [] | Some p \<Rightarrow> [p])"

section \<open>What is sent\<close>

definition audit :: "share \<Rightarrow> string \<Rightarrow> audit_detail \<Rightarrow> effect" where
  "audit sh source d = Audit (key_of sh) (sh_workspace sh) source d"

definition presence_of :: "share \<Rightarrow> server_message" where
  "presence_of sh = Presence (sh_owner_id sh) (sh_owner_name sh)
     (map (\<lambda>(p, v). (wh_user (vw_who v), wh_name (vw_who v), sh_control sh = Some p, vw_requesting v)) (sh_viewers sh))"

definition to_viewers :: "share \<Rightarrow> server_message \<Rightarrow> effect list" where
  "to_viewers sh m = map (\<lambda>p. Send_text p m) (viewer_peers sh)"

definition to_all :: "share \<Rightarrow> server_message \<Rightarrow> effect list" where
  "to_all sh m = map (\<lambda>p. Send_text p m) (owner_peers sh @ viewer_peers sh)"

definition send_presence :: "share \<Rightarrow> effect list" where
  "send_presence sh = to_all sh (presence_of sh)"

definition control_user :: "share \<Rightarrow> string option" where
  "control_user sh = (case sh_control sh of None \<Rightarrow> None
     | Some p \<Rightarrow> map_option (\<lambda>v. wh_user (vw_who v)) (jsget (sh_viewers sh) p))"

definition send_control :: "share \<Rightarrow> effect list" where
  "send_control sh = to_all sh (Control (control_user sh)) @ send_presence sh"

text \<open>\<^verbatim>\<open>dropControl\<close>, for a share whose control is held by \<open>holder\<close>.\<close>

definition drop_control :: "share \<Rightarrow> string \<Rightarrow> string \<Rightarrow> return_by \<Rightarrow> share \<times> effect list" where
  "drop_control sh holder source why =
     (let sh' = sh\<lparr>sh_control := None\<rparr> in (sh', audit sh source (Control_returned holder why) # send_control sh'))"

section \<open>Creating, looking up, attaching\<close>

record create_input =
  ci_workspace :: string
  ci_host :: string
  ci_cols :: nat
  ci_rows :: nat
  ci_owner_id :: string
  ci_owner_name :: string
  ci_source :: string
  ci_tenant :: string

definition new_share :: "string \<Rightarrow> create_input \<Rightarrow> share" where
  "new_share sid i = \<lparr>sh_id = sid, sh_workspace = ci_workspace i, sh_tenant = ci_tenant i, sh_host = ci_host i,
     sh_owner_id = ci_owner_id i, sh_owner_name = ci_owner_name i, sh_owner_source = ci_source i,
     sh_cols = ci_cols i, sh_rows = ci_rows i, sh_owner = None, sh_viewers = [], sh_control = None,
     sh_removed = [], sh_joined = [], sh_replay = new_replay REPLAY_BYTES, sh_timer = True\<rparr>"

definition create :: "registry \<Rightarrow> string \<Rightarrow> create_input \<Rightarrow> registry" where
  "create r sid i =
     (let sh = new_share sid i in
      emit (r\<lparr>rg_heap := jsset (rg_heap r) (key_of sh) sh, rg_live := jsadd (rg_live r) (key_of sh)\<rparr>)
        [audit sh (ci_source i) Started])"

text \<open>A live share, found in its own tenant and workspace only.\<close>

definition live_share :: "registry \<Rightarrow> share_key \<Rightarrow> share option" where
  "live_share r k = (if k \<in> set (rg_live r) then jsget (rg_heap r) k else None)"

definition in_tenant :: "share \<Rightarrow> string \<Rightarrow> string \<Rightarrow> bool" where
  "in_tenant sh tenant workspace \<longleftrightarrow> sh_tenant sh = tenant \<and> sh_workspace sh = workspace"

definition info :: "registry \<Rightarrow> string \<Rightarrow> string \<Rightarrow> string \<Rightarrow> string \<Rightarrow> (string \<times> string \<times> nat) option" where
  "info r tenant workspace sid user =
     (case live_share r (Share_key tenant sid) of
        None \<Rightarrow> None
      | Some sh \<Rightarrow> if \<not> in_tenant sh tenant workspace \<or> user \<in> set (sh_removed sh) then None
          else Some (sh_host sh, sh_owner_name sh, length (sh_viewers sh)))"

datatype attach_outcome = As_owner | As_viewer | Not_found | Was_removed | Owner_taken | Full

definition attach_owner :: "registry \<Rightarrow> share_key \<Rightarrow> share \<Rightarrow> peer \<Rightarrow> identity \<Rightarrow> registry" where
  "attach_owner r k sh p who =
     (let sh' = sh\<lparr>sh_timer := False, sh_owner := Some \<lparr>mb_peer = p, mb_who = who, mb_alive = True\<rparr>\<rparr> in
      emit ((put_share r k sh')\<lparr>rg_by_peer := jsset (rg_by_peer r) p k\<rparr>) (Send_text p Ready # send_presence sh'))"

definition attach_viewer :: "registry \<Rightarrow> share_key \<Rightarrow> share \<Rightarrow> peer \<Rightarrow> identity \<Rightarrow> registry" where
  "attach_viewer r k sh p who =
     (let v = \<lparr>vw_who = who, vw_alive = True, vw_requesting = False, vw_inputs = 0, vw_window = 0\<rparr>;
          sh' = sh\<lparr>sh_viewers := jsset (sh_viewers sh) p v, sh_joined := jsadd (sh_joined sh) (wh_user who)\<rparr>;
          replay = rb_contents (sh_replay sh') in
      emit ((put_share r k sh')\<lparr>rg_by_peer := jsset (rg_by_peer r) p k\<rparr>)
        ([Send_text p (Viewer_ready (sh_host sh') (sh_owner_name sh') (sh_cols sh') (sh_rows sh'))] @
         (if replay \<noteq> [] then [Send_binary p replay] else []) @
         [Send_text p (Control (control_user sh'))] @ send_presence sh' @
         [audit sh' (wh_source who) (Joined (wh_user who))]))"

definition attach :: "registry \<Rightarrow> string \<Rightarrow> peer \<Rightarrow> identity \<Rightarrow> string \<Rightarrow> string \<Rightarrow> registry \<times> attach_outcome" where
  "attach r tenant p who workspace sid =
     (let k = Share_key tenant sid in
      case live_share r k of
        None \<Rightarrow> (r, Not_found)
      | Some sh \<Rightarrow>
          if \<not> in_tenant sh tenant workspace then (r, Not_found)
          else if wh_user who = sh_owner_id sh then
            (if sh_owner sh \<noteq> None then (r, Owner_taken) else (attach_owner r k sh p who, As_owner))
          else if wh_user who \<in> set (sh_removed sh) then (r, Was_removed)
          else if length (sh_viewers sh) \<ge> MAX_VIEWERS then (r, Full)
          else (attach_viewer r k sh p who, As_viewer))"

section \<open>Ending and dismissing\<close>

text \<open>\<open>is_open\<close> is what each socket answers when asked; \<open>code\<close> replaces the usual close code.\<close>

definition end_share ::
    "(peer \<Rightarrow> bool) \<Rightarrow> registry \<Rightarrow> share_key \<Rightarrow> end_reason \<Rightarrow> string \<Rightarrow> nat option \<Rightarrow> registry" where
  "end_share is_open r k reason source code =
     (case live_share r k of
        None \<Rightarrow> r
      | Some sh \<Rightarrow>
          let members = viewer_peers sh @ owner_peers sh in
          emit (r\<lparr>rg_live := jsremove (rg_live r) k, rg_heap := jsset (rg_heap r) k (sh\<lparr>sh_timer := False\<rparr>),
                  rg_by_peer := foldl jsdelete (rg_by_peer r) members\<rparr>)
            (concat (map (\<lambda>p. [Send_text p (Ended reason), Close p (case code of None \<Rightarrow> CLOSE_ENDED | Some c \<Rightarrow> c)])
               (filter is_open members)) @
             [audit sh source (Share_ended reason (length (sh_joined sh))), Location_gone k]))"

text \<open>\<^verbatim>\<open>dismiss\<close>, for the viewer \<open>v\<close> at socket \<open>p\<close>; it takes the share from the heap, live or not.\<close>

definition dismiss :: "registry \<Rightarrow> share_key \<Rightarrow> peer \<Rightarrow> viewer \<Rightarrow> end_reason \<Rightarrow> nat \<Rightarrow> registry" where
  "dismiss r k p v reason code =
     (case jsget (rg_heap r) k of
        None \<Rightarrow> r
      | Some sh \<Rightarrow>
          let sh1 = sh\<lparr>sh_viewers := jsdelete (sh_viewers sh) p\<rparr>;
              (sh2, es) = (if sh_control sh1 = Some p
                then drop_control sh1 (wh_user (vw_who v)) (wh_source (vw_who v))
                       (if reason = Removed then By_removed else By_access)
                else (sh1, [])) in
          emit ((put_share r k sh2)\<lparr>rg_by_peer := jsdelete (rg_by_peer r) p\<rparr>)
            (es @ [Send_text p (Ended reason), Close p code] @ send_presence sh2))"

definition detach :: "(peer \<Rightarrow> bool) \<Rightarrow> registry \<Rightarrow> peer \<Rightarrow> registry" where
  "detach is_open r p =
     (case jsget (rg_by_peer r) p of
        None \<Rightarrow> r
      | Some k \<Rightarrow>
          let r1 = r\<lparr>rg_by_peer := jsdelete (rg_by_peer r) p\<rparr> in
          (case jsget (rg_heap r) k of
             None \<Rightarrow> r1
           | Some sh \<Rightarrow>
               if owner_peer sh = Some p
               then end_share is_open r1 k Owner_left (wh_source (mb_who (the (sh_owner sh)))) None
               else (case jsget (sh_viewers sh) p of
                   None \<Rightarrow> r1
                 | Some v \<Rightarrow>
                     let sh1 = sh\<lparr>sh_viewers := jsdelete (sh_viewers sh) p\<rparr>;
                         (sh2, es) = (if sh_control sh1 = Some p
                           then drop_control sh1 (wh_user (vw_who v)) (wh_source (vw_who v)) By_left else (sh1, [])) in
                     emit (put_share r1 k sh2) (es @ send_presence sh2))))"

text \<open>The timer of a share whose owner never attached.\<close>

definition attach_timeout :: "(peer \<Rightarrow> bool) \<Rightarrow> registry \<Rightarrow> share_key \<Rightarrow> registry" where
  "attach_timeout is_open r k =
     (case jsget (rg_heap r) k of
        None \<Rightarrow> r
      | Some sh \<Rightarrow>
          if \<not> sh_timer sh then r
          else let r1 = put_share r k (sh\<lparr>sh_timer := False\<rparr>) in
            if sh_owner sh = None then end_share is_open r1 k Owner_left (sh_owner_source sh) None else r1)"

definition abandon :: "(peer \<Rightarrow> bool) \<Rightarrow> registry \<Rightarrow> string \<Rightarrow> string \<Rightarrow> registry" where
  "abandon is_open r tenant sid =
     (case live_share r (Share_key tenant sid) of
        None \<Rightarrow> r | Some sh \<Rightarrow> end_share is_open r (Share_key tenant sid) Over (sh_owner_source sh) None)"

section \<open>Messages\<close>

definition output_frame :: "registry \<Rightarrow> peer \<Rightarrow> bytes \<Rightarrow> registry \<times> bool" where
  "output_frame r p d =
     (case jsget (rg_by_peer r) p of
        None \<Rightarrow> (r, False)
      | Some k \<Rightarrow> (case jsget (rg_heap r) k of
          None \<Rightarrow> (r, False)
        | Some sh \<Rightarrow>
            if owner_peer sh \<noteq> Some p then (r, False)
            else (emit (put_share r k (sh\<lparr>sh_replay := rb_push (sh_replay sh) d\<rparr>))
                    (map (\<lambda>q. Send_binary q d) (viewer_peers sh)), True)))"

text \<open>\<^verbatim>\<open>grant\<close>: the first viewer of that user who asked.\<close>

definition requesting_viewer :: "share \<Rightarrow> string \<Rightarrow> (peer \<times> viewer) option" where
  "requesting_viewer sh user =
     (case filter (\<lambda>(p, v). wh_user (vw_who v) = user \<and> vw_requesting v) (sh_viewers sh) of [] \<Rightarrow> None | pv # _ \<Rightarrow> Some pv)"

definition grant :: "registry \<Rightarrow> share_key \<Rightarrow> share \<Rightarrow> string \<Rightarrow> string \<Rightarrow> registry" where
  "grant r k sh source user =
     (case requesting_viewer sh user of
        None \<Rightarrow> r
      | Some (p, v) \<Rightarrow>
          let es = (case sh_control sh of
                None \<Rightarrow> []
              | Some q \<Rightarrow> if q = p then [] else
                  [audit sh source (Control_returned (case control_user sh of None \<Rightarrow> [] | Some u \<Rightarrow> u) By_grant)]);
              sh' = sh\<lparr>sh_viewers := jsset (sh_viewers sh) p (v\<lparr>vw_requesting := False\<rparr>), sh_control := Some p\<rparr> in
          emit (put_share r k sh') (es @ [audit sh' source (Control_granted user)] @ send_control sh'))"

definition decline :: "registry \<Rightarrow> share_key \<Rightarrow> share \<Rightarrow> string \<Rightarrow> registry" where
  "decline r k sh user =
     (let asked = (\<lambda>v. wh_user (vw_who v) = user \<and> vw_requesting v);
          sh' = sh\<lparr>sh_viewers := map (\<lambda>(p, v). (p, if asked v then v\<lparr>vw_requesting := False\<rparr> else v)) (sh_viewers sh)\<rparr> in
      emit (put_share r k sh')
        (map (\<lambda>(p, v). Send_text p Declined) (filter (\<lambda>(p, v). asked v) (sh_viewers sh)) @ send_presence sh'))"

definition remove_user :: "registry \<Rightarrow> share_key \<Rightarrow> share \<Rightarrow> string \<Rightarrow> string \<Rightarrow> registry" where
  "remove_user r k sh source user =
     (if user = sh_owner_id sh then r
      else let gone = filter (\<lambda>(p, v). wh_user (vw_who v) = user) (sh_viewers sh);
               r1 = put_share r k (sh\<lparr>sh_removed := jsadd (sh_removed sh) user\<rparr>);
               r2 = foldl (\<lambda>r (p, v). dismiss r k p v Removed CLOSE_FORBIDDEN) r1 gone in
           emit r2 [audit sh source (Viewer_removed user)])"

definition owner_message ::
    "(peer \<Rightarrow> bool) \<Rightarrow> registry \<Rightarrow> share_key \<Rightarrow> share \<Rightarrow> string \<Rightarrow> client_message \<Rightarrow> registry \<times> bool" where
  "owner_message is_open r k sh source m =
     (case m of
        C_resize c rw \<Rightarrow> (let sh' = sh\<lparr>sh_cols := c, sh_rows := rw\<rparr> in
          (emit (put_share r k sh') (to_viewers sh' (Resize c rw)), True))
      | C_grant user \<Rightarrow> (grant r k sh source user, True)
      | C_decline user \<Rightarrow> (decline r k sh user, True)
      | C_take_back \<Rightarrow>
          (case control_user sh of
             None \<Rightarrow> (r, True)
           | Some u \<Rightarrow> (let (sh', es) = drop_control sh u source By_owner in (emit (put_share r k sh') es, True)))
      | C_remove user \<Rightarrow> (remove_user r k sh source user, True)
      | C_end \<Rightarrow> (end_share is_open r k Over source None, True)
      | _ \<Rightarrow> (r, False))"

definition request_control :: "registry \<Rightarrow> share_key \<Rightarrow> share \<Rightarrow> peer \<Rightarrow> viewer \<Rightarrow> registry" where
  "request_control r k sh p v =
     (if sh_control sh \<noteq> Some p \<and> \<not> vw_requesting v
      then let sh' = sh\<lparr>sh_viewers := jsset (sh_viewers sh) p (v\<lparr>vw_requesting := True\<rparr>)\<rparr> in
        emit (put_share r k sh') (send_presence sh')
      else r)"

definition release :: "registry \<Rightarrow> share_key \<Rightarrow> share \<Rightarrow> peer \<Rightarrow> viewer \<Rightarrow> registry" where
  "release r k sh p v =
     (if sh_control sh = Some p
      then let (sh', es) = drop_control sh (wh_user (vw_who v)) (wh_source (vw_who v)) By_viewer in
        emit (put_share r k sh') es
      else if vw_requesting v
      then let sh' = sh\<lparr>sh_viewers := jsset (sh_viewers sh) p (v\<lparr>vw_requesting := False\<rparr>)\<rparr> in
        emit (put_share r k sh') (send_presence sh')
      else r)"

definition viewer_input :: "registry \<Rightarrow> share_key \<Rightarrow> share \<Rightarrow> peer \<Rightarrow> viewer \<Rightarrow> int \<Rightarrow> string \<Rightarrow> registry" where
  "viewer_input r k sh p v now d =
     (case sh_owner sh of
        None \<Rightarrow> r
      | Some owner \<Rightarrow>
          if sh_control sh \<noteq> Some p then r
          else let v1 = (if now - vw_window v \<ge> 1000 then v\<lparr>vw_window := now, vw_inputs := 0\<rparr> else v);
                   v2 = v1\<lparr>vw_inputs := vw_inputs v1 + 1\<rparr>;
                   r1 = put_share r k (sh\<lparr>sh_viewers := jsset (sh_viewers sh) p v2\<rparr>) in
            if vw_inputs v2 > INPUTS_PER_SECOND then r1
            else emit r1 [Send_text (mb_peer owner) (Input (wh_user (vw_who v)) d)])"

definition viewer_message ::
    "registry \<Rightarrow> share_key \<Rightarrow> share \<Rightarrow> peer \<Rightarrow> viewer \<Rightarrow> int \<Rightarrow> client_message \<Rightarrow> registry \<times> bool" where
  "viewer_message r k sh p v now m =
     (case m of
        C_request_control \<Rightarrow> (request_control r k sh p v, True)
      | C_release \<Rightarrow> (release r k sh p v, True)
      | C_input d \<Rightarrow> (viewer_input r k sh p v now d, True)
      | _ \<Rightarrow> (r, False))"

definition message :: "(peer \<Rightarrow> bool) \<Rightarrow> registry \<Rightarrow> peer \<Rightarrow> int \<Rightarrow> client_message \<Rightarrow> registry \<times> bool" where
  "message is_open r p now m =
     (case jsget (rg_by_peer r) p of
        None \<Rightarrow> (r, False)
      | Some k \<Rightarrow> (case jsget (rg_heap r) k of
          None \<Rightarrow> (r, False)
        | Some sh \<Rightarrow>
            if m = C_ping then (emit r [Send_text p Pong], True)
            else if owner_peer sh = Some p
            then owner_message is_open r k sh (wh_source (mb_who (the (sh_owner sh)))) m
            else (case jsget (sh_viewers sh) p of
                None \<Rightarrow> (r, False) | Some v \<Rightarrow> viewer_message r k sh p v now m)))"

section \<open>Heartbeat, ended sessions, rechecks, shutdown\<close>

definition pong :: "registry \<Rightarrow> peer \<Rightarrow> registry" where
  "pong r p =
     (case jsget (rg_by_peer r) p of
        None \<Rightarrow> r
      | Some k \<Rightarrow> (case jsget (rg_heap r) k of
          None \<Rightarrow> r
        | Some sh \<Rightarrow> (case sh_owner sh of
            Some ow \<Rightarrow> if mb_peer ow = p then put_share r k (sh\<lparr>sh_owner := Some (ow\<lparr>mb_alive := True\<rparr>)\<rparr>)
              else (case jsget (sh_viewers sh) p of None \<Rightarrow> r
                | Some v \<Rightarrow> put_share r k (sh\<lparr>sh_viewers := jsset (sh_viewers sh) p (v\<lparr>vw_alive := True\<rparr>)\<rparr>))
          | None \<Rightarrow> (case jsget (sh_viewers sh) p of None \<Rightarrow> r
                | Some v \<Rightarrow> put_share r k (sh\<lparr>sh_viewers := jsset (sh_viewers sh) p (v\<lparr>vw_alive := True\<rparr>)\<rparr>)))))"

text \<open>
  The body of the loop over a share's viewers, and over the shares. The loops run over a copy of the map;
  each viewer object is looked up as it is met, and no round of a loop takes another round's viewer away.
\<close>

definition viewer_at :: "registry \<Rightarrow> share_key \<Rightarrow> peer \<Rightarrow> (share \<times> viewer) option" where
  "viewer_at r k p = (case jsget (rg_heap r) k of
     None \<Rightarrow> None | Some sh \<Rightarrow> map_option (\<lambda>v. (sh, v)) (jsget (sh_viewers sh) p))"

definition beat_viewer :: "(peer \<Rightarrow> bool) \<Rightarrow> int \<Rightarrow> share_key \<Rightarrow> registry \<Rightarrow> peer \<Rightarrow> registry" where
  "beat_viewer is_open now k r p =
     (case viewer_at r k p of
        None \<Rightarrow> r
      | Some (sh, v) \<Rightarrow>
          if now \<ge> wh_expires (vw_who v) then dismiss r k p v Revoked CLOSE_UNAUTHENTICATED
          else if \<not> vw_alive v then detach is_open (emit r [Terminate p]) p
          else emit (put_share r k (sh\<lparr>sh_viewers := jsset (sh_viewers sh) p (v\<lparr>vw_alive := False\<rparr>)\<rparr>)) [Ping p])"

definition beat_owner :: "registry \<Rightarrow> share_key \<Rightarrow> registry" where
  "beat_owner r k =
     (case live_share r k of
        None \<Rightarrow> r
      | Some sh \<Rightarrow> (case sh_owner sh of
          None \<Rightarrow> r
        | Some ow \<Rightarrow> emit (put_share r k (sh\<lparr>sh_owner := Some (ow\<lparr>mb_alive := False\<rparr>)\<rparr>)) [Ping (mb_peer ow)]))"

definition beat_share :: "(peer \<Rightarrow> bool) \<Rightarrow> int \<Rightarrow> registry \<Rightarrow> share_key \<Rightarrow> registry" where
  "beat_share is_open now r k =
     (case jsget (rg_heap r) k of
        None \<Rightarrow> r
      | Some sh \<Rightarrow> (case sh_owner sh of
          Some ow \<Rightarrow>
            if \<not> mb_alive ow \<or> now \<ge> wh_expires (mb_who ow)
            then emit (end_share is_open r k (if now \<ge> wh_expires (mb_who ow) then Revoked else Owner_left)
                         (wh_source (mb_who ow)) None) [Terminate (mb_peer ow)]
            else beat_owner (foldl (beat_viewer is_open now k) r (viewer_peers sh)) k
        | None \<Rightarrow> foldl (beat_viewer is_open now k) r (viewer_peers sh)))"

definition heartbeat :: "(peer \<Rightarrow> bool) \<Rightarrow> registry \<Rightarrow> int \<Rightarrow> registry" where
  "heartbeat is_open r now = foldl (beat_share is_open now) r (rg_live r)"

datatype ended_event = Token_ended string | User_ended string "string option"

fun hit :: "ended_event \<Rightarrow> identity \<Rightarrow> bool" where
  "hit (Token_ended t) who = (wh_token who = t)"
| "hit (User_ended u except) who = (wh_user who = u \<and> Some (wh_token who) \<noteq> except)"

definition revoke_viewer :: "ended_event \<Rightarrow> share_key \<Rightarrow> registry \<Rightarrow> peer \<Rightarrow> registry" where
  "revoke_viewer ev k r p =
     (case viewer_at r k p of
        None \<Rightarrow> r
      | Some (sh, v) \<Rightarrow> if hit ev (vw_who v) then dismiss r k p v Revoked CLOSE_UNAUTHENTICATED else r)"

definition revoke_share :: "(peer \<Rightarrow> bool) \<Rightarrow> string \<Rightarrow> ended_event \<Rightarrow> registry \<Rightarrow> share_key \<Rightarrow> registry" where
  "revoke_share is_open tenant ev r k =
     (case jsget (rg_heap r) k of
        None \<Rightarrow> r
      | Some sh \<Rightarrow>
          if sh_tenant sh \<noteq> tenant then r
          else (case sh_owner sh of
              Some ow \<Rightarrow> if hit ev (mb_who ow) then end_share is_open r k Revoked (wh_source (mb_who ow)) None
                else foldl (revoke_viewer ev k) r (viewer_peers sh)
            | None \<Rightarrow> foldl (revoke_viewer ev k) r (viewer_peers sh)))"

definition session_ended :: "(peer \<Rightarrow> bool) \<Rightarrow> registry \<Rightarrow> string \<Rightarrow> ended_event \<Rightarrow> registry" where
  "session_ended is_open r tenant ev = foldl (revoke_share is_open tenant ev) r (rg_live r)"

text \<open>
  What \<^verbatim>\<open>recheck\<close> does once a lookup answered no: for the owner it had read before the \<^verbatim>\<open>await\<close>, and for a viewer
  object it had read. The heap's share may have ended meanwhile.
\<close>

definition recheck_owner :: "(peer \<Rightarrow> bool) \<Rightarrow> registry \<Rightarrow> share_key \<Rightarrow> identity \<Rightarrow> registry" where
  "recheck_owner is_open r k who = (if k \<in> set (rg_live r) then end_share is_open r k Access (wh_source who) None else r)"

definition recheck_viewer :: "registry \<Rightarrow> share_key \<Rightarrow> peer \<Rightarrow> viewer \<Rightarrow> registry" where
  "recheck_viewer r k p v =
     (case jsget (rg_heap r) k of
        None \<Rightarrow> r
      | Some sh \<Rightarrow> if jshas (sh_viewers sh) p then dismiss r k p v Access CLOSE_FORBIDDEN else r)"

definition end_tenants :: "(peer \<Rightarrow> bool) \<Rightarrow> registry \<Rightarrow> string list \<Rightarrow> nat \<Rightarrow> registry" where
  "end_tenants is_open r tenants code =
     foldl (\<lambda>r k. case jsget (rg_heap r) k of
         None \<Rightarrow> r
       | Some sh \<Rightarrow> if sh_tenant sh \<in> set tenants then end_share is_open r k Server (sh_owner_source sh) (Some code) else r)
       r (rg_live r)"

definition close_all :: "(peer \<Rightarrow> bool) \<Rightarrow> registry \<Rightarrow> registry" where
  "close_all is_open r =
     foldl (\<lambda>r k. case jsget (rg_heap r) k of
         None \<Rightarrow> r | Some sh \<Rightarrow> end_share is_open r k Server (sh_owner_source sh) None) r (rg_live r)"

definition held :: "registry \<Rightarrow> share_key list" where
  "held r = rg_live r"

definition holds_share :: "registry \<Rightarrow> string \<Rightarrow> string \<Rightarrow> bool" where
  "holds_share r tenant sid \<longleftrightarrow> Share_key tenant sid \<in> set (rg_live r)"

definition registry_size :: "registry \<Rightarrow> nat" where
  "registry_size r = length (rg_live r)"

section \<open>Steps\<close>

text \<open>
  Everything that can happen to a registry, in any order. Two things the callers guarantee are the guard: a
  share gets an id that was never used in its tenant, and a socket attaches once.
\<close>

datatype op =
    Op_create string create_input
  | Op_timeout share_key
  | Op_attach string peer identity string string
  | Op_output peer bytes
  | Op_message peer int client_message
  | Op_detach peer
  | Op_pong peer
  | Op_heartbeat int
  | Op_session_ended string ended_event
  | Op_abandon string string
  | Op_recheck_owner share_key identity
  | Op_recheck_viewer share_key peer viewer
  | Op_end_tenants "string list" nat
  | Op_close_all

fun apply_op :: "(peer \<Rightarrow> bool) \<Rightarrow> registry \<Rightarrow> op \<Rightarrow> registry" where
  "apply_op is_open r (Op_create sid i) = create r sid i"
| "apply_op is_open r (Op_timeout k) = attach_timeout is_open r k"
| "apply_op is_open r (Op_attach t p who w sid) = fst (attach r t p who w sid)"
| "apply_op is_open r (Op_output p d) = fst (output_frame r p d)"
| "apply_op is_open r (Op_message p now m) = fst (message is_open r p now m)"
| "apply_op is_open r (Op_detach p) = detach is_open r p"
| "apply_op is_open r (Op_pong p) = pong r p"
| "apply_op is_open r (Op_heartbeat now) = heartbeat is_open r now"
| "apply_op is_open r (Op_session_ended t ev) = session_ended is_open r t ev"
| "apply_op is_open r (Op_abandon t sid) = abandon is_open r t sid"
| "apply_op is_open r (Op_recheck_owner k who) = recheck_owner is_open r k who"
| "apply_op is_open r (Op_recheck_viewer k p v) = recheck_viewer r k p v"
| "apply_op is_open r (Op_end_tenants ts c) = end_tenants is_open r ts c"
| "apply_op is_open r Op_close_all = close_all is_open r"

definition members :: "share \<Rightarrow> peer set" where
  "members sh = set (viewer_peers sh) \<union> set (owner_peers sh)"

fun op_ok :: "registry \<Rightarrow> op \<Rightarrow> bool" where
  "op_ok r (Op_create sid i) = (\<not> jshas (rg_heap r) (Share_key (ci_tenant i) sid))"
| "op_ok r (Op_attach t p who w sid) = list_all (\<lambda>(k, sh). p \<notin> members sh) (rg_heap r)"
| "op_ok r _ = True"

text \<open>A step; what the callers never do changes nothing.\<close>

definition step :: "(peer \<Rightarrow> bool) \<Rightarrow> registry \<Rightarrow> op \<Rightarrow> registry" where
  "step is_open r x = (if op_ok r x then apply_op is_open r x else r)"

section \<open>The replay buffer keeps the last bytes\<close>

definition rb_ok :: "replay_buffer \<Rightarrow> bool" where
  "rb_ok b \<longleftrightarrow> rb_size b = length (concat (rb_chunks b)) \<and> rb_size b \<le> rb_cap b"

lemma rb_trim_last:
  assumes "n = length (concat cs)"
  shows "concat (fst (rb_trim cap cs n)) = drop (n - cap) (concat cs) \<and>
     snd (rb_trim cap cs n) = min n cap"
  using assms
proof (induction cs arbitrary: n)
  case (Cons c cs)
  show ?case
  proof (cases "n \<le> cap")
    case False
    show ?thesis
    proof (cases "length c \<le> n - cap")
      case True
      have "n - length c = length (concat cs)" using Cons.prems by simp
      from Cons.IH [OF this] show ?thesis
        using False True Cons.prems by (auto simp: Let_def)
    next
      case False': False
      then show ?thesis using False Cons.prems by (auto simp: Let_def)
    qed
  qed simp
qed simp

lemma rb_push_ok: "rb_ok b \<Longrightarrow> rb_ok (rb_push b d)"
  using rb_trim_last [of "rb_size b + length d" "rb_chunks b @ [d]" "rb_cap b"]
  by (auto simp: rb_ok_def rb_push_def case_prod_unfold)

lemma rb_contents_ok: "rb_ok b \<Longrightarrow> rb_contents b = concat (rb_chunks b)"
  by (simp add: rb_ok_def rb_contents_def)

lemma rb_push_contents:
  assumes "rb_ok b"
  shows "rb_contents (rb_push b d) = (let bs = rb_contents b @ d in drop (length bs - rb_cap b) bs)"
proof (cases "rb_cap b \<le> length d")
  case True
  then show ?thesis
    using assms rb_push_ok [OF assms, of d]
    by (simp add: rb_contents_ok Let_def) (simp add: rb_push_def rb_ok_def)
next
  case False
  then show ?thesis
    using assms rb_push_ok [OF assms, of d] rb_trim_last [of "rb_size b + length d" "rb_chunks b @ [d]" "rb_cap b"]
    by (simp add: rb_contents_ok Let_def) (simp add: rb_push_def rb_ok_def case_prod_unfold)
qed

lemma rb_cap_push [simp]: "rb_cap (rb_push b d) = rb_cap b"
  by (simp add: rb_push_def case_prod_unfold Let_def)

lemma rb_ok_new [simp]: "rb_ok (new_replay cap)" "rb_contents (new_replay cap) = []" "rb_cap (new_replay cap) = cap"
  by (simp_all add: rb_ok_def new_replay_def rb_contents_def)

lemma drop_last_twice: "drop (length (drop (length xs - c) xs @ ys) - c) (drop (length xs - c) xs @ ys) =
    drop (length (xs @ ys) - c) (xs @ ys)"
  by (cases "length xs \<le> c") (auto simp: add.commute)

lemma rb_pushes:
  "rb_ok b \<Longrightarrow> rb_contents b = drop (length xs - rb_cap b) xs \<Longrightarrow>
   rb_contents (foldl rb_push b ds) = drop (length (xs @ concat ds) - rb_cap b) (xs @ concat ds)"
proof (induction ds arbitrary: b xs)
  case (Cons d ds)
  have "rb_contents (rb_push b d) = drop (length (xs @ d) - rb_cap (rb_push b d)) (xs @ d)"
    using rb_push_contents [OF Cons.prems(1), of d] Cons.prems(2) drop_last_twice [of xs "rb_cap b" d]
    by (simp add: Let_def)
  from Cons.IH [OF rb_push_ok [OF Cons.prems(1)] this] show ?case by simp
qed simp

text \<open>However the owner's output was cut into frames, the replay buffer holds exactly its last bytes, as many as the
  buffer's capacity at most, which is what a late joiner is sent.\<close>

theorem replay_is_last_bytes:
  "rb_contents (foldl rb_push (new_replay cap) ds) = drop (length (concat ds) - cap) (concat ds)"
  using rb_pushes [of "new_replay cap" "[]" ds] by simp

section \<open>The invariant\<close>

definition share_ok :: "share \<Rightarrow> bool" where
  "share_ok sh \<longleftrightarrow>
     jsmap_ok (sh_viewers sh) \<and> length (sh_viewers sh) \<le> MAX_VIEWERS \<and>
     set (owner_peers sh) \<inter> set (viewer_peers sh) = {} \<and>
     (\<forall>p. sh_control sh = Some p \<longrightarrow> p \<in> set (viewer_peers sh)) \<and>
     (\<forall>(p, v) \<in> set (sh_viewers sh). wh_user (vw_who v) \<noteq> sh_owner_id sh \<and> wh_user (vw_who v) \<notin> set (sh_removed sh)
        \<and> wh_user (vw_who v) \<in> set (sh_joined sh)) \<and>
     (\<forall>m. sh_owner sh = Some m \<longrightarrow> wh_user (mb_who m) = sh_owner_id sh)"

definition reg_inv :: "registry \<Rightarrow> bool" where
  "reg_inv r \<longleftrightarrow>
     jsmap_ok (rg_heap r) \<and> distinct (rg_live r) \<and> (\<forall>k \<in> set (rg_live r). jshas (rg_heap r) k) \<and>
     (\<forall>k sh. jsget (rg_heap r) k = Some sh \<longrightarrow> key_of sh = k \<and> share_ok sh \<and>
        (\<forall>p \<in> members sh. jsget (rg_by_peer r) p = (if k \<in> set (rg_live r) then Some k else None))) \<and>
     (\<forall>p k. jsget (rg_by_peer r) p = Some k \<longrightarrow>
        k \<in> set (rg_live r) \<and> (\<exists>sh. jsget (rg_heap r) k = Some sh \<and> p \<in> members sh))"

lemma emit_fields [simp]:
  "rg_heap (emit r es) = rg_heap r" "rg_live (emit r es) = rg_live r" "rg_by_peer (emit r es) = rg_by_peer r"
  "rg_out (emit r es) = rg_out r @ es"
  by (simp_all add: emit_def)

lemma put_share_fields [simp]:
  "rg_heap (put_share r k sh) = jsset (rg_heap r) k sh" "rg_live (put_share r k sh) = rg_live r"
  "rg_by_peer (put_share r k sh) = rg_by_peer r" "rg_out (put_share r k sh) = rg_out r"
  by (simp_all add: put_share_def)

lemma reg_inv_emit [simp]: "reg_inv (emit r es) = reg_inv r"
  by (simp add: reg_inv_def)

lemma jsget_deletes: "jsget (foldl jsdelete m ps) q = (if q \<in> set ps then None else jsget m q)"
  by (induction ps arbitrary: m) (auto simp: jsget_jsdelete)

lemma reg_inv_share:
  "reg_inv r \<Longrightarrow> jsget (rg_heap r) k = Some sh \<Longrightarrow> key_of sh = k \<and> share_ok sh"
  unfolding reg_inv_def by blast

lemma reg_inv_peer:
  "reg_inv r \<Longrightarrow> jsget (rg_heap r) k = Some sh \<Longrightarrow> p \<in> members sh \<Longrightarrow>
   jsget (rg_by_peer r) p = (if k \<in> set (rg_live r) then Some k else None)"
  unfolding reg_inv_def by blast

lemma reg_inv_back:
  assumes "reg_inv r" "jsget (rg_by_peer r) p = Some k"
  obtains sh where "k \<in> set (rg_live r)" "jsget (rg_heap r) k = Some sh" "p \<in> members sh"
  using assms unfolding reg_inv_def by blast

lemma reg_inv_live: "reg_inv r \<Longrightarrow> k \<in> set (rg_live r) \<Longrightarrow> jshas (rg_heap r) k"
  unfolding reg_inv_def by blast

lemma reg_invI:
  assumes "jsmap_ok (rg_heap r)" "distinct (rg_live r)" "\<And>k. k \<in> set (rg_live r) \<Longrightarrow> jshas (rg_heap r) k"
    and "\<And>k sh. jsget (rg_heap r) k = Some sh \<Longrightarrow> key_of sh = k \<and> share_ok sh"
    and "\<And>k sh p. jsget (rg_heap r) k = Some sh \<Longrightarrow> p \<in> members sh \<Longrightarrow>
      jsget (rg_by_peer r) p = (if k \<in> set (rg_live r) then Some k else None)"
    and "\<And>p k. jsget (rg_by_peer r) p = Some k \<Longrightarrow>
      k \<in> set (rg_live r) \<and> (\<exists>sh. jsget (rg_heap r) k = Some sh \<and> p \<in> members sh)"
  shows "reg_inv r"
  using assms unfolding reg_inv_def by blast

lemma reg_inv_maps: "reg_inv r \<Longrightarrow> jsmap_ok (rg_heap r) \<and> distinct (rg_live r)"
  unfolding reg_inv_def by blast

lemma members_apart:
  assumes "reg_inv r" "jsget (rg_heap r) k = Some s" "jsget (rg_heap r) k' = Some s'" "k \<noteq> k'" "k \<in> set (rg_live r)"
  shows "members s \<inter> members s' = {}"
proof (rule ccontr)
  assume "members s \<inter> members s' \<noteq> {}"
  then obtain q where "q \<in> members s" "q \<in> members s'" by blast
  then show False
    using reg_inv_peer [OF assms(1,2)] reg_inv_peer [OF assms(1,3)] assms(4,5) by (metis option.distinct(1) option.inject)
qed

text \<open>The ways the registry's own maps change.\<close>

lemma reg_inv_update:
  assumes inv: "reg_inv r" and sh: "jsget (rg_heap r) k = Some sh"
    and sh': "key_of sh' = k" "share_ok sh'" "members sh' \<union> set ps = members sh" "members sh' \<inter> set ps = {}"
    and r': "jsget (rg_heap r') = (jsget (rg_heap r))(k \<mapsto> sh')" "rg_live r' = rg_live r"
      "rg_by_peer r' = foldl jsdelete (rg_by_peer r) ps" and ok: "jsmap_ok (rg_heap r')"
  shows "reg_inv r'"
proof (rule reg_invI)
  show "jsmap_ok (rg_heap r')" by (rule ok)
  show "distinct (rg_live r')"
    using reg_inv_maps [OF inv] by (simp add: r')
  show "jshas (rg_heap r') k'" if "k' \<in> set (rg_live r')" for k'
    using reg_inv_live [OF inv] that by (simp add: r' jsget_jsset)
  show "key_of s = k' \<and> share_ok s" if "jsget (rg_heap r') k' = Some s" for k' s
    using that reg_inv_share [OF inv] sh' by (auto simp: r' jsget_jsset split: if_splits)
  show "jsget (rg_by_peer r') p = (if k' \<in> set (rg_live r') then Some k' else None)"
    if s: "jsget (rg_heap r') k' = Some s" and p: "p \<in> members s" for k' s p
  proof (cases "k' = k")
    case True
    then have "p \<in> members sh" "p \<notin> set ps" using s p sh' by (auto simp: r' jsget_jsset)
    then show ?thesis using reg_inv_peer [OF inv sh] True by (simp add: r' jsget_deletes)
  next
    case False
    then have s': "jsget (rg_heap r) k' = Some s" using s by (simp add: r' jsget_jsset)
    have "p \<in> set ps \<Longrightarrow> k' \<notin> set (rg_live r)"
      using members_apart [OF inv s' sh False] sh'(3) p by blast
    then show ?thesis using reg_inv_peer [OF inv s' p] by (simp add: r' jsget_deletes)
  qed
  show "k' \<in> set (rg_live r') \<and> (\<exists>s. jsget (rg_heap r') k' = Some s \<and> p \<in> members s)"
    if "jsget (rg_by_peer r') p = Some k'" for p k'
  proof -
    have np: "p \<notin> set ps" "jsget (rg_by_peer r) p = Some k'" using that by (auto simp: r' jsget_deletes split: if_splits)
    from inv np(2) obtain s where s: "k' \<in> set (rg_live r)" "jsget (rg_heap r) k' = Some s" "p \<in> members s"
      by (rule reg_inv_back)
    show ?thesis
      using s np sh sh' by (cases "k' = k") (auto simp: r' jsget_jsset)
  qed
qed

lemma reg_inv_same_members:
  assumes "reg_inv r" "jsget (rg_heap r) k = Some sh" "key_of sh' = key_of sh" "share_ok sh'" "members sh' = members sh"
  shows "reg_inv (put_share r k sh')"
proof -
  have "key_of sh' = k" using assms reg_inv_share by simp
  then show ?thesis
    using assms reg_inv_maps [OF assms(1)]
    by (intro reg_inv_update [OF assms(1,2), of sh' "[]"]) (simp_all add: jsget_jsset jsmap_ok_jsset)
qed

lemma reg_inv_join:
  assumes inv: "reg_inv r" and sh: "jsget (rg_heap r) k = Some sh" "k \<in> set (rg_live r)"
    and sh': "key_of sh' = k" "share_ok sh'" "members sh' = insert p (members sh)"
    and fresh: "\<And>k s. jsget (rg_heap r) k = Some s \<Longrightarrow> p \<notin> members s"
    and r': "rg_heap r' = jsset (rg_heap r) k sh'" "rg_live r' = rg_live r" "rg_by_peer r' = jsset (rg_by_peer r) p k"
  shows "reg_inv r'"
proof (rule reg_invI)
  show "jsmap_ok (rg_heap r')" "distinct (rg_live r')"
    using reg_inv_maps [OF inv] by (simp_all add: r' jsmap_ok_jsset)
  show "jshas (rg_heap r') k'" if "k' \<in> set (rg_live r')" for k'
    using reg_inv_live [OF inv] that by (simp add: r' jsget_jsset)
  show "key_of s = k' \<and> share_ok s" if "jsget (rg_heap r') k' = Some s" for k' s
    using that reg_inv_share [OF inv] sh' by (auto simp: r' jsget_jsset split: if_splits)
  show "jsget (rg_by_peer r') q = (if k' \<in> set (rg_live r') then Some k' else None)"
    if s: "jsget (rg_heap r') k' = Some s" and q: "q \<in> members s" for k' s q
  proof (cases "k' = k")
    case True
    then have "q = p \<or> q \<in> members sh" using s q sh' by (auto simp: r' jsget_jsset)
    then show ?thesis using reg_inv_peer [OF inv sh(1)] True sh(2) by (auto simp: r' jsget_jsset)
  next
    case False
    then have s': "jsget (rg_heap r) k' = Some s" using s by (simp add: r' jsget_jsset)
    then have "q \<noteq> p" using fresh q by blast
    then show ?thesis using reg_inv_peer [OF inv s' q] by (simp add: r' jsget_jsset)
  qed
  show "k' \<in> set (rg_live r') \<and> (\<exists>s. jsget (rg_heap r') k' = Some s \<and> q \<in> members s)"
    if q: "jsget (rg_by_peer r') q = Some k'" for q k'
  proof (cases "q = p")
    case True
    then show ?thesis using q sh sh' by (simp add: r' jsget_jsset)
  next
    case False
    then have "jsget (rg_by_peer r) q = Some k'" using q by (simp add: r' jsget_jsset)
    with inv obtain s where "k' \<in> set (rg_live r)" "jsget (rg_heap r) k' = Some s" "q \<in> members s"
      by (rule reg_inv_back)
    then show ?thesis using sh sh' by (cases "k' = k") (auto simp: r' jsget_jsset)
  qed
qed

lemma reg_inv_end:
  assumes inv: "reg_inv r" and sh: "jsget (rg_heap r) k = Some sh" "k \<in> set (rg_live r)"
    and sh': "key_of sh' = k" "share_ok sh'" "members sh' = members sh" and ps: "set ps = members sh"
    and r': "rg_heap r' = jsset (rg_heap r) k sh'" "rg_live r' = jsremove (rg_live r) k"
      "rg_by_peer r' = foldl jsdelete (rg_by_peer r) ps"
  shows "reg_inv r'"
proof (rule reg_invI)
  show "jsmap_ok (rg_heap r')" "distinct (rg_live r')"
    using reg_inv_maps [OF inv] by (simp_all add: r' jsmap_ok_jsset)
  show "jshas (rg_heap r') k'" if "k' \<in> set (rg_live r')" for k'
    using reg_inv_live [OF inv] that by (auto simp: r' jsget_jsset)
  show "key_of s = k' \<and> share_ok s" if "jsget (rg_heap r') k' = Some s" for k' s
    using that reg_inv_share [OF inv] sh' by (auto simp: r' jsget_jsset split: if_splits)
  show "jsget (rg_by_peer r') p = (if k' \<in> set (rg_live r') then Some k' else None)"
    if s: "jsget (rg_heap r') k' = Some s" and p: "p \<in> members s" for k' s p
  proof (cases "k' = k")
    case True
    then show ?thesis using p s sh' ps by (auto simp: r' jsget_jsset jsget_deletes)
  next
    case False
    then have s': "jsget (rg_heap r) k' = Some s" using s by (simp add: r' jsget_jsset)
    have "p \<notin> set ps" using members_apart [OF inv sh(1) s' not_sym [OF False] sh(2)] ps p by blast
    then show ?thesis using reg_inv_peer [OF inv s' p] False by (simp add: r' jsget_deletes)
  qed
  show "k' \<in> set (rg_live r') \<and> (\<exists>s. jsget (rg_heap r') k' = Some s \<and> p \<in> members s)"
    if "jsget (rg_by_peer r') p = Some k'" for p k'
  proof -
    have np: "p \<notin> members sh" "jsget (rg_by_peer r) p = Some k'"
      using that ps by (auto simp: r' jsget_deletes split: if_splits)
    from inv np(2) obtain s where s: "k' \<in> set (rg_live r)" "jsget (rg_heap r) k' = Some s" "p \<in> members s"
      by (rule reg_inv_back)
    then have "k' \<noteq> k" using np sh by auto
    then show ?thesis using s by (auto simp: r' jsget_jsset)
  qed
qed

section \<open>Every operation keeps the invariant\<close>

definition without_viewer :: "share \<Rightarrow> peer \<Rightarrow> share" where
  "without_viewer sh p = sh\<lparr>sh_viewers := jsdelete (sh_viewers sh) p,
     sh_control := (if sh_control sh = Some p then None else sh_control sh)\<rparr>"

lemma drop_control_simps [simp]:
  "fst (drop_control sh h s b) = sh\<lparr>sh_control := None\<rparr>"
  by (simp add: drop_control_def Let_def)

lemma dismiss_fields:
  assumes "jsget (rg_heap r) k = Some sh"
  shows "rg_heap (dismiss r k p v rs c) = jsset (rg_heap r) k (without_viewer sh p)"
    "rg_live (dismiss r k p v rs c) = rg_live r" "rg_by_peer (dismiss r k p v rs c) = jsdelete (rg_by_peer r) p"
  using assms by (simp_all add: dismiss_def Let_def case_prod_unfold without_viewer_def)

lemma peers_simps [simp]:
  "viewer_peers (sh\<lparr>sh_control := c\<rparr>) = viewer_peers sh" "owner_peers (sh\<lparr>sh_viewers := vs\<rparr>) = owner_peers sh"
  "owner_peers (sh\<lparr>sh_control := c\<rparr>) = owner_peers sh" "viewer_peers (sh\<lparr>sh_viewers := vs\<rparr>) = jskeys vs"
  "owner_peers (sh\<lparr>sh_removed := rs\<rparr>) = owner_peers sh" "viewer_peers (sh\<lparr>sh_removed := rs\<rparr>) = viewer_peers sh"
  "owner_peers (sh\<lparr>sh_replay := b\<rparr>) = owner_peers sh" "viewer_peers (sh\<lparr>sh_replay := b\<rparr>) = viewer_peers sh"
  "owner_peers (sh\<lparr>sh_timer := t\<rparr>) = owner_peers sh" "viewer_peers (sh\<lparr>sh_timer := t\<rparr>) = viewer_peers sh"
  "owner_peers (sh\<lparr>sh_cols := n\<rparr>) = owner_peers sh" "viewer_peers (sh\<lparr>sh_cols := n\<rparr>) = viewer_peers sh"
  "owner_peers (sh\<lparr>sh_rows := n\<rparr>) = owner_peers sh" "viewer_peers (sh\<lparr>sh_rows := n\<rparr>) = viewer_peers sh"
  "owner_peers (sh\<lparr>sh_joined := js\<rparr>) = owner_peers sh" "viewer_peers (sh\<lparr>sh_joined := js\<rparr>) = viewer_peers sh"
  "viewer_peers (sh\<lparr>sh_owner := ow\<rparr>) = viewer_peers sh" "owner_peer (sh\<lparr>sh_timer := t\<rparr>) = owner_peer sh"
  "owner_peers (sh\<lparr>sh_owner := Some m\<rparr>) = [mb_peer m]" "owner_peers (sh\<lparr>sh_owner := None\<rparr>) = []"
  by (simp_all add: viewer_peers_def owner_peers_def owner_peer_def)

lemma key_of_simps [simp]:
  "key_of (sh\<lparr>sh_control := c\<rparr>) = key_of sh" "key_of (sh\<lparr>sh_viewers := vs\<rparr>) = key_of sh"
  "key_of (sh\<lparr>sh_removed := rs\<rparr>) = key_of sh" "key_of (sh\<lparr>sh_replay := b\<rparr>) = key_of sh"
  "key_of (sh\<lparr>sh_timer := t\<rparr>) = key_of sh" "key_of (sh\<lparr>sh_cols := n\<rparr>) = key_of sh"
  "key_of (sh\<lparr>sh_rows := n\<rparr>) = key_of sh" "key_of (sh\<lparr>sh_joined := js\<rparr>) = key_of sh"
  "key_of (sh\<lparr>sh_owner := ow\<rparr>) = key_of sh" "key_of (without_viewer sh p) = key_of sh"
  by (simp_all add: key_of_def without_viewer_def)

lemma jskeys_jsdelete: "set (jskeys (jsdelete m k)) = set (jskeys m) - {k}"
  by (auto simp: AList.delete_eq image_iff)

lemma without_viewer_peers:
  "set (viewer_peers (without_viewer sh p)) = set (viewer_peers sh) - {p}"
  "owner_peers (without_viewer sh p) = owner_peers sh"
  by (simp_all add: without_viewer_def viewer_peers_def jskeys_jsdelete del: set_map)

lemma share_ok_without: "share_ok sh \<Longrightarrow> share_ok (without_viewer sh p)"
proof -
  assume ok: "share_ok sh"
  have "length (sh_viewers (without_viewer sh p)) \<le> MAX_VIEWERS"
    using ok length_delete_le [of p "sh_viewers sh"] by (simp add: without_viewer_def share_ok_def)
  then show ?thesis
    using ok without_viewer_peers [of sh p]
    by (auto simp: share_ok_def jsmap_ok_jsdelete without_viewer_def jsdelete_mem)
qed

lemma members_without: "p \<notin> set (owner_peers sh) \<Longrightarrow> members (without_viewer sh p) = members sh - {p}"
  by (auto simp: members_def without_viewer_peers)

lemma reg_inv_without:
  assumes inv: "reg_inv r" and sh: "jsget (rg_heap r) k = Some sh" and p: "p \<in> set (viewer_peers sh)"
    and r': "rg_heap r' = jsset (rg_heap r) k (without_viewer sh p)" "rg_live r' = rg_live r"
      "rg_by_peer r' = jsdelete (rg_by_peer r) p"
  shows "reg_inv r'"
proof -
  have ok: "share_ok sh" "key_of sh = k" using reg_inv_share [OF inv sh] by simp_all
  then have "p \<notin> set (owner_peers sh)" using p by (auto simp: share_ok_def)
  then have "members (without_viewer sh p) = members sh - {p}" by (rule members_without)
  moreover have "p \<in> members sh" using p by (simp add: members_def)
  ultimately show ?thesis
    using ok r' share_ok_without [of sh p] reg_inv_maps [OF inv]
    by (intro reg_inv_update [OF inv sh, of "without_viewer sh p" "[p]"]) (auto simp: jsget_jsset jsmap_ok_jsset)
qed

lemma reg_inv_dismiss:
  assumes "reg_inv r" and "jsget (rg_heap r) k = Some sh" and "p \<in> set (viewer_peers sh)"
  shows "reg_inv (dismiss r k p v rs c)"
  using assms by (rule reg_inv_without) (rule dismiss_fields [OF assms(2)])+

lemma live_shareD: "live_share r k = Some sh \<Longrightarrow> k \<in> set (rg_live r) \<and> jsget (rg_heap r) k = Some sh"
  by (simp add: live_share_def split: if_splits)

lemma share_ok_timer [simp]: "share_ok (sh\<lparr>sh_timer := t\<rparr>) = share_ok sh"
  by (simp add: share_ok_def)

lemma members_timer [simp]: "members (sh\<lparr>sh_timer := t\<rparr>) = members sh"
  by (simp add: members_def)

lemma reg_inv_end_share:
  assumes inv: "reg_inv r"
  shows "reg_inv (end_share is_open r k rs src code)"
proof (cases "live_share r k")
  case None
  then show ?thesis using inv by (simp add: end_share_def)
next
  case (Some sh)
  note l = live_shareD [OF Some]
  have "key_of sh = k" "share_ok sh" using reg_inv_share [OF inv conjunct2 [OF l]] by simp_all
  with Some l show ?thesis
    by (intro reg_inv_end [OF inv, of k sh "sh\<lparr>sh_timer := False\<rparr>" "viewer_peers sh @ owner_peers sh"])
       (auto simp: end_share_def Let_def members_def)
qed

lemma reg_inv_detach:
  assumes inv: "reg_inv r"
  shows "reg_inv (detach is_open r p)"
proof (cases "jsget (rg_by_peer r) p")
  case None
  then show ?thesis using inv by (simp add: detach_def)
next
  case (Some k)
  from inv Some obtain sh where sh: "k \<in> set (rg_live r)" "jsget (rg_heap r) k = Some sh" "p \<in> members sh"
    by (rule reg_inv_back)
  show ?thesis
  proof (cases "owner_peer sh = Some p")
    case True
    have "key_of sh = k" "share_ok sh" using reg_inv_share [OF inv] sh by simp_all
    then show ?thesis
      using Some sh True
      by (intro reg_inv_end [OF inv sh(2,1), of "sh\<lparr>sh_timer := False\<rparr>" "p # viewer_peers sh @ owner_peers sh"])
         (auto simp: detach_def end_share_def live_share_def Let_def members_def owner_peers_def)
  next
    case False
    then have pv: "p \<in> set (viewer_peers sh)" using sh by (auto simp: members_def owner_peers_def split: option.splits)
    then obtain v where v: "jsget (sh_viewers sh) p = Some v"
      using jshas_iff [of "sh_viewers sh" p] by (auto simp: viewer_peers_def)
    show ?thesis
      using Some sh False v
      by (intro reg_inv_without [OF inv sh(2) pv])
         (auto simp: detach_def Let_def case_prod_unfold without_viewer_def)
  qed
qed

lemma reg_inv_create:
  assumes inv: "reg_inv r" and f: "\<not> jshas (rg_heap r) (Share_key (ci_tenant i) sid)"
  shows "reg_inv (create r sid i)"
proof -
  let ?sh = "new_share sid i"
  have k: "key_of ?sh = Share_key (ci_tenant i) sid" by (simp add: key_of_def new_share_def)
  have m: "members ?sh = {}" by (simp add: members_def viewer_peers_def owner_peers_def owner_peer_def new_share_def)
  have ok: "share_ok ?sh" by (simp add: share_ok_def new_share_def owner_peers_def owner_peer_def viewer_peers_def)
  show ?thesis
  proof (rule reg_invI)
    show "jsmap_ok (rg_heap (create r sid i))" "distinct (rg_live (create r sid i))"
      using reg_inv_maps [OF inv] by (simp_all add: create_def Let_def jsmap_ok_jsset)
    show "jshas (rg_heap (create r sid i)) k'" if "k' \<in> set (rg_live (create r sid i))" for k'
      using that reg_inv_live [OF inv] by (auto simp: create_def Let_def jsget_jsset)
    show "key_of s = k' \<and> share_ok s" if "jsget (rg_heap (create r sid i)) k' = Some s" for k' s
      using that ok reg_inv_share [OF inv] by (auto simp: create_def Let_def jsget_jsset split: if_splits)
    show "jsget (rg_by_peer (create r sid i)) p = (if k' \<in> set (rg_live (create r sid i)) then Some k' else None)"
      if s: "jsget (rg_heap (create r sid i)) k' = Some s" "p \<in> members s" for k' s p
    proof -
      have "k' \<noteq> key_of ?sh" using s m by (auto simp: create_def Let_def jsget_jsset)
      then show ?thesis using s reg_inv_peer [OF inv, of k' s p] by (simp add: create_def Let_def jsget_jsset)
    qed
    show "k' \<in> set (rg_live (create r sid i)) \<and> (\<exists>s. jsget (rg_heap (create r sid i)) k' = Some s \<and> p \<in> members s)"
      if "jsget (rg_by_peer (create r sid i)) p = Some k'" for p k'
    proof -
      have "jsget (rg_by_peer r) p = Some k'" using that by (simp add: create_def Let_def)
      with inv obtain s where "k' \<in> set (rg_live r)" "jsget (rg_heap r) k' = Some s" "p \<in> members s"
        by (rule reg_inv_back)
      then show ?thesis using f k by (auto simp: create_def Let_def jsget_jsset)
    qed
  qed
qed

lemma fresh_peer:
  "jsmap_ok (rg_heap r) \<Longrightarrow> list_all (\<lambda>(k, sh). p \<notin> members sh) (rg_heap r) \<Longrightarrow>
   jsget (rg_heap r) k = Some sh \<Longrightarrow> p \<notin> members sh"
  by (auto simp: list_all_iff dest: map_of_SomeD)

lemma reg_inv_attach:
  assumes inv: "reg_inv r" and f: "list_all (\<lambda>(k, sh). p \<notin> members sh) (rg_heap r)"
  shows "reg_inv (fst (attach r t p who w sid))"
proof (cases "live_share r (Share_key t sid)")
  case None
  then show ?thesis using inv by (simp add: attach_def Let_def)
next
  case (Some sh)
  let ?k = "Share_key t sid"
  note l = live_shareD [OF Some]
  have ok: "key_of sh = ?k" "share_ok sh" using reg_inv_share [OF inv conjunct2 [OF l]] by simp_all
  have fr: "\<And>k s. jsget (rg_heap r) k = Some s \<Longrightarrow> p \<notin> members s"
    using fresh_peer [OF _ f] reg_inv_maps [OF inv] by blast
  then have np: "p \<notin> members sh" using l by blast
  have own: "reg_inv (attach_owner r ?k sh p who)" if "sh_owner sh = None" "wh_user who = sh_owner_id sh"
  proof -
    have none: "owner_peers sh = []" using that by (simp add: owner_peers_def owner_peer_def)
    show ?thesis
      by (rule reg_inv_join [OF inv conjunct2 [OF l] conjunct1 [OF l], of
            "sh\<lparr>sh_timer := False, sh_owner := Some \<lparr>mb_peer = p, mb_who = who, mb_alive = True\<rparr>\<rparr>" p])
         (use ok np fr that none in \<open>auto simp: attach_owner_def Let_def share_ok_def members_def\<close>)
  qed
  have view: "reg_inv (attach_viewer r ?k sh p who)"
    if "wh_user who \<noteq> sh_owner_id sh" "wh_user who \<notin> set (sh_removed sh)" "length (sh_viewers sh) < MAX_VIEWERS"
  proof -
    have pv: "p \<notin> set (viewer_peers sh)" "p \<notin> set (owner_peers sh)" using np by (auto simp: members_def)
    let ?v = "\<lparr>vw_who = who, vw_alive = True, vw_requesting = False, vw_inputs = 0, vw_window = 0\<rparr>"
    let ?sh = "sh\<lparr>sh_viewers := jsset (sh_viewers sh) p ?v, sh_joined := jsadd (sh_joined sh) (wh_user who)\<rparr>"
    have keys: "set (jskeys (jsset (sh_viewers sh) p ?v)) = insert p (set (viewer_peers sh))"
      by (simp only: jskeys_jsset viewer_peers_def)
    have len: "length (jsset (sh_viewers sh) p ?v) \<le> MAX_VIEWERS"
      using that(3) pv by (simp only: length_jsset viewer_peers_def if_False Suc_le_eq)
    have m: "members ?sh = insert p (members sh)" using keys by (auto simp: members_def)
    have "share_ok ?sh"
      using ok(2) keys len pv that(1,2)
      by (auto simp: share_ok_def jsmap_ok_jsset jsset_mem split: if_splits)
    then show ?thesis
      using ok m fr l by (intro reg_inv_join [OF inv, of ?k sh ?sh p]) (auto simp: attach_viewer_def Let_def)
  qed
  show ?thesis using Some own view inv by (simp add: attach_def Let_def)
qed

lemma set_viewer_ok:
  assumes ok: "share_ok sh" and v: "jsget (sh_viewers sh) p = Some v" and w: "vw_who v' = vw_who v"
  shows "share_ok (sh\<lparr>sh_viewers := jsset (sh_viewers sh) p v'\<rparr>)"
    "members (sh\<lparr>sh_viewers := jsset (sh_viewers sh) p v'\<rparr>) = members sh"
    "set (jskeys (jsset (sh_viewers sh) p v')) = set (viewer_peers sh)"
proof -
  have p: "p \<in> set (jskeys (sh_viewers sh))" using v jshas_iff [of "sh_viewers sh" p] by simp
  then show keys: "set (jskeys (jsset (sh_viewers sh) p v')) = set (viewer_peers sh)"
    by (simp only: jskeys_jsset viewer_peers_def insert_absorb)
  have "length (jsset (sh_viewers sh) p v') = length (sh_viewers sh)"
    using p by (simp only: length_jsset if_True)
  moreover have "(p, v) \<in> set (sh_viewers sh)" using v by (rule map_of_SomeD)
  ultimately show "share_ok (sh\<lparr>sh_viewers := jsset (sh_viewers sh) p v'\<rparr>)"
    using ok keys w by (auto simp: share_ok_def jsmap_ok_jsset jsset_mem split: if_splits)
  show "members (sh\<lparr>sh_viewers := jsset (sh_viewers sh) p v'\<rparr>) = members sh"
    using keys by (simp add: members_def)
qed

lemma control_none_ok:
  "share_ok sh \<Longrightarrow> share_ok (sh\<lparr>sh_control := None\<rparr>)" "members (sh\<lparr>sh_control := c\<rparr>) = members sh"
  by (simp_all add: share_ok_def members_def)

lemma reg_inv_set_viewer:
  assumes inv: "reg_inv r" and sh: "jsget (rg_heap r) k = Some sh" and v: "jsget (sh_viewers sh) p = Some v"
    and w: "vw_who v' = vw_who v"
  shows "reg_inv (put_share r k (sh\<lparr>sh_viewers := jsset (sh_viewers sh) p v'\<rparr>))"
  using reg_inv_share [OF inv sh] set_viewer_ok [OF _ v w]
  by (intro reg_inv_same_members [OF inv sh]) auto

lemma reg_inv_output: "reg_inv r \<Longrightarrow> reg_inv (fst (output_frame r p d))"
proof (cases "jsget (rg_by_peer r) p")
  case (Some k)
  assume inv: "reg_inv r"
  show ?thesis
  proof (cases "jsget (rg_heap r) k")
    case sh: (Some sh)
    have "reg_inv (put_share r k (sh\<lparr>sh_replay := b\<rparr>))" for b
      using reg_inv_share [OF inv sh] by (intro reg_inv_same_members [OF inv sh]) (auto simp: share_ok_def members_def)
    then show ?thesis using Some sh inv by (simp add: output_frame_def)
  qed (use Some inv in \<open>simp add: output_frame_def\<close>)
qed (simp add: output_frame_def)

lemma requesting_viewerD:
  assumes "requesting_viewer sh user = Some (p, v)"
  shows "(p, v) \<in> set (sh_viewers sh) \<and> wh_user (vw_who v) = user \<and> vw_requesting v"
proof -
  from assms obtain pvs where "filter (\<lambda>(p, v). wh_user (vw_who v) = user \<and> vw_requesting v) (sh_viewers sh) = (p, v) # pvs"
    by (auto simp: requesting_viewer_def split: list.splits)
  then have "(p, v) \<in> set (filter (\<lambda>(p, v). wh_user (vw_who v) = user \<and> vw_requesting v) (sh_viewers sh))" by simp
  then show ?thesis by simp
qed

lemma reg_inv_grant:
  assumes inv: "reg_inv r" and sh: "jsget (rg_heap r) k = Some sh"
  shows "reg_inv (grant r k sh src user)"
proof (cases "requesting_viewer sh user")
  case (Some pv)
  obtain p v where pv: "pv = (p, v)" by fastforce
  have ok: "key_of sh = k" "share_ok sh" using reg_inv_share [OF inv sh] by simp_all
  have "(p, v) \<in> set (sh_viewers sh)" using requesting_viewerD Some pv by blast
  then have v: "jsget (sh_viewers sh) p = Some v" using ok by (simp add: share_ok_def)
  note s = set_viewer_ok [OF ok(2) v, of "v\<lparr>vw_requesting := False\<rparr>"]
  have "p \<in> set (viewer_peers sh)" using v jshas_iff [of "sh_viewers sh" p] by (simp add: viewer_peers_def)
  then have "share_ok (sh\<lparr>sh_viewers := jsset (sh_viewers sh) p (v\<lparr>vw_requesting := False\<rparr>), sh_control := Some p\<rparr>)"
    using s by (auto simp: share_ok_def)
  then show ?thesis
    using Some pv s control_none_ok(2) by (auto simp: grant_def Let_def intro!: reg_inv_same_members [OF inv sh])
qed (use inv in \<open>simp add: grant_def\<close>)

lemma reg_inv_decline:
  assumes inv: "reg_inv r" and sh: "jsget (rg_heap r) k = Some sh"
  shows "reg_inv (decline r k sh user)"
proof -
  have ok: "key_of sh = k" "share_ok sh" using reg_inv_share [OF inv sh] by simp_all
  let ?f = "\<lambda>(p, v). (p, if wh_user (vw_who v) = user \<and> vw_requesting v then v\<lparr>vw_requesting := False\<rparr> else v)"
  have keys: "jskeys (map ?f (sh_viewers sh)) = jskeys (sh_viewers sh)" by (simp add: case_prod_unfold comp_def)
  have "share_ok (sh\<lparr>sh_viewers := map ?f (sh_viewers sh)\<rparr>)"
    using ok(2) keys by (auto simp: share_ok_def viewer_peers_def comp_def case_prod_unfold)
  moreover have "members (sh\<lparr>sh_viewers := map ?f (sh_viewers sh)\<rparr>) = members sh"
    using keys by (simp add: members_def viewer_peers_def [of sh])
  ultimately show ?thesis
    by (auto simp: decline_def Let_def intro!: reg_inv_same_members [OF inv sh])
qed

text \<open>Removing a user: what the dismissals leave of the share.\<close>

lemma dismissals_fields:
  assumes "jsget (rg_heap r) k = Some sh" and "jsmap_ok (rg_heap r)"
    and "r' = foldl (\<lambda>r (p, v). dismiss r k p v rs c) r pvs"
  shows "jsget (rg_heap r') = (jsget (rg_heap r))(k \<mapsto> foldl without_viewer sh (map fst pvs)) \<and>
    jsmap_ok (rg_heap r') \<and> rg_live r' = rg_live r \<and> rg_by_peer r' = foldl jsdelete (rg_by_peer r) (map fst pvs)"
  using assms(1,2) unfolding assms(3)
proof (induction pvs arbitrary: r sh)
  case (Cons pv pvs)
  obtain p v where pv: "pv = (p, v)" by fastforce
  note f = dismiss_fields [OF Cons.prems(1), of p v rs c]
  have "jsget (rg_heap (dismiss r k p v rs c)) k = Some (without_viewer sh p)"
    "jsmap_ok (rg_heap (dismiss r k p v rs c))"
    using Cons.prems by (simp_all add: f jsget_jsset jsmap_ok_jsset)
  from Cons.IH [OF this] show ?case by (simp add: pv f jsget_jsset fun_upd_def fun_eq_iff)
qed auto

lemma without_viewers:
  "foldl without_viewer sh ps = sh\<lparr>sh_viewers := filter (\<lambda>pv. fst pv \<notin> set ps) (sh_viewers sh),
     sh_control := (if \<exists>p \<in> set ps. sh_control sh = Some p then None else sh_control sh)\<rparr>"
proof (induction ps arbitrary: sh)
  case (Cons p ps)
  have "filter (\<lambda>pv. fst pv \<notin> set ps) (jsdelete (sh_viewers sh) p) = filter (\<lambda>pv. fst pv \<notin> set (p # ps)) (sh_viewers sh)"
    by (simp add: AList.delete_eq case_prod_unfold conj_commute eq_commute [of p])
  then show ?case unfolding foldl_Cons Cons.IH by (auto simp: without_viewer_def)
qed simp

lemma without_viewers_control:
  "sh_control (foldl without_viewer sh ps) = (if \<exists>p \<in> set ps. sh_control sh = Some p then None else sh_control sh)"
  by (simp add: without_viewers)

lemma reg_inv_remove_user:
  assumes inv: "reg_inv r" and sh: "jsget (rg_heap r) k = Some sh"
  shows "reg_inv (remove_user r k sh src user)"
proof (cases "user = sh_owner_id sh")
  case True
  then show ?thesis using inv by (simp add: remove_user_def)
next
  case False
  have ok: "key_of sh = k" "share_ok sh" using reg_inv_share [OF inv sh] by simp_all
  let ?gone = "filter (\<lambda>(p, v). wh_user (vw_who v) = user) (sh_viewers sh)"
  let ?ps = "map fst ?gone"
  let ?sh1 = "sh\<lparr>sh_removed := jsadd (sh_removed sh) user\<rparr>"
  let ?sh2 = "foldl without_viewer ?sh1 ?ps"
  let ?r1 = "put_share r k ?sh1"
  let ?r2 = "foldl (\<lambda>r (p, v). dismiss r k p v Removed CLOSE_FORBIDDEN) ?r1 ?gone"
  have f: "jsget (rg_heap ?r2) = (jsget (rg_heap ?r1))(k \<mapsto> ?sh2) \<and> jsmap_ok (rg_heap ?r2) \<and>
      rg_live ?r2 = rg_live ?r1 \<and> rg_by_peer ?r2 = foldl jsdelete (rg_by_peer ?r1) ?ps"
    using reg_inv_maps [OF inv] by (intro dismissals_fields [OF _ _ refl]) (simp_all add: jsget_jsset jsmap_ok_jsset)
  have d: "distinct (map fst (sh_viewers sh))" using ok by (simp add: share_ok_def)
  have v: "sh_viewers ?sh2 = filter (\<lambda>(p, v). wh_user (vw_who v) \<noteq> user) (sh_viewers sh)"
    unfolding without_viewers
    using d by (auto intro!: filter_cong simp: case_prod_unfold image_iff dest: eq_key_imp_eq_value)
  have vp: "set (viewer_peers ?sh2) = set (viewer_peers sh) - set ?ps"
    unfolding without_viewers viewer_peers_def by auto
  have op: "owner_peers ?sh2 = owner_peers sh" unfolding without_viewers by simp
  have "length (sh_viewers ?sh2) \<le> MAX_VIEWERS"
    using ok(2) by (simp add: v share_ok_def) (meson le_trans length_filter_le)
  moreover have "\<forall>(p, w) \<in> set (sh_viewers ?sh2). wh_user (vw_who w) \<noteq> sh_owner_id ?sh2 \<and>
      wh_user (vw_who w) \<notin> set (sh_removed ?sh2) \<and> wh_user (vw_who w) \<in> set (sh_joined ?sh2)"
    using ok(2) unfolding v by (auto simp: share_ok_def without_viewers)
  moreover have "jsmap_ok (sh_viewers ?sh2)" using d by (simp add: v distinct_map_filter)
  moreover have "\<forall>p. sh_control ?sh2 = Some p \<longrightarrow> p \<in> set (viewer_peers ?sh2)"
  proof (intro allI impI)
    fix p assume "sh_control ?sh2 = Some p"
    then have "sh_control ?sh1 = Some p" "p \<notin> set ?ps"
      unfolding without_viewers_control by (metis option.distinct(1))+
    then have "sh_control sh = Some p" "p \<notin> set ?ps" by (simp, blast)
    then show "p \<in> set (viewer_peers ?sh2)" using ok(2) unfolding vp share_ok_def by blast
  qed
  moreover have "set (owner_peers ?sh2) \<inter> set (viewer_peers ?sh2) = {}"
    using ok(2) unfolding vp op by (auto simp: share_ok_def)
  moreover have "\<forall>m. sh_owner ?sh2 = Some m \<longrightarrow> wh_user (mb_who m) = sh_owner_id ?sh2"
    using ok(2) by (simp add: without_viewers share_ok_def)
  ultimately have ok2: "share_ok ?sh2" unfolding share_ok_def by blast
  have sub: "set ?ps \<subseteq> set (viewer_peers sh)" by (auto simp: viewer_peers_def)
  have m: "members ?sh2 \<union> set ?ps = members sh" "members ?sh2 \<inter> set ?ps = {}"
    using sub ok(2) unfolding members_def vp op by (auto simp: share_ok_def)
  have "reg_inv ?r2"
    using f ok by (intro reg_inv_update [OF inv sh _ ok2 m])
      (auto simp: without_viewers jsget_jsset)
  then show ?thesis using False by (simp add: remove_user_def Let_def)
qed

lemma reg_inv_drop_control:
  assumes inv: "reg_inv r" and sh: "jsget (rg_heap r) k = Some sh"
  shows "reg_inv (put_share r k (sh\<lparr>sh_control := None\<rparr>))"
  using reg_inv_share [OF inv sh] control_none_ok by (intro reg_inv_same_members [OF inv sh]) auto

lemma reg_inv_owner_message:
  assumes inv: "reg_inv r" and sh: "jsget (rg_heap r) k = Some sh"
  shows "reg_inv (fst (owner_message is_open r k sh src m))"
proof (cases m)
  case (C_resize c rw)
  have "reg_inv (put_share r k (sh\<lparr>sh_cols := c, sh_rows := rw\<rparr>))"
    using reg_inv_share [OF inv sh] by (intro reg_inv_same_members [OF inv sh]) (auto simp: share_ok_def members_def)
  then show ?thesis using C_resize by (simp add: owner_message_def Let_def)
next
  case C_take_back
  then show ?thesis
    using inv reg_inv_drop_control [OF inv sh]
    by (auto simp: owner_message_def drop_control_def Let_def split: option.split)
qed (use inv sh in \<open>simp_all add: owner_message_def reg_inv_grant reg_inv_decline reg_inv_remove_user reg_inv_end_share\<close>)

lemma reg_inv_viewer_message:
  assumes inv: "reg_inv r" and sh: "jsget (rg_heap r) k = Some sh" and v: "jsget (sh_viewers sh) p = Some v"
  shows "reg_inv (fst (viewer_message r k sh p v now m))"
proof -
  note s = reg_inv_set_viewer [OF inv sh v]
  show ?thesis
    using inv s reg_inv_drop_control [OF inv sh]
    by (cases m) (auto simp: viewer_message_def request_control_def release_def viewer_input_def drop_control_def Let_def
        split: option.split)
qed

lemma reg_inv_message:
  assumes inv: "reg_inv r"
  shows "reg_inv (fst (message is_open r p now m))"
  using inv
  by (auto simp: message_def reg_inv_owner_message reg_inv_viewer_message split: option.split)

lemma reg_inv_set_owner:
  assumes inv: "reg_inv r" and sh: "jsget (rg_heap r) k = Some sh" and ow: "sh_owner sh = Some ow"
  shows "reg_inv (put_share r k (sh\<lparr>sh_owner := Some (ow\<lparr>mb_alive := a\<rparr>)\<rparr>))"
proof -
  have "owner_peers sh = [mb_peer ow]" using ow by (simp add: owner_peers_def owner_peer_def)
  then show ?thesis
    using reg_inv_share [OF inv sh] ow
    by (intro reg_inv_same_members [OF inv sh]) (auto simp: share_ok_def members_def)
qed

lemma reg_inv_pong: "reg_inv r \<Longrightarrow> reg_inv (pong r p)"
  by (auto simp: pong_def reg_inv_set_owner reg_inv_set_viewer split: option.split)

lemma fold_keeps: "(\<And>r x. I r \<Longrightarrow> I (f r x)) \<Longrightarrow> I r \<Longrightarrow> I (foldl f r xs)"
  by (induction xs arbitrary: r) auto

lemma viewer_atD:
  assumes "viewer_at r k p = Some (sh, v)"
  shows "jsget (rg_heap r) k = Some sh" "jsget (sh_viewers sh) p = Some v" "p \<in> set (viewer_peers sh)"
  using assms jshas_iff [of "sh_viewers sh" p]
  by (auto simp: viewer_at_def viewer_peers_def split: option.splits)

lemma reg_inv_beat_viewer: "reg_inv r \<Longrightarrow> reg_inv (beat_viewer is_open now k r p)"
  by (auto simp: beat_viewer_def reg_inv_detach viewer_atD reg_inv_set_viewer reg_inv_dismiss split: option.split)

lemma reg_inv_beat_owner: "reg_inv r \<Longrightarrow> reg_inv (beat_owner r k)"
  by (auto simp: beat_owner_def reg_inv_set_owner dest!: live_shareD split: option.splits)

lemma reg_inv_beat_share: "reg_inv r \<Longrightarrow> reg_inv (beat_share is_open now r k)"
  by (auto simp: beat_share_def reg_inv_end_share reg_inv_beat_owner
      intro!: reg_inv_beat_owner fold_keeps [where I = reg_inv] reg_inv_beat_viewer split: option.splits)

lemma reg_inv_revoke_viewer: "reg_inv r \<Longrightarrow> reg_inv (revoke_viewer ev k r p)"
  by (auto simp: revoke_viewer_def viewer_atD reg_inv_dismiss split: option.split)

lemma reg_inv_revoke_share: "reg_inv r \<Longrightarrow> reg_inv (revoke_share is_open t ev r k)"
  by (auto simp: revoke_share_def reg_inv_end_share
      intro!: fold_keeps [where I = reg_inv] reg_inv_revoke_viewer split: option.splits)

lemma reg_inv_timeout: "reg_inv r \<Longrightarrow> reg_inv (attach_timeout is_open r k)"
proof (cases "jsget (rg_heap r) k")
  case (Some sh)
  assume inv: "reg_inv r"
  have "reg_inv (put_share r k (sh\<lparr>sh_timer := False\<rparr>))"
    using reg_inv_share [OF inv Some] by (intro reg_inv_same_members [OF inv Some]) auto
  then show ?thesis using Some inv by (simp add: attach_timeout_def Let_def reg_inv_end_share)
qed (simp add: attach_timeout_def)

lemma reg_inv_recheck_viewer:
  assumes inv: "reg_inv r"
  shows "reg_inv (recheck_viewer r k p v)"
proof (cases "jsget (rg_heap r) k")
  case (Some sh)
  have "jshas (sh_viewers sh) p \<Longrightarrow> p \<in> set (viewer_peers sh)" by (simp only: jshas_iff viewer_peers_def)
  then show ?thesis using Some inv reg_inv_dismiss [OF inv Some] by (simp add: recheck_viewer_def)
qed (use inv in \<open>simp add: recheck_viewer_def\<close>)

lemma reg_inv_apply_op:
  assumes "reg_inv r" and "op_ok r x"
  shows "reg_inv (apply_op is_open r x)"
  using assms
  by (cases x)
     (auto simp: reg_inv_create reg_inv_timeout reg_inv_attach reg_inv_output reg_inv_message reg_inv_detach reg_inv_pong
       reg_inv_recheck_viewer abandon_def recheck_owner_def reg_inv_end_share heartbeat_def session_ended_def
       end_tenants_def close_all_def reg_inv_beat_share reg_inv_revoke_share
       intro!: fold_keeps [where I = reg_inv] split: option.split simp del: not_None_eq)

lemma reg_inv_step: "reg_inv r \<Longrightarrow> reg_inv (step is_open r x)"
  by (simp add: step_def reg_inv_apply_op)

lemma reg_inv_new: "reg_inv new_registry"
  by (simp add: reg_inv_def new_registry_def)

interpretation shares: machine "step is_open" reg_inv for is_open
  by unfold_locales (rule reg_inv_step)


section \<open>What a step may do\<close>

definition no_input :: "effect list \<Rightarrow> bool" where
  "no_input es \<longleftrightarrow> (\<forall>q u d. Send_text q (Input u d) \<notin> set es)"

text \<open>
  \<open>grown C r r'\<close>: what was sent stays sent, shares stay in the heap with the users they threw out, an ended
  share stays ended, and a share's control is where it was, dropped, or newly held as \<open>C\<close> allows.
\<close>

definition same_share :: "(share_key \<times> peer) set \<Rightarrow> share_key \<Rightarrow> share \<Rightarrow> share \<Rightarrow> bool" where
  "same_share C k sh sh' \<longleftrightarrow> set (sh_removed sh) \<subseteq> set (sh_removed sh') \<and> sh_owner_id sh' = sh_owner_id sh \<and>
     sh_workspace sh' = sh_workspace sh \<and>
     (\<forall>p. sh_control sh' = Some p \<longrightarrow> sh_control sh = Some p \<or> (k, p) \<in> C)"

definition grown :: "(share_key \<times> peer) set \<Rightarrow> registry \<Rightarrow> registry \<Rightarrow> bool" where
  "grown C r r' \<longleftrightarrow>
     (\<forall>k sh. jsget (rg_heap r) k = Some sh \<longrightarrow> (\<exists>sh'. jsget (rg_heap r') k = Some sh' \<and> same_share C k sh sh') \<and>
        (k \<notin> set (rg_live r) \<longrightarrow> k \<notin> set (rg_live r')))"

definition calm :: "registry \<Rightarrow> registry \<Rightarrow> bool" where
  "calm r r' \<longleftrightarrow> grown {} r r' \<and> (\<exists>es. rg_out r' = rg_out r @ es \<and> no_input es)"

lemma no_input_simps [simp]:
  "no_input []" "no_input (es @ fs) \<longleftrightarrow> no_input es \<and> no_input fs"
  "no_input (e # es) \<longleftrightarrow> (\<forall>q u d. e \<noteq> Send_text q (Input u d)) \<and> no_input es"
  by (auto simp: no_input_def)

lemma no_input_sends [simp]:
  "no_input (send_presence sh)" "no_input (send_control sh)"
  "no_input (map (\<lambda>q. Send_binary q d) qs)"
  "no_input (map (\<lambda>(p, v). Send_text p Declined) vs)"
  "no_input (to_viewers sh (Resize c rw))"
  by (auto simp: no_input_def send_presence_def send_control_def to_all_def to_viewers_def presence_of_def)

lemma no_input_audit [simp]: "audit sh s d \<noteq> Send_text q m"
  by (simp add: audit_def)

lemma no_input_concat: "(\<And>es. es \<in> set ess \<Longrightarrow> no_input es) \<Longrightarrow> no_input (concat ess)"
  by (auto simp: no_input_def)

lemma same_share_refl [simp]: "same_share C k sh sh"
  by (simp add: same_share_def)

lemma same_share_trans: "same_share C k s t \<Longrightarrow> same_share D k t u \<Longrightarrow> same_share (C \<union> D) k s u"
  by (auto simp: same_share_def)

lemma grown_refl [simp]: "grown C r r"
  by (auto simp: grown_def)

lemma grown_trans: "grown C r s \<Longrightarrow> grown D s t \<Longrightarrow> grown (C \<union> D) r t"
  unfolding grown_def by (meson same_share_trans)

lemma calm_refl [simp]: "calm r r"
  by (auto simp: calm_def intro: exI [of _ "[]"])

lemma calm_trans: "calm r s \<Longrightarrow> calm s t \<Longrightarrow> calm r t"
  unfolding calm_def using grown_trans [of "{}" r s "{}" t] by auto

lemma grown_put:
  assumes "jsget (rg_heap r) k = Some sh" and "same_share C k sh sh'"
    and "rg_heap r' = jsset (rg_heap r) k sh'" and "set (rg_live r') \<subseteq> set (rg_live r)"
  shows "grown C r r'"
  using assms by (auto simp: grown_def jsget_jsset)

lemma calm_put:
  assumes "jsget (rg_heap r) k = Some sh" and "same_share {} k sh sh'"
    and "rg_heap r' = jsset (rg_heap r) k sh'" and "set (rg_live r') \<subseteq> set (rg_live r)"
    and "rg_out r' = rg_out r @ es" and "no_input es"
  shows "calm r r'"
  using grown_put [OF assms(1-4)] assms(5,6) by (auto simp: calm_def)

lemma calm_emit: "no_input es \<Longrightarrow> calm r s \<Longrightarrow> calm r (emit s es)"
  unfolding calm_def by (auto simp: grown_def)

lemma calm_fold: "(\<And>r x. calm r (f r x)) \<Longrightarrow> calm r (foldl f r xs)"
  by (induction xs arbitrary: r) (auto intro: calm_trans)

lemma calm_put_share:
  "jsget (rg_heap r) k = Some sh \<Longrightarrow> same_share {} k sh sh' \<Longrightarrow> calm r (put_share r k sh')"
  by (rule calm_put [of _ _ _ _ _ "[]"]) auto

lemma calm_dismiss: "calm r (dismiss r k p v rs c)"
proof (cases "jsget (rg_heap r) k")
  case (Some sh)
  let ?es = "(if sh_control sh = Some p then
      snd (drop_control (sh\<lparr>sh_viewers := jsdelete (sh_viewers sh) p\<rparr>) (wh_user (vw_who v)) (wh_source (vw_who v))
        (if rs = Removed then By_removed else By_access)) else []) @
      [Send_text p (Ended rs), Close p c] @ send_presence (without_viewer sh p)"
  show ?thesis
    by (rule calm_put [of _ k sh "without_viewer sh p" _ ?es])
       (use Some dismiss_fields [OF Some] in
         \<open>auto simp: same_share_def without_viewer_def dismiss_def Let_def drop_control_def\<close>)
qed (simp add: dismiss_def)

lemma calm_end_share: "calm r (end_share is_open r k rs src code)"
proof (cases "live_share r k")
  case (Some sh)
  then show ?thesis
    using live_shareD [OF Some]
    by (intro calm_put [of _ k sh "sh\<lparr>sh_timer := False\<rparr>"])
       (auto simp: end_share_def Let_def same_share_def intro!: no_input_concat)
qed (simp add: end_share_def)

lemma calm_by_peer [simp]: "calm r (s\<lparr>rg_by_peer := m\<rparr>) = calm r s"
  by (simp add: calm_def grown_def)

lemma calm_by_peer_left: "calm (r\<lparr>rg_by_peer := m\<rparr>) s = calm r s"
  by (simp add: calm_def grown_def)

lemma calm_detach: "calm r (detach is_open r p)"
proof (cases "jsget (rg_by_peer r) p")
  case (Some k)
  let ?r1 = "r\<lparr>rg_by_peer := jsdelete (rg_by_peer r) p\<rparr>"
  have c: "calm r (end_share is_open ?r1 k rs src code)" for rs src code
    using calm_end_share [of ?r1 is_open k rs src code] by (simp add: calm_by_peer_left)
  show ?thesis
  proof (cases "jsget (rg_heap r) k")
    case sh: (Some sh)
    have "calm r (emit (put_share ?r1 k sh') es)" if "same_share {} k sh sh'" "no_input es" for sh' es
      using that sh by (intro calm_put [of _ k sh sh' _ es]) auto
    then show ?thesis
      using Some sh c by (auto simp: detach_def Let_def drop_control_def same_share_def split: option.split)
  qed (simp add: detach_def Some)
qed (simp add: detach_def)

lemma calm_timeout: "calm r (attach_timeout is_open r k)"
proof (cases "jsget (rg_heap r) k")
  case (Some sh)
  have "calm r (put_share r k (sh\<lparr>sh_timer := False\<rparr>))"
    using Some by (intro calm_put_share) (auto simp: same_share_def)
  then show ?thesis
    using Some calm_trans calm_end_share by (fastforce simp: attach_timeout_def Let_def)
qed (simp add: attach_timeout_def)

lemma calm_create:
  assumes "\<not> jshas (rg_heap r) (Share_key (ci_tenant i) sid)"
  shows "calm r (create r sid i)"
proof -
  have "key_of (new_share sid i) = Share_key (ci_tenant i) sid" by (simp add: key_of_def new_share_def)
  then show ?thesis using assms by (auto simp: create_def Let_def calm_def grown_def jsget_jsset)
qed

lemma calm_attach: "calm r (fst (attach r t p who w sid))"
proof (cases "live_share r (Share_key t sid)")
  case (Some sh)
  let ?k = "Share_key t sid"
  have sh: "jsget (rg_heap r) ?k = Some sh" using live_shareD [OF Some] by simp
  have "calm r (attach_owner r ?k sh p who)"
    unfolding attach_owner_def Let_def using sh
    by (intro calm_emit) (auto intro!: calm_put_share simp: same_share_def)
  moreover have "calm r (attach_viewer r ?k sh p who)"
    unfolding attach_viewer_def Let_def using sh
    by (intro calm_emit) (auto intro!: calm_put_share simp: same_share_def)
  ultimately show ?thesis using Some by (simp add: attach_def Let_def)
qed (simp add: attach_def Let_def)

lemma calm_output: "calm r (fst (output_frame r p d))"
  by (auto simp: output_frame_def same_share_def intro!: calm_emit calm_put_share split: option.split)

lemma calm_decline: "jsget (rg_heap r) k = Some sh \<Longrightarrow> calm r (decline r k sh user)"
  unfolding decline_def Let_def by (intro calm_emit) (auto intro!: calm_put_share simp: same_share_def)

lemma calm_remove_user:
  assumes "jsget (rg_heap r) k = Some sh"
  shows "calm r (remove_user r k sh src user)"
proof -
  have "calm r (put_share r k (sh\<lparr>sh_removed := jsadd (sh_removed sh) user\<rparr>))"
    using assms by (intro calm_put_share) (auto simp: same_share_def)
  moreover have "calm s (foldl (\<lambda>r (p, v). dismiss r k p v rs c) s pvs)" for s rs c pvs
    by (rule calm_fold) (auto simp: calm_dismiss)
  ultimately show ?thesis
    unfolding remove_user_def Let_def by (auto intro!: calm_emit elim: calm_trans)
qed

lemma calm_owner_message:
  assumes "jsget (rg_heap r) k = Some sh" and "\<And>user. m \<noteq> C_grant user"
  shows "calm r (fst (owner_message is_open r k sh src m))"
  using assms
  by (cases m) (auto simp: owner_message_def Let_def drop_control_def same_share_def calm_end_share calm_decline
      calm_remove_user intro!: calm_emit calm_put_share split: option.split)

lemma calm_viewer_message:
  assumes "jsget (rg_heap r) k = Some sh" and "\<And>d. m \<noteq> C_input d"
  shows "calm r (fst (viewer_message r k sh p v now m))"
  using assms
  by (cases m) (auto simp: viewer_message_def request_control_def release_def Let_def drop_control_def same_share_def
      intro!: calm_emit calm_put_share)

lemma calm_pong: "calm r (pong r p)"
  by (auto simp: pong_def same_share_def intro!: calm_put_share split: option.split)

lemma calm_beat_viewer: "calm r (beat_viewer is_open now k r p)"
proof (cases "viewer_at r k p")
  case (Some sv)
  obtain sh v where sv: "sv = (sh, v)" by fastforce
  have sh: "jsget (rg_heap r) k = Some sh" using viewer_atD(1) Some sv by simp
  have "calm r (detach is_open (emit r [Terminate p]) p)"
    using calm_trans [OF _ calm_detach] calm_emit [of "[Terminate p]" r r] by simp
  then show ?thesis
    using Some sv sh calm_dismiss
    by (auto simp: beat_viewer_def same_share_def intro!: calm_emit calm_put_share)
qed (simp add: beat_viewer_def)

lemma calm_beat_owner: "calm r (beat_owner r k)"
  by (auto simp: beat_owner_def same_share_def dest!: live_shareD intro!: calm_emit calm_put_share split: option.split)

lemma calm_beat_share: "calm r (beat_share is_open now r k)"
proof -
  have f: "calm r (foldl (beat_viewer is_open now k) r ps)" for r ps by (intro calm_fold calm_beat_viewer)
  show ?thesis
    using f calm_end_share calm_trans [OF f calm_beat_owner]
    by (auto simp: beat_share_def intro!: calm_emit split: option.split)
qed

lemma calm_revoke_viewer: "calm r (revoke_viewer ev k r p)"
  by (auto simp: revoke_viewer_def calm_dismiss split: option.split)

lemma calm_revoke_share: "calm r (revoke_share is_open t ev r k)"
  by (auto simp: revoke_share_def calm_end_share intro!: calm_fold calm_revoke_viewer split: option.split)

lemma calm_apply_op:
  assumes "op_ok r x" and "\<And>p now m. x \<noteq> Op_message p now m"
  shows "calm r (apply_op is_open r x)"
  using assms
  by (cases x)
     (auto simp: calm_create calm_timeout calm_attach calm_output calm_detach calm_pong recheck_viewer_def calm_dismiss
       abandon_def recheck_owner_def calm_end_share heartbeat_def session_ended_def end_tenants_def close_all_def
       intro!: calm_fold calm_beat_share calm_revoke_share split: option.split)

text \<open>The two messages that are not calm.\<close>

lemma calm_message:
  assumes "\<And>user. m \<noteq> C_grant user" "\<And>d. m \<noteq> C_input d"
  shows "calm r (fst (message is_open r p now m))"
  using assms
  by (auto simp: message_def intro!: calm_emit calm_owner_message calm_viewer_message split: option.split)

definition grantable :: "registry \<Rightarrow> peer \<Rightarrow> string \<Rightarrow> (share_key \<times> peer) set" where
  "grantable r q user = {(k, p). \<exists>sh v. jsget (rg_by_peer r) q = Some k \<and> jsget (rg_heap r) k = Some sh \<and>
     owner_peer sh = Some q \<and> (p, v) \<in> set (sh_viewers sh) \<and> vw_requesting v \<and> wh_user (vw_who v) = user}"

lemma grant_grown:
  assumes "jsget (rg_by_peer r) q = Some k" "jsget (rg_heap r) k = Some sh" "owner_peer sh = Some q"
  shows "grown (grantable r q user) r (grant r k sh src user) \<and>
    (\<exists>es. rg_out (grant r k sh src user) = rg_out r @ es \<and> no_input es)"
proof (cases "requesting_viewer sh user")
  case (Some pv)
  obtain p v where pv: "pv = (p, v)" by fastforce
  have v: "(p, v) \<in> set (sh_viewers sh) \<and> wh_user (vw_who v) = user \<and> vw_requesting v"
    using requesting_viewerD Some pv by blast
  let ?sh = "sh\<lparr>sh_viewers := jsset (sh_viewers sh) p (v\<lparr>vw_requesting := False\<rparr>), sh_control := Some p\<rparr>"
  have "(k, p) \<in> grantable r q user" using assms v by (auto simp: grantable_def)
  then have "same_share (grantable r q user) k sh ?sh" by (simp add: same_share_def)
  then have "grown (grantable r q user) r (grant r k sh src user)"
    by (rule grown_put [OF assms(2)]) (simp_all add: grant_def Some pv Let_def)
  then show ?thesis by (auto simp: grant_def Some pv Let_def split: option.split)
qed (simp add: grant_def)

lemma message_grown:
  "grown (case m of C_grant user \<Rightarrow> grantable r p user | _ \<Rightarrow> {}) r (fst (message is_open r p now m))"
proof (cases "\<exists>d. m = C_input d")
  case True
  then obtain d where m: "m = C_input d" by blast
  have g: "grown {} r (viewer_input r k sh p v now d)" if "jsget (rg_heap r) k = Some sh" for k sh v
    using that by (auto simp: viewer_input_def Let_def same_share_def grown_def jsget_jsset split: option.split)
  show ?thesis
    using g by (auto simp: m message_def owner_message_def viewer_message_def split: option.split)
next
  case False
  show ?thesis
  proof (cases "\<exists>user. m = C_grant user")
    case True
    then obtain user where m: "m = C_grant user" by blast
    show ?thesis
      using grant_grown by (auto simp: m message_def owner_message_def viewer_message_def split: option.split)
  next
    case F2: False
    then have "grown {} r (fst (message is_open r p now m))"
      using False calm_message [of m r is_open p now] by (auto simp: calm_def)
    then show ?thesis using F2 by (cases m) auto
  qed
qed

lemma step_grown:
  "grown (case x of Op_message p now (C_grant user) \<Rightarrow> grantable r p user | _ \<Rightarrow> {}) r (step is_open r x)"
proof (cases "\<exists>p now m. x = Op_message p now m")
  case True
  then obtain p now m where x: "x = Op_message p now m" by blast
  show ?thesis using message_grown [where m = m and r = r and p = p and is_open = is_open and now = now] by (cases m) (simp_all add: x step_def)
next
  case False
  then have "calm r (step is_open r x)" by (auto simp: step_def intro: calm_apply_op)
  then show ?thesis using False by (cases x) (auto simp: calm_def)
qed

lemma step_input:
  assumes "rg_out (step is_open r x) = rg_out r @ es" and "\<not> no_input es"
  shows "\<exists>p now d. x = Op_message p now (C_input d)"
proof (rule ccontr)
  assume n: "\<nexists>p now d. x = Op_message p now (C_input d)"
  have "\<exists>fs. rg_out (step is_open r x) = rg_out r @ fs \<and> no_input fs"
  proof (cases "\<exists>p now m. x = Op_message p now m")
    case True
    then obtain p now m where x: "x = Op_message p now m" by blast
    show ?thesis
    proof (cases "\<exists>user. m = C_grant user")
      case True
      then obtain user where m: "m = C_grant user" by blast
      show ?thesis
        using grant_grown by (auto simp: x m step_def message_def owner_message_def viewer_message_def split: option.split)
    next
      case False
      then show ?thesis using n x calm_message [of m r is_open p now] by (auto simp: step_def calm_def)
    qed
  next
    case False
    then have "calm r (step is_open r x)" by (auto simp: step_def intro: calm_apply_op)
    then show ?thesis by (auto simp: calm_def)
  qed
  then show False using assms by auto
qed

text \<open>C14: Keystrokes reach a session only from the viewer who holds its control: whatever happens, an input message is sent
  only as the answer to an input frame of the socket that holds the control of its share, it names that
  viewer's user, carries what they typed, and goes to that share's owner.\<close>

theorem input_only_from_holder:
  assumes "rg_out (step is_open r x) = rg_out r @ es" and "Send_text q (Input u d) \<in> set es"
  shows "\<exists>p now k sh v. x = Op_message p now (C_input d) \<and> jsget (rg_by_peer r) p = Some k \<and>
     jsget (rg_heap r) k = Some sh \<and> sh_control sh = Some p \<and> jsget (sh_viewers sh) p = Some v \<and>
     wh_user (vw_who v) = u \<and> owner_peer sh = Some q"
proof -
  have "\<not> no_input es" using assms(2) by (auto simp: no_input_def)
  then obtain p now d' where x: "x = Op_message p now (C_input d')" using step_input assms(1) by blast
  have "rg_out (fst (message is_open r p now (C_input d'))) = rg_out r @ es" using assms(1) x by (simp add: step_def)
  then show ?thesis
    using assms(2) x
    by (auto simp: message_def owner_message_def viewer_message_def viewer_input_def Let_def owner_peer_def
        split: option.splits if_splits)
qed

text \<open>C18: Control is only given, by the owner, to a viewer who asked: when a step leaves a viewer holding the control of a
  share who did not hold it before, the step is a grant from that share's owner naming that viewer's user,
  and the viewer had an open request.\<close>

theorem control_only_by_grant:
  assumes "jsget (rg_heap r) k = Some sh" and "jsget (rg_heap (step is_open r x)) k = Some sh'"
    and "sh_control sh' = Some p" and "sh_control sh \<noteq> Some p"
  shows "\<exists>q now user v. x = Op_message q now (C_grant user) \<and> jsget (rg_by_peer r) q = Some k \<and>
     owner_peer sh = Some q \<and> (p, v) \<in> set (sh_viewers sh) \<and> vw_requesting v \<and> wh_user (vw_who v) = user"
proof -
  have "(k, p) \<in> (case x of Op_message p now (C_grant user) \<Rightarrow> grantable r p user | _ \<Rightarrow> {})"
    using step_grown [where x = x and r = r and is_open = is_open] assms unfolding grown_def same_share_def by fastforce
  then show ?thesis using assms(1) by (cases x) (auto simp: grantable_def split: client_message.splits)
qed

definition below :: "registry \<Rightarrow> registry \<Rightarrow> bool" where
  "below r r' \<longleftrightarrow> grown UNIV r r'"

lemma grown_mono: "grown C r r' \<Longrightarrow> C \<subseteq> D \<Longrightarrow> grown D r r'"
  unfolding grown_def same_share_def by (meson subsetD)

interpretation shares: climbing_machine "step is_open" reg_inv below for is_open
proof unfold_locales
  show "below s s" for s by (simp add: below_def)
  show "below s t \<Longrightarrow> below t u \<Longrightarrow> below s u" for s t u
    using grown_trans [of UNIV s t UNIV u] by (simp add: below_def)
  show "below s (step is_open s x)" for s x
    unfolding below_def by (rule grown_mono [OF step_grown]) simp
qed


text \<open>A lookup that answers no after its share ended still acts on the share: the viewer who held control is sent a second
  end and the audit log gets a returned control for a share whose end it already has.\<close>

theorem late_recheck_audits_ended_share:
  assumes "reg_inv r" and "jsget (rg_heap r) k = Some sh" and "k \<notin> set (rg_live r)"
    and "sh_control sh = Some p" and "jsget (sh_viewers sh) p = Some v"
  shows "Audit k (sh_workspace sh) (wh_source (vw_who v)) (Control_returned (wh_user (vw_who v)) By_access)
      \<in> set (drop (length (rg_out r)) (rg_out (step is_open r (Op_recheck_viewer k p v))))"
proof -
  have "key_of sh = k" using reg_inv_share [OF assms(1,2)] by simp
  then have "sh_tenant sh = t \<and> sh_id sh = i \<longleftrightarrow> k = Share_key t i" for t i by (auto simp: key_of_def)
  then show ?thesis
    using assms \<open>key_of sh = k\<close>
    by (auto simp: step_def recheck_viewer_def dismiss_def drop_control_def Let_def audit_def)
qed

section \<open>Witnesses\<close>

definition who :: "string \<Rightarrow> identity" where
  "who u = \<lparr>wh_user = u, wh_name = u, wh_token = u, wh_expires = 1000, wh_source = u\<rparr>"

definition sample_input :: create_input where
  "sample_input = \<lparr>ci_workspace = ''w'', ci_host = ''h'', ci_cols = 80, ci_rows = 24, ci_owner_id = ''o'',
     ci_owner_name = ''O'', ci_source = ''o'', ci_tenant = ''t''\<rparr>"

definition share_at :: "bool \<Rightarrow> share" where
  "share_at control = (new_share ''s'' sample_input)\<lparr>sh_timer := False, sh_joined := [''v''],
     sh_owner := Some \<lparr>mb_peer = 1, mb_who = who ''o'', mb_alive = True\<rparr>,
     sh_viewers := [(2, \<lparr>vw_who = who ''v'', vw_alive = True, vw_requesting = \<not> control, vw_inputs = 0, vw_window = 0\<rparr>)],
     sh_control := (if control then Some 2 else None)\<rparr>"

definition sample_key :: share_key where
  "sample_key = Share_key ''t'' ''s''"

definition asked :: registry where
  "asked = run (step (\<lambda>_. True)) new_registry [Op_create ''s'' sample_input, Op_attach ''t'' 1 (who ''o'') ''w'' ''s'',
     Op_attach ''t'' 2 (who ''v'') ''w'' ''s'', Op_message 2 0 C_request_control]"

definition granted :: registry where
  "granted = run (step (\<lambda>_. True)) asked [Op_message 1 0 (C_grant ''v'')]"

definition ended :: registry where
  "ended = run (step (\<lambda>_. True)) granted [Op_detach 1]"

lemmas registry_simps = step_def create_def attach_def attach_owner_def attach_viewer_def live_share_def in_tenant_def
  message_def owner_message_def viewer_message_def request_control_def grant_def requesting_viewer_def
  owner_peer_def viewer_peers_def owner_peers_def members_def new_share_def key_of_def new_registry_def emit_def
  put_share_def MAX_VIEWERS_def sample_input_def who_def jsadd_def share_at_def sample_key_def

lemma asked_state:
  "rg_live asked = [sample_key]" "rg_heap asked = [(sample_key, share_at False)]"
  "rg_by_peer asked = [(1, sample_key), (2, sample_key)]"
  by (simp_all add: asked_def registry_simps Let_def)

lemma granted_state:
  "rg_live granted = [sample_key]" "rg_heap granted = [(sample_key, share_at True)]"
  "rg_by_peer granted = [(1, sample_key), (2, sample_key)]"
  using asked_state by (simp_all add: granted_def registry_simps Let_def)

lemma ended_state:
  "rg_live ended = []" "rg_heap ended = [(sample_key, share_at True)]"
  using granted_state
  by (simp_all add: ended_def registry_simps detach_def end_share_def jsremove_def Let_def)

lemma share_at_simps:
  "sh_control (share_at c) = (if c then Some 2 else None)" "owner_peer (share_at c) = Some 1"
  "sh_viewers (share_at c) =
     [(2, \<lparr>vw_who = who ''v'', vw_alive = True, vw_requesting = \<not> c, vw_inputs = 0, vw_window = 0\<rparr>)]"
  "sh_owner (share_at c) = Some \<lparr>mb_peer = 1, mb_who = who ''o'', mb_alive = True\<rparr>"
  by (simp_all add: share_at_def owner_peer_def)

lemma reg_inv_samples: "reg_inv asked" "reg_inv granted" "reg_inv ended"
  unfolding ended_def granted_def asked_def by (intro shares.inv_run reg_inv_new)+


lemma granted_types:
  "rg_out (step (\<lambda>_. True) granted (Op_message 2 0 (C_input ''ls''))) = rg_out granted @ [Send_text 1 (Input ''v'' ''ls'')]"
  using granted_state
  by (simp add: step_def message_def viewer_message_def viewer_input_def share_at_simps INPUTS_PER_SECOND_def who_def Let_def)

theorem input_only_from_holder_witness:
  "\<exists>sh. jsget (rg_heap granted) sample_key = Some sh \<and> owner_peer sh = Some 1"
proof -
  from input_only_from_holder [OF granted_types, of 1 "''v''" "''ls''"]
  obtain k sh where "jsget (rg_by_peer granted) 2 = Some k" "jsget (rg_heap granted) k = Some sh" "owner_peer sh = Some 1"
    by auto
  then show ?thesis by (simp add: granted_state)
qed

theorem control_only_by_grant_witness: "\<exists>v. (2, v) \<in> set (sh_viewers (share_at False)) \<and> vw_requesting v"
proof -
  have "jsget (rg_heap asked) sample_key = Some (share_at False)" by (simp add: asked_state)
  moreover have "jsget (rg_heap (step (\<lambda>_. True) asked (Op_message 1 0 (C_grant ''v'')))) sample_key = Some (share_at True)"
    using granted_state(2) by (simp add: granted_def)
  ultimately show ?thesis
    using control_only_by_grant [of asked sample_key "share_at False" "\<lambda>_. True" "Op_message 1 0 (C_grant ''v'')" "share_at True" 2]
    by (auto simp: share_at_simps(1))
qed


theorem late_recheck_audits_ended_share_witness:
  "\<exists>v w. Audit sample_key w ''v'' (Control_returned ''v'' By_access)
     \<in> set (drop (length (rg_out ended)) (rg_out (step (\<lambda>_. True) ended (Op_recheck_viewer sample_key 2 v))))"
proof -
  have "jsget (rg_heap ended) sample_key = Some (share_at True)" "sample_key \<notin> set (rg_live ended)"
    by (simp_all add: ended_state)
  from late_recheck_audits_ended_share [OF reg_inv_samples(3) this, of 2 _ "\<lambda>_. True"] show ?thesis
    by (simp add: share_at_simps who_def) blast
qed

end
