(* ===== verification/Iso_Date.thy ===== *)
theory Iso_Date
  imports Text
begin

text \<open>
  \<^verbatim>\<open>Date.parse\<close> of the standard library on the date-times the schemas admit (\<^verbatim>\<open>z.iso.datetime({ offset: true })\<close>):
  \<^verbatim>\<open>YYYY-MM-DDTHH:MM[:SS[.fff]]\<close> with \<^verbatim>\<open>Z\<close> or an offset, in milliseconds since 1970. \<open>None\<close> is \<^verbatim>\<open>NaN\<close>, the
  answer to anything else.
\<close>

definition ascii_digit :: "char \<Rightarrow> bool" where
  "ascii_digit c \<longleftrightarrow> CHR ''0'' \<le> c \<and> c \<le> CHR ''9''"

definition digit_value :: "char \<Rightarrow> int" where
  "digit_value c = int (of_char c) - 48"

fun take_digits :: "nat \<Rightarrow> int \<Rightarrow> string \<Rightarrow> (int \<times> string) option" where
  "take_digits 0 acc s = Some (acc, s)"
| "take_digits (Suc n) acc (c # s) =
     (if ascii_digit c then take_digits n (acc * 10 + digit_value c) s else None)"
| "take_digits (Suc n) acc [] = None"

fun take_char :: "char \<Rightarrow> string \<Rightarrow> string option" where
  "take_char c (d # s) = (if c = d then Some s else None)"
| "take_char c [] = None"

definition take_field :: "nat \<Rightarrow> int \<Rightarrow> int \<Rightarrow> string \<Rightarrow> (int \<times> string) option" where
  "take_field n lo hi s = Option.bind (take_digits n 0 s) (\<lambda>(v, r). if lo \<le> v \<and> v \<le> hi then Some (v, r) else None)"

text \<open>Seconds are optional, and so is their fraction, of which three digits count.\<close>

definition take_seconds :: "string \<Rightarrow> (int \<times> string) option" where
  "take_seconds s =
     (case take_char CHR '':'' s of
        None \<Rightarrow> Some (0, s)
      | Some r \<Rightarrow> Option.bind (take_field 2 0 59 r) (\<lambda>(sec, r).
          case take_char CHR ''.'' r of
            None \<Rightarrow> Some (sec * 1000, r)
          | Some f \<Rightarrow> (let ds = takeWhile ascii_digit f in
              if ds = [] then None
              else Option.bind (take_digits 3 0 (ds @ ''00'')) (\<lambda>(ms, _).
                Some (sec * 1000 + ms, dropWhile ascii_digit f)))))"

text \<open>Minutes east of Greenwich.\<close>

definition take_offset :: "string \<Rightarrow> int option" where
  "take_offset s =
     (if s = ''Z'' then Some 0
      else case s of
        [] \<Rightarrow> None
      | sign # r \<Rightarrow>
          if sign \<noteq> CHR ''+'' \<and> sign \<noteq> CHR ''-'' then None
          else Option.bind (take_field 2 0 23 r) (\<lambda>(h, r).
            Option.bind (take_char CHR '':'' r) (\<lambda>r.
            Option.bind (take_field 2 0 59 r) (\<lambda>(m, r).
            if r \<noteq> [] then None
            else Some ((if sign = CHR ''-'' then - 1 else 1) * (h * 60 + m))))))"

definition days_from_civil :: "int \<Rightarrow> int \<Rightarrow> int \<Rightarrow> int" where
  "days_from_civil y m d =
     (let y = (if m \<le> 2 then y - 1 else y); era = y div 400; yoe = y - era * 400;
          doy = (153 * (m + (if m > 2 then - 3 else 9)) + 2) div 5 + d - 1;
          doe = yoe * 365 + yoe div 4 - yoe div 100 + doy
      in era * 146097 + doe - 719468)"

definition date_parse :: "string \<Rightarrow> int option" where
  "date_parse s =
     Option.bind (take_field 4 0 9999 s) (\<lambda>(y, s).
     Option.bind (take_char CHR ''-'' s) (\<lambda>s.
     Option.bind (take_field 2 1 12 s) (\<lambda>(mo, s).
     Option.bind (take_char CHR ''-'' s) (\<lambda>s.
     Option.bind (take_field 2 1 31 s) (\<lambda>(d, s).
     Option.bind (take_char CHR ''T'' s) (\<lambda>s.
     Option.bind (take_field 2 0 23 s) (\<lambda>(h, s).
     Option.bind (take_char CHR '':'' s) (\<lambda>s.
     Option.bind (take_field 2 0 59 s) (\<lambda>(mi, s).
     Option.bind (take_seconds s) (\<lambda>(ms, s).
     Option.bind (take_offset s) (\<lambda>off.
       Some (((days_from_civil y mo d * 24 + h) * 60 + mi - off) * 60000 + ms))))))))))))"

lemma date_parse_samples:
  "date_parse ''1970-01-01T00:00:00Z'' = Some 0"
  "date_parse ''2024-02-29T12:30:45.678+02:00'' = Some 1709202645678"
  "date_parse ''2026-07-30'' = None"
  by code_simp+

end
