(* ===== verification/Vault.thy ===== *)
theory Vault
  imports Access_Log Iso_Date
begin

text \<open>
  \<^verbatim>\<open>packages/core/src/team-secrets\<close>: the envelope (\<^verbatim>\<open>envelope.ts\<close>), machine keys (\<^verbatim>\<open>keys.ts\<close>), the vault entries built
  on it (\<^verbatim>\<open>vault.ts\<close>) and the choice between two versions of one (\<^verbatim>\<open>resolve-conflict.ts\<close>). X25519, AES-256-GCM,
  HKDF and the random generator of \<^verbatim>\<open>node:crypto\<close> are fields of \<open>vault_crypto\<close>; the \<open>n\<close>-th draw from the generator
  is a function of \<open>n\<close>, and the functions that draw take and return the number of the next draw.
\<close>

section \<open>Primitives\<close>

record vault_crypto = crypto +
  x25519_public :: "string \<Rightarrow> bytes"
  x25519_importable :: "string \<Rightarrow> string \<Rightarrow> bool"
  x25519 :: "string \<Rightarrow> bytes \<Rightarrow> bytes option"
  hkdf_sha256 :: "bytes \<Rightarrow> bytes \<Rightarrow> string \<Rightarrow> nat \<Rightarrow> bytes"
  gcm_seal :: "bytes \<Rightarrow> bytes \<Rightarrow> bytes option \<Rightarrow> bytes \<Rightarrow> bytes \<times> bytes"
  gcm_open :: "bytes \<Rightarrow> bytes \<Rightarrow> bytes option \<Rightarrow> bytes \<Rightarrow> bytes \<Rightarrow> bytes option"
  ed25519_public :: "string \<Rightarrow> bytes"
  ed25519_importable :: "string \<Rightarrow> string \<Rightarrow> bool"
  draw_bytes :: "nat \<Rightarrow> nat \<Rightarrow> bytes"
  draw_private :: "nat \<Rightarrow> string"

text \<open>\<open>Raw_error\<close> is an error of \<^verbatim>\<open>node:crypto\<close> that the code lets through.\<close>

datatype vault_error = Decrypt_failed | Vault_bad_key | Vault_not_canonical | Raw_error

definition from_key_error :: "(key_error, 'a) result \<Rightarrow> (vault_error, 'a) result" where
  "from_key_error r = (case r of Inl _ \<Rightarrow> Inl Vault_bad_key | Inr x \<Rightarrow> Inr x)"

definition from_sign_error :: "(sign_error, 'a) result \<Rightarrow> (vault_error, 'a) result" where
  "from_sign_error r = (case r of Inl _ \<Rightarrow> Inl Vault_not_canonical | Inr x \<Rightarrow> Inr x)"

section \<open>Machine keys\<close>

record machine_keys =
  mk_key_id :: string
  mk_encryption_key :: string
  mk_signing_key :: string
  mk_encryption_private :: string
  mk_signing_private :: string

definition generate_machine_keys :: "vault_crypto \<Rightarrow> nat \<Rightarrow> nat \<times> (key_error, machine_keys) result" where
  "generate_machine_keys cr n =
     (let e = draw_private cr n; s = draw_private cr (n + 1);
          ek = base64url (x25519_public cr e); sk = base64url (ed25519_public cr s) in
      (n + 2, bind_result (key_id_of (crypto.truncate cr) ek sk) (\<lambda>i.
         Inr \<lparr>mk_key_id = i, mk_encryption_key = ek, mk_signing_key = sk, mk_encryption_private = e,
              mk_signing_private = s\<rparr>)))"

text \<open>What \<^verbatim>\<open>parseMachineKeys\<close> checks of stored keys, its JSON apart.\<close>

definition machine_keys_ok :: "vault_crypto \<Rightarrow> machine_keys \<Rightarrow> bool" where
  "machine_keys_ok cr me \<longleftrightarrow>
     key_id_of (crypto.truncate cr) (mk_encryption_key me) (mk_signing_key me) = Inr (mk_key_id me) \<and>
     x25519_importable cr (mk_encryption_key me) (mk_encryption_private me) \<and>
     base64url (x25519_public cr (mk_encryption_private me)) = mk_encryption_key me \<and>
     ed25519_importable cr (mk_signing_key me) (mk_signing_private me) \<and>
     base64url (ed25519_public cr (mk_signing_private me)) = mk_signing_key me"

section \<open>The envelope\<close>

definition WRAP_INFO :: string where "WRAP_INFO = ''wirebench-team-secrets-v1-wrap''"
definition NONCE_BYTES :: nat where "NONCE_BYTES = 12"
definition TAG_BYTES :: nat where "TAG_BYTES = 16"
definition KEY_BYTES :: nat where "KEY_BYTES = 32"
definition PUBLIC_KEY_BYTES :: nat where "PUBLIC_KEY_BYTES = 32"

definition seal_bytes :: "vault_crypto \<Rightarrow> nat \<Rightarrow> bytes \<Rightarrow> bytes \<Rightarrow> bytes option \<Rightarrow> nat \<times> bytes" where
  "seal_bytes cr n key plaintext aad =
     (let nonce = draw_bytes cr n NONCE_BYTES; (body, tag) = gcm_seal cr key nonce aad plaintext in
      (n + 1, nonce @ body @ tag))"

definition open_bytes :: "vault_crypto \<Rightarrow> bytes \<Rightarrow> bytes \<Rightarrow> bytes option \<Rightarrow> (vault_error, bytes) result" where
  "open_bytes cr key sealed aad =
     (if length sealed < NONCE_BYTES + TAG_BYTES then Inl Decrypt_failed
      else let nonce = take NONCE_BYTES sealed;
               body = drop NONCE_BYTES (take (length sealed - TAG_BYTES) sealed);
               tag = drop (length sealed - TAG_BYTES) sealed in
        (case gcm_open cr key nonce aad body tag of None \<Rightarrow> Inl Decrypt_failed | Some p \<Rightarrow> Inr p))"

definition new_data_key :: "vault_crypto \<Rightarrow> nat \<Rightarrow> nat \<times> bytes" where
  "new_data_key cr n = (n + 1, draw_bytes cr n KEY_BYTES)"

definition assert_data_key :: "bytes \<Rightarrow> (vault_error, unit) result" where
  "assert_data_key k = (if length k \<noteq> KEY_BYTES then Inl Vault_bad_key else Inr ())"

text \<open>\<open>private\<close> is a private key that was imported; every way the public key can be bad is the same error.\<close>

definition shared_secret_with :: "vault_crypto \<Rightarrow> string \<Rightarrow> string \<Rightarrow> (vault_error, bytes) result" where
  "shared_secret_with cr private recipient =
     (case raw_public_key recipient of
        Inl _ \<Rightarrow> Inl Vault_bad_key
      | Inr raw \<Rightarrow> (case x25519 cr private raw of
          None \<Rightarrow> Inl Vault_bad_key
        | Some shared \<Rightarrow> if list_all (\<lambda>b. b = 0) shared then Inl Vault_bad_key else Inr shared))"

definition encrypt_value :: "vault_crypto \<Rightarrow> nat \<Rightarrow> ustring \<Rightarrow> bytes \<Rightarrow> string \<Rightarrow> nat \<times> (vault_error, string) result" where
  "encrypt_value cr n value data_key entry_id =
     (case assert_data_key data_key of
        Inl e \<Rightarrow> (n, Inl e)
      | Inr _ \<Rightarrow> (let (n', sealed) = seal_bytes cr n data_key (utf8 value) (Some (utf8 (ustring_of entry_id))) in
          (n', Inr (base64url sealed))))"

definition decrypt_value :: "vault_crypto \<Rightarrow> string \<Rightarrow> bytes \<Rightarrow> string \<Rightarrow> (vault_error, ustring) result" where
  "decrypt_value cr cipher data_key entry_id =
     bind_result (assert_data_key data_key) (\<lambda>_.
     bind_result (from_key_error (from_base64url cipher)) (\<lambda>sealed.
     bind_result (open_bytes cr data_key sealed (Some (utf8 (ustring_of entry_id)))) (\<lambda>p.
       Inr (buffer_to_string p))))"

definition wrap_key :: "vault_crypto \<Rightarrow> bytes \<Rightarrow> bytes \<Rightarrow> bytes \<Rightarrow> bytes" where
  "wrap_key cr shared ephemeral recipient = hkdf_sha256 cr shared (ephemeral @ recipient) WRAP_INFO KEY_BYTES"

definition wrap_data_key :: "vault_crypto \<Rightarrow> nat \<Rightarrow> bytes \<Rightarrow> string \<Rightarrow> nat \<times> (vault_error, string) result" where
  "wrap_data_key cr n data_key recipient =
     (case assert_data_key data_key of
        Inl e \<Rightarrow> (n, Inl e)
      | Inr _ \<Rightarrow>
          let private = draw_private cr n; ephemeral = x25519_public cr private in
          (case shared_secret_with cr private recipient of
             Inl e \<Rightarrow> (n + 1, Inl e)
           | Inr shared \<Rightarrow> (case from_base64url recipient of
               Inl _ \<Rightarrow> (n + 1, Inl Vault_bad_key)
             | Inr raw \<Rightarrow>
                 (let (n', sealed) = seal_bytes cr (n + 1) (wrap_key cr shared ephemeral raw) data_key None in
                  (n', Inr (base64url (ephemeral @ sealed)))))))"

definition unwrap_data_key :: "vault_crypto \<Rightarrow> string \<Rightarrow> machine_keys \<Rightarrow> (vault_error, bytes) result" where
  "unwrap_data_key cr wrap me =
     bind_result (from_key_error (from_base64url wrap)) (\<lambda>bs.
     if length bs < PUBLIC_KEY_BYTES + NONCE_BYTES + TAG_BYTES then Inl Decrypt_failed
     else let ephemeral = take PUBLIC_KEY_BYTES bs in
       if \<not> x25519_importable cr (mk_encryption_key me) (mk_encryption_private me) then Inl Raw_error
       else bind_result (shared_secret_with cr (mk_encryption_private me) (base64url ephemeral)) (\<lambda>shared.
         bind_result (from_key_error (from_base64url (mk_encryption_key me))) (\<lambda>mine.
         bind_result (open_bytes cr (wrap_key cr shared ephemeral mine) (drop PUBLIC_KEY_BYTES bs) None) (\<lambda>k.
           if length k \<noteq> KEY_BYTES then Inl Decrypt_failed else Inr k))))"

section \<open>Vault entries\<close>

datatype secret_key = Ref_secret string | Token_secret string string

definition secret_text :: "secret_key \<Rightarrow> string" where
  "secret_text s = (case s of Ref_secret r \<Rightarrow> ''ref:'' @ r | Token_secret p nm \<Rightarrow> ''token:'' @ p @ [CHR 0x0A] @ nm)"

definition vault_entry_id :: "vault_crypto \<Rightarrow> secret_key \<Rightarrow> string" where
  "vault_entry_id cr s = take 26 (base32 (sha256 cr (utf8 (ustring_of (secret_text s)))))"

definition same_secret :: "vault_crypto \<Rightarrow> secret_key \<Rightarrow> secret_key \<Rightarrow> bool" where
  "same_secret cr a b \<longleftrightarrow> vault_entry_id cr a = vault_entry_id cr b"

record vault_entry =
  ve_secret :: secret_key
  ve_label :: string
  ve_cipher :: string
  ve_wraps :: "(string, string) jsmap"
  ve_updated_at :: string
  ve_updated_by :: string
  ve_signature :: string

definition secret_doc :: "secret_key \<Rightarrow> json" where
  "secret_doc s = (case s of
     Ref_secret r \<Rightarrow> JObj [(''ref'', JStr r)]
   | Token_secret p nm \<Rightarrow> JObj [(''token'', JObj [(''projectId'', JStr p), (''name'', JStr nm)])])"

definition vault_doc :: "vault_entry \<Rightarrow> document" where
  "vault_doc e =
     [(''version'', JNum 1), (''secret'', secret_doc (ve_secret e)), (''label'', JStr (ve_label e)),
      (''cipher'', JStr (ve_cipher e)), (''wraps'', JObj (map (\<lambda>(k, w). (k, JStr w)) (ve_wraps e))),
      (''updatedAt'', JStr (ve_updated_at e)), (''updatedBy'', JStr (ve_updated_by e)),
      (''signature'', JStr (ve_signature e))]"

text \<open>\<^verbatim>\<open>signDocument\<close> of an entry, its fresh signature written back into the record.\<close>

definition sign_entry :: "vault_crypto \<Rightarrow> vault_entry \<Rightarrow> machine_keys \<Rightarrow> (vault_error, vault_entry) result" where
  "sign_entry cr e me =
     bind_result (from_sign_error (signed_bytes (vault_doc e))) (\<lambda>m.
       if \<not> ed25519_importable cr (mk_signing_key me) (mk_signing_private me) then Inl Raw_error
       else Inr (e\<lparr>ve_signature := base64url (ed25519_sign cr (mk_signing_private me) m)\<rparr>))"

text \<open>\<^verbatim>\<open>tryWrap\<close>: \<open>Inr None\<close> for a recipient whose key is bad; another error goes on.\<close>

definition try_wrap :: "vault_crypto \<Rightarrow> nat \<Rightarrow> bytes \<Rightarrow> key_info \<Rightarrow> nat \<times> (vault_error, string option) result" where
  "try_wrap cr n data_key r =
     (case wrap_data_key cr n data_key (ki_encryption_key r) of
        (n', Inr w) \<Rightarrow> (n', Inr (Some w))
      | (n', Inl e) \<Rightarrow> (n', if e = Vault_bad_key then Inr None else Inl e))"

text \<open>The loops of \<^verbatim>\<open>seal\<close> and \<^verbatim>\<open>healVaultEntry\<close> over the recipients.\<close>

fun wrap_each ::
    "vault_crypto \<Rightarrow> nat \<Rightarrow> bytes \<Rightarrow> (string, string) jsmap \<Rightarrow> key_info list \<Rightarrow>
     nat \<times> (vault_error, (string, string) jsmap) result" where
  "wrap_each cr n data_key ws [] = (n, Inr ws)"
| "wrap_each cr n data_key ws (r # rs) =
     (case try_wrap cr n data_key r of
        (n', Inl e) \<Rightarrow> (n', Inl e)
      | (n', Inr None) \<Rightarrow> wrap_each cr n' data_key ws rs
      | (n', Inr (Some w)) \<Rightarrow> wrap_each cr n' data_key (jsset ws (ki_key_id r) w) rs)"

definition seal_entry ::
    "vault_crypto \<Rightarrow> nat \<Rightarrow> secret_key \<Rightarrow> string \<Rightarrow> string \<Rightarrow> ustring \<Rightarrow> key_info list \<Rightarrow> machine_keys \<Rightarrow>
     nat \<times> (vault_error, vault_entry) result" where
  "seal_entry cr n secret label updated_at value recipients signer =
     (let (n1, data_key) = new_data_key cr n in
      case wrap_each cr n1 data_key [] recipients of
        (n2, Inl e) \<Rightarrow> (n2, Inl e)
      | (n2, Inr wraps) \<Rightarrow>
          (case encrypt_value cr n2 value data_key (vault_entry_id cr secret) of
             (n3, Inl e) \<Rightarrow> (n3, Inl e)
           | (n3, Inr cipher) \<Rightarrow>
               (n3, sign_entry cr \<lparr>ve_secret = secret, ve_label = label, ve_cipher = cipher, ve_wraps = wraps,
                      ve_updated_at = updated_at, ve_updated_by = mk_key_id signer, ve_signature = []\<rparr> signer)))"

definition build_vault_entry ::
    "vault_crypto \<Rightarrow> nat \<Rightarrow> secret_key \<Rightarrow> string \<Rightarrow> ustring \<Rightarrow> key_info list \<Rightarrow> machine_keys \<Rightarrow> string \<Rightarrow>
     nat \<times> (vault_error, vault_entry) result" where
  "build_vault_entry cr n secret label value recipients signer at_time =
     seal_entry cr n secret label at_time value recipients signer"

definition seal_vault_entry ::
    "vault_crypto \<Rightarrow> nat \<Rightarrow> vault_entry \<Rightarrow> ustring \<Rightarrow> key_info list \<Rightarrow> machine_keys \<Rightarrow>
     nat \<times> (vault_error, vault_entry) result" where
  "seal_vault_entry cr n e value recipients signer =
     seal_entry cr n (ve_secret e) (ve_label e) (ve_updated_at e) value recipients signer"

definition approved_recipients :: "access_state \<Rightarrow> key_info list" where
  "approved_recipients st =
     concat (map (\<lambda>k. case jsget (st_keys st) k of None \<Rightarrow> [] | Some i \<Rightarrow> [i]) (st_approved st))"

datatype vault_verdict = Trusted | Wrong_id | Verdict_not_approved | Verdict_bad_signature

definition verify_vault_entry :: "vault_crypto \<Rightarrow> vault_entry \<Rightarrow> string \<Rightarrow> access_state \<Rightarrow> vault_verdict" where
  "verify_vault_entry cr e file_id st =
     (if vault_entry_id cr (ve_secret e) \<noteq> file_id then Wrong_id
      else if ve_updated_by e \<notin> set (st_approved st) then Verdict_not_approved
      else (case jsget (st_keys st) (ve_updated_by e) of
          None \<Rightarrow> Verdict_not_approved
        | Some signer \<Rightarrow>
            if verify_document (crypto.truncate cr) (vault_doc e) (ki_signing_key signer) then Trusted
            else Verdict_bad_signature))"

definition open_vault_entry :: "vault_crypto \<Rightarrow> vault_entry \<Rightarrow> machine_keys \<Rightarrow> ustring option" where
  "open_vault_entry cr e me =
     (case jsget (ve_wraps e) (mk_key_id me) of
        None \<Rightarrow> None
      | Some w \<Rightarrow>
          (case bind_result (unwrap_data_key cr w me)
                 (\<lambda>k. decrypt_value cr (ve_cipher e) k (vault_entry_id cr (ve_secret e))) of
             Inl _ \<Rightarrow> None | Inr v \<Rightarrow> Some v))"

text \<open>
  \<open>Inr None\<close> is \<^verbatim>\<open>undefined\<close>: nothing to heal. The loop set a wrap, \<^verbatim>\<open>added\<close>, exactly when one of the missing
  keys, none of which had a wrap, has one after it.
\<close>

definition heal_vault_entry ::
    "vault_crypto \<Rightarrow> nat \<Rightarrow> vault_entry \<Rightarrow> access_state \<Rightarrow> machine_keys \<Rightarrow>
     nat \<times> (vault_error, vault_entry option) result" where
  "heal_vault_entry cr n e st me =
     (let missing = filter (\<lambda>r. \<not> jshas (ve_wraps e) (ki_key_id r)) (approved_recipients st) in
      case jsget (ve_wraps e) (mk_key_id me) of
        None \<Rightarrow> (n, Inr None)
      | Some mine \<Rightarrow>
          if missing = [] then (n, Inr None)
          else (case unwrap_data_key cr mine me of
              Inl _ \<Rightarrow> (n, Inr None)
            | Inr data_key \<Rightarrow> (case wrap_each cr n data_key (ve_wraps e) missing of
                (n', Inl er) \<Rightarrow> (n', Inl er)
              | (n', Inr wraps) \<Rightarrow>
                  let added = list_ex (\<lambda>r. jshas wraps (ki_key_id r)) missing in
                  if \<not> added then (n', Inr None)
                  else (n', bind_result (sign_entry cr (e\<lparr>ve_wraps := wraps, ve_updated_by := mk_key_id me\<rparr>) me)
                              (\<lambda>e'. Inr (Some e'))))))"

definition wraps_unapproved_key :: "vault_entry \<Rightarrow> access_state \<Rightarrow> bool" where
  "wraps_unapproved_key e st \<longleftrightarrow> list_ex (\<lambda>k. k \<notin> set (st_approved st)) (jskeys (ve_wraps e))"

section \<open>Values to rotate\<close>

record rotate_mark =
  ro_entry_id :: string
  ro_label :: string
  ro_secret :: secret_key
  ro_removed_names :: "string list"

text \<open>\<^verbatim>\<open><=\<close> and \<^verbatim>\<open>>\<close> of two numbers that may be \<^verbatim>\<open>NaN\<close>.\<close>

definition num_le :: "int option \<Rightarrow> int option \<Rightarrow> bool" where
  "num_le a b \<longleftrightarrow> (case (a, b) of (Some x, Some y) \<Rightarrow> x \<le> y | _ \<Rightarrow> False)"

definition rotate_marks_for :: "(string, vault_entry) jsmap \<Rightarrow> (string \<times> string) list \<Rightarrow> rotate_mark list" where
  "rotate_marks_for values removals =
     concat (map (\<lambda>(i, e).
       let names = map snd (filter (\<lambda>(at, _). num_le (date_parse (ve_updated_at e)) (date_parse at)) removals) in
       if names = [] then []
       else [\<lparr>ro_entry_id = i, ro_label = ve_label e, ro_secret = ve_secret e, ro_removed_names = jsuniq names\<rparr>])
       values)"

definition rotate_marks :: "(string, vault_entry) jsmap \<Rightarrow> access_state \<Rightarrow> rotate_mark list" where
  "rotate_marks values st =
     rotate_marks_for values (map (\<lambda>r. (rm_at r,
       case jsget (st_keys st) (rm_key_id r) of None \<Rightarrow> rm_key_id r | Some i \<Rightarrow> ki_name i)) (st_removed st))"

section \<open>Two versions of one entry\<close>

datatype side = Mine | Theirs

definition vault_conflict_winner :: "vault_entry option \<Rightarrow> vault_entry option \<Rightarrow> side" where
  "vault_conflict_winner mine theirs =
     (case (mine, theirs) of
        (None, _) \<Rightarrow> Theirs
      | (_, None) \<Rightarrow> Mine
      | (Some m, Some t) \<Rightarrow>
          let ma = date_parse (ve_updated_at m); ta = date_parse (ve_updated_at t) in
          if ma \<noteq> ta \<or> ma = None then (if num_le ta ma then Mine else Theirs)
          else if ve_updated_by m < ve_updated_by t then Mine else Theirs)"

section \<open>What the primitives promise\<close>

text \<open>
  The documented behaviour the code rests on: sizes, that X25519 agrees on both sides and that its secret for
  two generated keys is not zero, that AES-256-GCM opens what it sealed under the same key, nonce and additional
  data, and that an Ed25519 signature verifies.
\<close>

definition x25519_ok :: "vault_crypto \<Rightarrow> bool" where
  "x25519_ok cr \<longleftrightarrow> (\<forall>d. length (x25519_public cr d) = 32 \<and> x25519_importable cr (base64url (x25519_public cr d)) d) \<and>
     (\<forall>c d. \<exists>s. x25519 cr c (x25519_public cr d) = Some s \<and> x25519 cr d (x25519_public cr c) = Some s \<and>
       \<not> list_all (\<lambda>b. b = 0) s)"

definition gcm_ok :: "vault_crypto \<Rightarrow> bool" where
  "gcm_ok cr \<longleftrightarrow> (\<forall>k nonce aad p body tag. length k = 32 \<longrightarrow> length nonce = 12 \<longrightarrow>
     gcm_seal cr k nonce aad p = (body, tag) \<longrightarrow> length tag = 16 \<and> gcm_open cr k nonce aad body tag = Some p)"

definition ed25519_ok :: "vault_crypto \<Rightarrow> bool" where
  "ed25519_ok cr \<longleftrightarrow> (\<forall>d m. length (ed25519_public cr d) = 32 \<and>
     ed25519_verify cr (ed25519_public cr d) m (ed25519_sign cr d m))"

definition primitives_ok :: "vault_crypto \<Rightarrow> bool" where
  "primitives_ok cr \<longleftrightarrow> x25519_ok cr \<and> gcm_ok cr \<and> ed25519_ok cr \<and>
     (\<forall>ikm salt inf n. length (hkdf_sha256 cr ikm salt inf n) = n) \<and> (\<forall>i n. length (draw_bytes cr i n) = n)"

section \<open>The envelope opens\<close>

lemma open_seal_bytes:
  assumes "primitives_ok cr" "length key = 32"
  shows "seal_bytes cr n key p aad = (n', sealed) \<Longrightarrow> open_bytes cr key sealed aad = Inr p \<and> 28 \<le> length sealed"
proof -
  assume s: "seal_bytes cr n key p aad = (n', sealed)"
  obtain body tag where g: "gcm_seal cr key (draw_bytes cr n 12) aad p = (body, tag)" by force
  have len: "length (draw_bytes cr n 12) = 12" using assms by (simp add: primitives_ok_def)
  then have t: "length tag = 16" and o: "gcm_open cr key (draw_bytes cr n 12) aad body tag = Some p"
    using assms g unfolding primitives_ok_def gcm_ok_def by metis+
  have "sealed = draw_bytes cr n 12 @ body @ tag"
    using s g by (simp add: seal_bytes_def NONCE_BYTES_def)
  then show ?thesis
    using len t o by (simp add: open_bytes_def NONCE_BYTES_def TAG_BYTES_def)
qed

lemma raw_public_key_base64url: "length bs = 32 \<Longrightarrow> raw_public_key (base64url bs) = Inr bs"
  by (simp add: raw_public_key_def base64url_inverse assert_key_length_def PUBLIC_KEY_LENGTH_def)

lemma shared_secret_agrees:
  assumes "primitives_ok cr"
  obtains s where "shared_secret_with cr c (base64url (x25519_public cr d)) = Inr s"
    and "shared_secret_with cr d (base64url (x25519_public cr c)) = Inr s"
proof -
  have l: "length (x25519_public cr d) = 32" for d
    using assms by (simp add: primitives_ok_def x25519_ok_def)
  obtain s where "x25519 cr c (x25519_public cr d) = Some s" "x25519 cr d (x25519_public cr c) = Some s"
    "\<not> list_all (\<lambda>b. b = 0) s"
    using assms unfolding primitives_ok_def x25519_ok_def by blast
  then show ?thesis
    using l by (intro that [of s]) (simp_all add: shared_secret_with_def raw_public_key_base64url)
qed

lemma encryption_key_of: "machine_keys_ok cr me \<Longrightarrow> mk_encryption_key me = base64url (x25519_public cr (mk_encryption_private me))"
  by (simp add: machine_keys_ok_def)

lemma signing_key_of: "machine_keys_ok cr me \<Longrightarrow> mk_signing_key me = base64url (ed25519_public cr (mk_signing_private me))"
  by (simp add: machine_keys_ok_def)

lemma unwrap_wrapped:
  assumes ok: "primitives_ok cr" and me: "machine_keys_ok cr me" and len: "length dk = 32"
  obtains n' w where "wrap_data_key cr n dk (mk_encryption_key me) = (n', Inr w)" and "unwrap_data_key cr w me = Inr dk"
proof -
  let ?c = "draw_private cr n" let ?d = "mk_encryption_private me"
  let ?e = "x25519_public cr ?c" let ?m = "x25519_public cr ?d"
  have el: "length ?e = 32" and imp: "x25519_importable cr (mk_encryption_key me) ?d"
    using ok me by (auto simp: primitives_ok_def x25519_ok_def machine_keys_ok_def)
  obtain s where s: "shared_secret_with cr ?c (mk_encryption_key me) = Inr s"
      "shared_secret_with cr ?d (base64url ?e) = Inr s"
    using shared_secret_agrees [OF ok, of ?c ?d] encryption_key_of [OF me] by metis
  let ?k = "wrap_key cr s ?e ?m"
  have kl: "length ?k = 32"
    using ok by (simp add: wrap_key_def primitives_ok_def KEY_BYTES_def)
  obtain n' sealed where b: "seal_bytes cr (n + 1) ?k dk None = (n', sealed)" by force
  have o: "open_bytes cr ?k sealed None = Inr dk" "28 \<le> length sealed"
    using open_seal_bytes [OF ok kl b] by auto
  have raw: "from_base64url (mk_encryption_key me) = Inr ?m"
    by (simp add: encryption_key_of [OF me] base64url_inverse)
  show ?thesis
  proof (rule that)
    show "wrap_data_key cr n dk (mk_encryption_key me) = (n', Inr (base64url (?e @ sealed)))"
      using len s raw b by (simp add: wrap_data_key_def assert_data_key_def KEY_BYTES_def)
    show "unwrap_data_key cr (base64url (?e @ sealed)) me = Inr dk"
      using el imp s o raw len
      by (simp add: unwrap_data_key_def base64url_inverse from_key_error_def PUBLIC_KEY_BYTES_def
          NONCE_BYTES_def TAG_BYTES_def KEY_BYTES_def)
  qed
qed

lemma wrap_data_key_error: "length dk = 32 \<Longrightarrow> wrap_data_key cr n dk rk = (n', Inl e) \<Longrightarrow> e = Vault_bad_key"
  by (auto simp: wrap_data_key_def assert_data_key_def KEY_BYTES_def shared_secret_with_def Let_def
      split: sum.splits option.splits if_splits prod.splits)

lemma try_wrap_ok: "length dk = 32 \<Longrightarrow> \<exists>n' o'. try_wrap cr n dk r = (n', Inr o')"
  using wrap_data_key_error [of dk cr n "ki_encryption_key r"]
  by (auto simp: try_wrap_def split: prod.splits sum.splits)

text \<open>The loop over the recipients always ends well, leaves every other wrap alone, and each good key gets one.\<close>

lemma wrap_each_ok: "length dk = 32 \<Longrightarrow> \<exists>n' ws'. wrap_each cr n dk ws rs = (n', Inr ws')"
proof (induction rs arbitrary: n ws)
  case (Cons r rs)
  then show ?case
    using try_wrap_ok [of dk cr n r] by (fastforce split: option.splits)
qed simp

lemma wrap_each_other:
  "wrap_each cr n dk ws rs = (n', Inr ws') \<Longrightarrow> k \<notin> ki_key_id ` set rs \<Longrightarrow> jsget ws' k = jsget ws k"
proof (induction rs arbitrary: n ws)
  case (Cons r rs)
  then show ?case
    by (fastforce simp: jsmap_simps split: prod.splits sum.splits option.splits)
qed simp

lemma wrap_each_opens:
  assumes "primitives_ok cr" "machine_keys_ok cr me" "length dk = 32"
  shows "wrap_each cr n dk ws rs = (n', Inr ws') \<Longrightarrow> distinct (map ki_key_id rs) \<Longrightarrow> r \<in> set rs \<Longrightarrow>
    ki_encryption_key r = mk_encryption_key me \<Longrightarrow>
    \<exists>w. jsget ws' (ki_key_id r) = Some w \<and> unwrap_data_key cr w me = Inr dk"
proof (induction rs arbitrary: n ws)
  case (Cons x rs)
  show ?case
  proof (cases "r = x")
    case True
    obtain n1 w where w: "wrap_data_key cr n dk (mk_encryption_key me) = (n1, Inr w)" "unwrap_data_key cr w me = Inr dk"
      using unwrap_wrapped [OF assms] by metis
    then have "wrap_each cr n1 dk (jsset ws (ki_key_id x) w) rs = (n', Inr ws')"
      using Cons.prems True by (simp add: try_wrap_def)
    then have "jsget ws' (ki_key_id x) = Some w"
      using wrap_each_other Cons.prems(2) by (fastforce simp: jsmap_simps)
    then show ?thesis using w True by simp
  next
    case False
    then show ?thesis
      using Cons.prems by (auto split: prod.splits sum.splits option.splits intro: Cons.IH)
  qed
qed simp

lemma wrap_each_keys:
  "wrap_each cr n dk ws rs = (n', Inr ws') \<Longrightarrow> set (jskeys ws') \<subseteq> set (jskeys ws) \<union> ki_key_id ` set rs"
  using wrap_each_other [of cr n dk ws rs n' ws'] jshas_iff [of ws'] jshas_iff [of ws]
  by (metis (no_types, lifting) Un_iff subsetI)

section \<open>Entries are signed\<close>

lemma all_ok_total: "\<forall>r \<in> set rs. \<exists>x. r = Inr x \<Longrightarrow> \<exists>xs. all_ok rs = Inr xs"
  by (induction rs) auto

lemma canonical_object_total:
  assumes "\<forall>f \<in> set fs. \<exists>t. canonical_json (snd f) = Inr t"
  shows "\<exists>t. canonical_json (JObj fs) = Inr t"
proof -
  have "\<exists>x. canonical_field (fst f, canonical_json (snd f)) = Inr x" if "f \<in> set fs" for f
    using assms that by (fastforce simp: canonical_field_def)
  then have "\<exists>xs. all_ok (map canonical_field (sort_key fst (canonical_fields fs))) = Inr xs"
    by (intro all_ok_total) (auto simp: canonical_fields_map)
  then show ?thesis by auto
qed

lemma signed_bytes_entry: "\<exists>m. signed_bytes (vault_doc e) = Inr m"
proof -
  have "\<exists>t. canonical_json (secret_doc s) = Inr t" for s
    by (cases s) (auto simp: secret_doc_def simp del: canonical_json.simps(6) intro!: canonical_object_total)
  moreover have "\<exists>t. canonical_json (JObj (map (\<lambda>(k, w). (k, JStr w)) ws)) = Inr t" for ws
    by (rule canonical_object_total) auto
  ultimately have "\<exists>t. canonical_json (JObj (without_signature (vault_doc e))) = Inr t"
    by (intro canonical_object_total) (auto simp: without_signature_def vault_doc_def simp del: canonical_json.simps(6))
  then show ?thesis by (auto simp: signed_bytes_def simp del: canonical_json.simps(6))
qed

lemma sign_entry_ok: "machine_keys_ok cr me \<Longrightarrow> \<exists>e'. sign_entry cr e me = Inr e'"
  using signed_bytes_entry [of e] by (auto simp: sign_entry_def from_sign_error_def machine_keys_ok_def)

lemma sign_entryD:
  assumes "sign_entry cr e me = Inr e'"
  shows "ve_secret e' = ve_secret e" "ve_label e' = ve_label e" "ve_cipher e' = ve_cipher e"
    "ve_wraps e' = ve_wraps e" "ve_updated_at e' = ve_updated_at e" "ve_updated_by e' = ve_updated_by e"
  using assms by (auto simp: sign_entry_def bind_result_Inr_iff split: if_splits)

lemma signed_entry_verifies:
  assumes ok: "primitives_ok cr" and me: "machine_keys_ok cr me" and s: "sign_entry cr e me = Inr e'"
  shows "verify_document (crypto.truncate cr) (vault_doc e') (mk_signing_key me)"
proof -
  obtain m where m: "signed_bytes (vault_doc e) = Inr m" using signed_bytes_entry by blast
  have e': "e' = e\<lparr>ve_signature := base64url (ed25519_sign cr (mk_signing_private me) m)\<rparr>"
    using s m by (simp add: sign_entry_def from_sign_error_def split: if_splits)
  have "signed_bytes (vault_doc e') = Inr m"
    using m by (simp add: e' signed_bytes_def without_signature_def vault_doc_def)
  moreover have "map_of (vault_doc e') ''signature'' = Some (JStr (base64url (ed25519_sign cr (mk_signing_private me) m)))"
    by (simp add: e' vault_doc_def)
  moreover have "raw_public_key (mk_signing_key me) = Inr (ed25519_public cr (mk_signing_private me))"
    using ok by (simp add: signing_key_of [OF me] raw_public_key_base64url primitives_ok_def ed25519_ok_def)
  ultimately show ?thesis
    using ok by (simp add: verify_document_def base64url_inverse crypto.defs primitives_ok_def ed25519_ok_def)
qed

text \<open>\<open>knows st me\<close>: the access log approved this machine's keys.\<close>

definition knows :: "access_state \<Rightarrow> machine_keys \<Rightarrow> bool" where
  "knows st me \<longleftrightarrow> mk_key_id me \<in> set (st_approved st) \<and>
     (\<exists>i. jsget (st_keys st) (mk_key_id me) = Some i \<and> ki_signing_key i = mk_signing_key me)"

lemma signed_entry_trusted:
  assumes "primitives_ok cr" "machine_keys_ok cr me" "sign_entry cr e me = Inr e'" "ve_updated_by e = mk_key_id me"
    "knows st me"
  shows "verify_vault_entry cr e' (vault_entry_id cr (ve_secret e)) st = Trusted"
  using assms signed_entry_verifies [OF assms(1-3)] sign_entryD [OF assms(3)]
  by (auto simp: verify_vault_entry_def knows_def)

section \<open>Building and opening\<close>

lemma decrypt_encrypted:
  assumes ok: "primitives_ok cr" and "length dk = 32" "\<forall>c \<in> set value. scalar c"
  obtains n' c where "encrypt_value cr n value dk i = (n', Inr c)" and "decrypt_value cr c dk i = Inr value"
proof -
  obtain n' sealed where b: "seal_bytes cr n dk (utf8 value) (Some (utf8 (ustring_of i))) = (n', sealed)" by force
  show ?thesis
  proof (rule that)
    show "encrypt_value cr n value dk i = (n', Inr (base64url sealed))"
      using assms(2) b by (simp add: encrypt_value_def assert_data_key_def KEY_BYTES_def)
    show "decrypt_value cr (base64url sealed) dk i = Inr value"
      using assms open_seal_bytes [OF ok assms(2) b]
      by (simp add: decrypt_value_def assert_data_key_def KEY_BYTES_def base64url_inverse from_key_error_def
          buffer_to_string_utf8)
  qed
qed

lemma open_vault_entry_by_key:
  assumes "jsget (ve_wraps e) (mk_key_id me) = Some w" "unwrap_data_key cr w me = Inr dk"
  shows "open_vault_entry cr e me =
    (case decrypt_value cr (ve_cipher e) dk (vault_entry_id cr (ve_secret e)) of Inl _ \<Rightarrow> None | Inr v \<Rightarrow> Some v)"
  using assms by (simp add: open_vault_entry_def)

text \<open>C21: Setting a value for the given recipients always succeeds, whatever keys some of them published; the entry
  is trusted under its own id by every machine whose access log knows the signer; each recipient with good keys
  opens it to exactly the value; and a machine that is not among the recipients has no wrap and opens nothing.\<close>

theorem vault_entry_opens:
  assumes ok: "primitives_ok cr"
    and signer: "machine_keys_ok cr signer"
    and scalars: "\<forall>c \<in> set value. scalar c"
    and ids: "distinct (map ki_key_id recipients)"
  shows "\<exists>n' e. build_vault_entry cr n secret label value recipients signer at_time = (n', Inr e) \<and>
    (\<forall>st. knows st signer \<longrightarrow> verify_vault_entry cr e (vault_entry_id cr secret) st = Trusted) \<and>
    (\<forall>me r. machine_keys_ok cr me \<longrightarrow> r \<in> set recipients \<longrightarrow> ki_key_id r = mk_key_id me \<longrightarrow>
       ki_encryption_key r = mk_encryption_key me \<longrightarrow> open_vault_entry cr e me = Some value) \<and>
    (\<forall>me. mk_key_id me \<notin> ki_key_id ` set recipients \<longrightarrow> open_vault_entry cr e me = None)"
proof -
  define dk where "dk = draw_bytes cr n KEY_BYTES"
  have len: "length dk = 32" using ok by (simp add: dk_def primitives_ok_def KEY_BYTES_def)
  obtain n2 ws where w: "wrap_each cr (n + 1) dk [] recipients = (n2, Inr ws)"
    using wrap_each_ok [OF len] by metis
  obtain n3 c where c: "encrypt_value cr n2 value dk (vault_entry_id cr secret) = (n3, Inr c)"
      "decrypt_value cr c dk (vault_entry_id cr secret) = Inr value"
    using decrypt_encrypted [OF ok len scalars] by metis
  define e0 where "e0 = \<lparr>ve_secret = secret, ve_label = label, ve_cipher = c, ve_wraps = ws,
    ve_updated_at = at_time, ve_updated_by = mk_key_id signer, ve_signature = []\<rparr>"
  obtain e where e: "sign_entry cr e0 signer = Inr e" using sign_entry_ok [OF signer] by blast
  have built: "build_vault_entry cr n secret label value recipients signer at_time = (n3, Inr e)"
    using w c(1) e by (simp add: build_vault_entry_def seal_entry_def new_data_key_def dk_def [symmetric] e0_def)
  note fields = sign_entryD [OF e, unfolded e0_def, simplified]
  have trusted: "verify_vault_entry cr e (vault_entry_id cr secret) st = Trusted" if "knows st signer" for st
    using signed_entry_trusted [OF ok signer e _ that] by (simp add: e0_def)
  have opens: "open_vault_entry cr e me = Some value"
    if "machine_keys_ok cr me" "r \<in> set recipients" "ki_key_id r = mk_key_id me"
      "ki_encryption_key r = mk_encryption_key me" for me r
    using wrap_each_opens [OF ok that(1) len w ids that(2,4)] open_vault_entry_by_key [of e me] c(2) fields that(3)
    by auto
  have closed: "open_vault_entry cr e me = None" if "mk_key_id me \<notin> ki_key_id ` set recipients" for me
    using wrap_each_other [OF w that] by (simp add: open_vault_entry_def fields)
  show ?thesis using built trusted opens closed by blast
qed

section \<open>Healing\<close>

lemma approved_recipients_distinct:
  assumes "distinct (st_approved st)" "\<forall>k i. jsget (st_keys st) k = Some i \<longrightarrow> ki_key_id i = k"
  shows "distinct (map ki_key_id (approved_recipients st))"
proof -
  have "set (map ki_key_id (concat (map (\<lambda>k. case jsget (st_keys st) k of None \<Rightarrow> [] | Some i \<Rightarrow> [i]) ks))) \<subseteq> set ks"
    for ks using assms(2) by (induction ks) (auto split: option.splits)
  then have "distinct ks \<Longrightarrow>
      distinct (map ki_key_id (concat (map (\<lambda>k. case jsget (st_keys st) k of None \<Rightarrow> [] | Some i \<Rightarrow> [i]) ks)))" for ks
    using assms(2) by (induction ks) (auto split: option.splits)
  then show ?thesis using assms(1) by (simp add: approved_recipients_def)
qed

lemma unwrap_key_length: "unwrap_data_key cr w me = Inr dk \<Longrightarrow> length dk = 32"
  by (auto simp: unwrap_data_key_def Let_def bind_result_Inr_iff KEY_BYTES_def split: if_splits)

lemma heal_vault_entryE:
  assumes "heal_vault_entry cr n e st me = (n', Inr (Some e'))"
  obtains mine dk ws where "jsget (ve_wraps e) (mk_key_id me) = Some mine" "unwrap_data_key cr mine me = Inr dk"
    "wrap_each cr n dk (ve_wraps e) (filter (\<lambda>r. \<not> jshas (ve_wraps e) (ki_key_id r)) (approved_recipients st)) = (n', Inr ws)"
    "sign_entry cr (e\<lparr>ve_wraps := ws, ve_updated_by := mk_key_id me\<rparr>) me = Inr e'"
  using assms
  by (auto simp: heal_vault_entry_def Let_def bind_result_Inr_iff split: option.splits sum.splits prod.splits if_splits)

text \<open>C28: Healing never takes access away and never changes the value: the healed entry keeps the secret, its label,
  cipher and time, and every wrap it had; it adds wraps only for approved keys, and each of them whose machine
  has good keys opens the entry to what the healer read; and it is trusted wherever the healer is known.\<close>

theorem healing_adds_readers_only:
  assumes ok: "primitives_ok cr"
    and me: "machine_keys_ok cr me"
    and ids: "distinct (map ki_key_id (approved_recipients st))"
    and healed: "heal_vault_entry cr n e st me = (n', Inr (Some e'))"
  shows "ve_secret e' = ve_secret e \<and> ve_label e' = ve_label e \<and> ve_cipher e' = ve_cipher e \<and>
    ve_updated_at e' = ve_updated_at e \<and>
    (\<forall>k w. jsget (ve_wraps e) k = Some w \<longrightarrow> jsget (ve_wraps e') k = Some w) \<and>
    set (jskeys (ve_wraps e')) \<subseteq> set (jskeys (ve_wraps e)) \<union> ki_key_id ` set (approved_recipients st) \<and>
    (\<forall>you r. machine_keys_ok cr you \<longrightarrow> r \<in> set (approved_recipients st) \<longrightarrow> ki_key_id r = mk_key_id you \<longrightarrow>
       ki_encryption_key r = mk_encryption_key you \<longrightarrow> \<not> jshas (ve_wraps e) (mk_key_id you) \<longrightarrow>
       open_vault_entry cr e' you = open_vault_entry cr e me) \<and>
    (\<forall>st'. knows st' me \<longrightarrow> verify_vault_entry cr e' (vault_entry_id cr (ve_secret e)) st' = Trusted)"
proof -
  let ?missing = "filter (\<lambda>r. \<not> jshas (ve_wraps e) (ki_key_id r)) (approved_recipients st)"
  obtain mine dk ws where mine: "jsget (ve_wraps e) (mk_key_id me) = Some mine" "unwrap_data_key cr mine me = Inr dk"
    and w: "wrap_each cr n dk (ve_wraps e) ?missing = (n', Inr ws)"
    and s: "sign_entry cr (e\<lparr>ve_wraps := ws, ve_updated_by := mk_key_id me\<rparr>) me = Inr e'"
    using healed by (rule heal_vault_entryE)
  note f = sign_entryD [OF s, simplified]
  have kept: "jsget (ve_wraps e') k = Some w'" if "jsget (ve_wraps e) k = Some w'" for k w'
  proof -
    have "k \<notin> ki_key_id ` set ?missing" using that by auto
    then show ?thesis using wrap_each_other [OF w] that by (simp add: f)
  qed
  have added: "set (jskeys (ve_wraps e')) \<subseteq> set (jskeys (ve_wraps e)) \<union> ki_key_id ` set (approved_recipients st)"
    using wrap_each_keys [OF w] by (auto simp: f)
  have dist: "distinct (map ki_key_id ?missing)" using ids by (rule distinct_map_filter)
  have opens: "open_vault_entry cr e' you = open_vault_entry cr e me"
    if "machine_keys_ok cr you" "r \<in> set (approved_recipients st)" "ki_key_id r = mk_key_id you"
      "ki_encryption_key r = mk_encryption_key you" "\<not> jshas (ve_wraps e) (mk_key_id you)" for you r
  proof -
    have same: "ki_key_id r = mk_key_id you" and "r \<in> set ?missing" using that by simp_all
    from wrap_each_opens [OF ok that(1) unwrap_key_length [OF mine(2)] w dist this(2) that(4)]
    obtain w' where "jsget (ve_wraps e') (mk_key_id you) = Some w'" "unwrap_data_key cr w' you = Inr dk"
      by (auto simp: f same)
    then show ?thesis
      using mine by (simp add: open_vault_entry_by_key f)
  qed
  have "verify_vault_entry cr e' (vault_entry_id cr (ve_secret e)) st' = Trusted" if "knows st' me" for st'
    using signed_entry_trusted [OF ok me s _ that] by simp
  then show ?thesis using f kept added opens by blast
qed

section \<open>Conflicts\<close>

text \<open>The version two machines keep, and the order behind the choice.\<close>

definition kept_version :: "vault_entry \<Rightarrow> vault_entry \<Rightarrow> vault_entry" where
  "kept_version m t = (case vault_conflict_winner (Some m) (Some t) of Mine \<Rightarrow> m | Theirs \<Rightarrow> t)"

definition newer_version :: "vault_entry \<Rightarrow> vault_entry \<Rightarrow> bool" where
  "newer_version a b \<longleftrightarrow>
     (let x = the (date_parse (ve_updated_at a)); y = the (date_parse (ve_updated_at b)) in
      y < x \<or> (x = y \<and> ve_updated_by a < ve_updated_by b))"

definition dated :: "vault_entry \<Rightarrow> bool" where
  "dated e \<longleftrightarrow> date_parse (ve_updated_at e) \<noteq> None"

lemma kept_version_newer: "dated a \<Longrightarrow> dated b \<Longrightarrow> kept_version a b = (if newer_version a b then a else b)"
  by (auto simp: kept_version_def vault_conflict_winner_def newer_version_def dated_def num_le_def Let_def)

lemma newer_version_trans: "newer_version a b \<Longrightarrow> newer_version b c \<Longrightarrow> newer_version a c"
  unfolding newer_version_def Let_def by (metis less_trans)

lemma not_newer_version_trans: "\<not> newer_version a b \<Longrightarrow> \<not> newer_version b c \<Longrightarrow> \<not> newer_version a c"
  unfolding newer_version_def Let_def by (metis not_less_iff_gr_or_eq less_trans)

lemma newer_version_total:
  "dated a \<Longrightarrow> dated b \<Longrightarrow> date_parse (ve_updated_at a) \<noteq> date_parse (ve_updated_at b) \<or> ve_updated_by a \<noteq> ve_updated_by b \<Longrightarrow>
   newer_version a b \<longleftrightarrow> \<not> newer_version b a"
  unfolding newer_version_def Let_def dated_def by (metis not_less_iff_gr_or_eq option.expand)

text \<open>Two machines that meet the same two versions of a value agree on which one to keep, each calling its own
  version mine, whenever the versions differ in time or in signer; and which of three versions is kept does not
  depend on the order they meet in. The times are dates, as the schema has it.\<close>

theorem vault_conflict_agreed:
  assumes "dated a" "dated b" "dated c"
    and "date_parse (ve_updated_at a) \<noteq> date_parse (ve_updated_at b) \<or> ve_updated_by a \<noteq> ve_updated_by b"
  shows "kept_version a b = kept_version b a \<and>
    kept_version (kept_version a b) c = kept_version a (kept_version b c)"
  using assms newer_version_total [of a b] newer_version_trans [of a b c] not_newer_version_trans [of a b c]
  by (auto simp: kept_version_newer)

section \<open>The properties at work\<close>

text \<open>
  Primitives that meet the promises, for the witnesses: every public key is the same 32 bytes, the shared secret
  is constant, sealing is the identity with a zero tag.
\<close>

definition toy_vault :: vault_crypto where
  "toy_vault = \<lparr>sha256 = (\<lambda>m. replicate 32 0), ed25519_sign = (\<lambda>sk m. m), ed25519_verify = (\<lambda>k m s. s = m),
     x25519_public = (\<lambda>d. replicate 32 0), x25519_importable = (\<lambda>x d. True), x25519 = (\<lambda>d p. Some [1]),
     hkdf_sha256 = (\<lambda>ikm salt inf n. replicate n 0), gcm_seal = (\<lambda>k i a p. (p, replicate 16 0)),
     gcm_open = (\<lambda>k i a b t. Some b), ed25519_public = (\<lambda>d. replicate 32 0), ed25519_importable = (\<lambda>x d. True),
     draw_bytes = (\<lambda>i n. replicate n 0), draw_private = (\<lambda>i. ''d'')\<rparr>"

lemma toy_vault_ok: "primitives_ok toy_vault"
  by (simp add: primitives_ok_def x25519_ok_def gcm_ok_def ed25519_ok_def toy_vault_def)

definition toy_keys :: machine_keys where
  "toy_keys = \<lparr>mk_key_id = take 26 (base32 (replicate 32 0)), mk_encryption_key = zero_key, mk_signing_key = zero_key,
     mk_encryption_private = ''d'', mk_signing_private = ''d''\<rparr>"

definition toy_info :: key_info where
  "toy_info = \<lparr>ki_key_id = mk_key_id toy_keys, ki_encryption_key = zero_key, ki_signing_key = zero_key,
     ki_name = ''Ann'', ki_email = [], ki_machine = ''m'', ki_requested_at = [], ki_fingerprint = []\<rparr>"

lemma toy_keys_ok: "machine_keys_ok toy_vault toy_keys"
  by (simp add: machine_keys_ok_def toy_keys_def toy_vault_def key_id_of_def public_digest_def raw_zero_key
      crypto.defs zero_key_def [symmetric])

theorem vault_entry_opens_witness:
  "\<exists>n' e. build_vault_entry toy_vault 0 (Ref_secret ''db'') ''Database'' (ustring_of ''hunter2'') [toy_info] toy_keys
     ''2026-07-30T00:00:00Z'' = (n', Inr e) \<and> open_vault_entry toy_vault e toy_keys = Some (ustring_of ''hunter2'')"
proof -
  have "\<forall>c \<in> set (ustring_of ''hunter2''). scalar c" using scalar_ustring_of by blast
  from vault_entry_opens [OF toy_vault_ok toy_keys_ok this, of "[toy_info]" 0 "Ref_secret ''db''" "''Database''"
      "''2026-07-30T00:00:00Z''"] show ?thesis
    using toy_keys_ok by (auto simp: toy_info_def toy_keys_def)
qed

text \<open>An entry with a wrap for \<open>toy_keys\<close> only, and a state that approved a second machine.\<close>

definition other_id :: string where
  "other_id = mk_key_id toy_keys @ ''B''"

definition toy_state :: access_state where
  "toy_state = \<lparr>st_on = True, st_authority = Some Signed, st_genesis_id = Some ''1'',
     st_keys = [(mk_key_id toy_keys, toy_info), (other_id, toy_info\<lparr>ki_key_id := other_id\<rparr>)],
     st_approved = [mk_key_id toy_keys, other_id], st_admins = [], st_removed = [], st_problems = []\<rparr>"

definition toy_entry :: vault_entry where
  "toy_entry = \<lparr>ve_secret = Ref_secret ''db'', ve_label = ''Database'', ve_cipher = base64url (replicate 28 0),
     ve_wraps = [(mk_key_id toy_keys, base64url (replicate 92 0))], ve_updated_at = ''2026-07-30T00:00:00Z'',
     ve_updated_by = mk_key_id toy_keys, ve_signature = []\<rparr>"

lemma toy_unwrap: "unwrap_data_key toy_vault (base64url (replicate 92 0)) toy_keys = Inr (replicate 32 0)"
proof -
  have "raw_public_key (base64url (take 32 (replicate 92 0))) = Inr (replicate 32 0)"
    by (subst raw_public_key_base64url) simp_all
  then show ?thesis
    by (simp add: unwrap_data_key_def base64url_inverse from_key_error_def PUBLIC_KEY_BYTES_def NONCE_BYTES_def
        TAG_BYTES_def KEY_BYTES_def toy_vault_def toy_keys_def shared_secret_with_def zero_key_def open_bytes_def)
qed

lemma toy_keys_not_B: "mk_key_id toy_keys \<noteq> other_id"
  by (simp add: other_id_def)

lemma toy_recipients: "approved_recipients toy_state = [toy_info, toy_info\<lparr>ki_key_id := other_id\<rparr>]"
  using toy_keys_not_B by (simp add: approved_recipients_def toy_state_def)

lemma toy_enc: "mk_encryption_key toy_keys = zero_key"
  by (simp add: toy_keys_def)

lemma toy_healed: "\<exists>n' e'. heal_vault_entry toy_vault 0 toy_entry toy_state toy_keys = (n', Inr (Some e'))"
proof -
  let ?b = "toy_info\<lparr>ki_key_id := other_id\<rparr>"
  have missing: "filter (\<lambda>r. \<not> jshas (ve_wraps toy_entry) (ki_key_id r)) (approved_recipients toy_state) = [?b]"
    using toy_keys_not_B by (auto simp: toy_recipients toy_entry_def toy_info_def)
  have mine: "jsget (ve_wraps toy_entry) (mk_key_id toy_keys) = Some (base64url (replicate 92 0))"
    by (simp add: toy_entry_def)
  obtain n' w where "wrap_data_key toy_vault 0 (replicate 32 0) zero_key = (n', Inr w)"
    by (rule unwrap_wrapped [OF toy_vault_ok toy_keys_ok, of "replicate 32 0" 0]) (simp_all add: toy_enc)
  then have wrapped: "wrap_each toy_vault 0 (replicate 32 0) (ve_wraps toy_entry) [?b] =
      (n', Inr (jsset (ve_wraps toy_entry) other_id w))"
    by (simp add: try_wrap_def toy_info_def)
  obtain e' where "sign_entry toy_vault (toy_entry\<lparr>ve_wraps := jsset (ve_wraps toy_entry) other_id w,
      ve_updated_by := mk_key_id toy_keys\<rparr>) toy_keys = Inr e'"
    using sign_entry_ok [OF toy_keys_ok] by blast
  then show ?thesis
    unfolding heal_vault_entry_def Let_def missing mine using wrapped
    by (simp add: toy_unwrap toy_info_def update_conv')
qed

theorem healing_adds_readers_only_witness:
  "\<exists>e' :: vault_entry. ve_cipher e' = ve_cipher toy_entry \<and> jshas (ve_wraps e') (mk_key_id toy_keys)"
proof -
  obtain n' e' where e: "heal_vault_entry toy_vault 0 toy_entry toy_state toy_keys = (n', Inr (Some e'))"
    using toy_healed by blast
  have "distinct (map ki_key_id (approved_recipients toy_state))"
    using toy_keys_not_B by (simp add: toy_recipients toy_info_def)
  from healing_adds_readers_only [OF toy_vault_ok toy_keys_ok this e]
  have "ve_cipher e' = ve_cipher toy_entry"
    "\<forall>k w. jsget (ve_wraps toy_entry) k = Some w \<longrightarrow> jsget (ve_wraps e') k = Some w" by blast+
  moreover have "jsget (ve_wraps toy_entry) (mk_key_id toy_keys) = Some (base64url (replicate 92 0))"
    by (simp add: toy_entry_def)
  ultimately show ?thesis by blast
qed

theorem vault_conflict_agreed_witness:
  "kept_version toy_entry (toy_entry\<lparr>ve_updated_at := ''2026-07-30T02:00:00+01:00''\<rparr>) =
   kept_version (toy_entry\<lparr>ve_updated_at := ''2026-07-30T02:00:00+01:00''\<rparr>) toy_entry"
proof -
  have d: "date_parse ''2026-07-30T00:00:00Z'' = Some 1785369600000"
    "date_parse ''2026-07-30T02:00:00+01:00'' = Some 1785373200000"
    by code_simp+
  have "dated toy_entry" "dated (toy_entry\<lparr>ve_updated_at := ''2026-07-30T02:00:00+01:00''\<rparr>)"
    by (simp_all add: dated_def toy_entry_def d)
  then show ?thesis
    using vault_conflict_agreed [of toy_entry "toy_entry\<lparr>ve_updated_at := ''2026-07-30T02:00:00+01:00''\<rparr>" toy_entry]
    by (simp add: toy_entry_def d)
qed

end
