(* ===== verification/Audit_Chain.thy ===== *)
theory Audit_Chain
  imports Utf8 Iso_Date Machine
begin

text \<open>
  The keyed chain over the server's audit log (\<^verbatim>\<open>packages/server/src/audit-log\<close>): the canonical bytes and links
  (\<^verbatim>\<open>chain/canonical.ts\<close>), the sealing pass (\<^verbatim>\<open>chain/sealer.ts\<close>), retention (\<^verbatim>\<open>repo.ts\<close>) and verify's walk
  (\<^verbatim>\<open>chain/verify.ts\<close>). One tenant's tables are a value of the record \<open>audit_db\<close>, which the queries read and
  update as their SQL says. SHA-256 and HMAC-SHA256 are the fields of \<open>chain_crypto\<close>.
\<close>

section \<open>Canonical bytes and links\<close>

record chain_crypto =
  hash256 :: "bytes \<Rightarrow> bytes"
  hmac256 :: "bytes \<Rightarrow> bytes \<Rightarrow> bytes"

record canonical_row =
  cr_id :: "string option"
  cr_at :: "string option"
  cr_actor_kind :: "ustring option"
  cr_actor_user_id :: "ustring option"
  cr_actor_email :: "ustring option"
  cr_actor_token_id :: "ustring option"
  cr_actor_workspace_id :: "ustring option"
  cr_action :: "ustring option"
  cr_target_kind :: "ustring option"
  cr_target_id :: "ustring option"
  cr_workspace_id :: "ustring option"
  cr_team_id :: "ustring option"
  cr_ip :: "ustring option"
  cr_user_agent :: "ustring option"
  cr_details :: "ustring option"

definition CANONICAL_FIELDS :: "canonical_row \<Rightarrow> ustring option list" where
  "CANONICAL_FIELDS r =
     [map_option ustring_of (cr_id r), map_option ustring_of (cr_at r), cr_actor_kind r, cr_actor_user_id r,
      cr_actor_email r, cr_actor_token_id r, cr_actor_workspace_id r, cr_action r, cr_target_kind r,
      cr_target_id r, cr_workspace_id r, cr_team_id r, cr_ip r, cr_user_agent r, cr_details r]"

definition GENESIS_MESSAGE :: string where "GENESIS_MESSAGE = ''wirebench-audit-chain-genesis''"
definition ANCHOR_MESSAGE :: string where "ANCHOR_MESSAGE = ''wirebench-audit-chain-anchor''"
definition HASH_BYTES :: nat where "HASH_BYTES = 32"
definition MAX_SEQ :: int where "MAX_SEQ = 2 ^ 63 - 1"

definition ascii :: "string \<Rightarrow> bytes" where
  "ascii s = utf8 (ustring_of s)"

text \<open>\<^verbatim>\<open>writeBigInt64BE\<close>.\<close>

definition seq_bytes :: "int \<Rightarrow> bytes" where
  "seq_bytes s = (let n = nat (s mod 2 ^ 64) in be32 (n div 2 ^ 32) @ be32 (n mod 2 ^ 32))"

definition chain_key_id :: "chain_crypto \<Rightarrow> ustring \<Rightarrow> string" where
  "chain_key_id cr key = concat (map (\<lambda>b. hex_byte (unat b)) (take 8 (hash256 cr (utf8 key))))"

definition genesis_hash :: "chain_crypto \<Rightarrow> ustring \<Rightarrow> bytes" where
  "genesis_hash cr key = hmac256 cr (utf8 key) (ascii GENESIS_MESSAGE)"

definition field_bytes :: "ustring option \<Rightarrow> bytes" where
  "field_bytes v = (case v of
     None \<Rightarrow> ascii ''-1:''
   | Some t \<Rightarrow> (let bs = utf8 t in ascii (show_nat (length bs) @ '':'') @ bs))"

definition canonical_bytes :: "canonical_row \<Rightarrow> bytes" where
  "canonical_bytes r = concat (map field_bytes (CANONICAL_FIELDS r))"

text \<open>\<open>None\<close> is a \<^verbatim>\<open>RangeError\<close>.\<close>

definition link_message :: "bytes \<Rightarrow> int \<Rightarrow> canonical_row \<Rightarrow> bytes" where
  "link_message prev s r = prev @ seq_bytes s @ canonical_bytes r"

definition link :: "chain_crypto \<Rightarrow> ustring \<Rightarrow> bytes \<Rightarrow> int \<Rightarrow> canonical_row \<Rightarrow> bytes option" where
  "link cr key prev s r =
     (if length prev \<noteq> HASH_BYTES then None
      else if s < 1 \<or> s > MAX_SEQ then None
      else Some (hmac256 cr (utf8 key) (link_message prev s r)))"

definition anchor_mac :: "chain_crypto \<Rightarrow> ustring \<Rightarrow> int \<Rightarrow> bytes \<Rightarrow> int \<Rightarrow> bytes option" where
  "anchor_mac cr key s h head =
     (if length h \<noteq> HASH_BYTES then None
      else if s < 0 \<or> s > MAX_SEQ \<or> head < 0 \<or> head > MAX_SEQ then None
      else Some (hmac256 cr (utf8 key) (ascii ANCHOR_MESSAGE @ seq_bytes s @ h @ seq_bytes head)))"

record anchor =
  an_seq :: int
  an_hash :: bytes
  an_key_id :: string
  an_head_seq :: int
  an_mac :: bytes

definition anchor_mac_valid :: "chain_crypto \<Rightarrow> ustring \<Rightarrow> anchor \<Rightarrow> bool" where
  "anchor_mac_valid cr key a \<longleftrightarrow>
     (case anchor_mac cr key (an_seq a) (an_hash a) (an_head_seq a) of None \<Rightarrow> False | Some m \<Rightarrow> an_mac a = m)"

section \<open>The tables\<close>

record event =
  ev_row :: canonical_row
  ev_seq :: "int option"
  ev_hash :: "bytes option"

record sealed_row =
  sd_seq :: int
  sd_hash :: "bytes option"
  sd_row :: canonical_row

text \<open>\<open>db_log\<close> is what the sealer logged: the head after each pass that sealed something.\<close>

record audit_db =
  db_events :: "event list"
  db_anchor :: "anchor option"
  db_log :: "(int \<times> bytes) list"

definition as_sealed :: "event \<Rightarrow> sealed_row list" where
  "as_sealed e = (case ev_seq e of None \<Rightarrow> [] | Some s \<Rightarrow> [\<lparr>sd_seq = s, sd_hash = ev_hash e, sd_row = ev_row e\<rparr>])"

text \<open>The sealed rows in chain order, which is how an index on \<^verbatim>\<open>chain_seq\<close> reads them.\<close>

definition sealed_rows :: "audit_db \<Rightarrow> sealed_row list" where
  "sealed_rows db = sort_key sd_seq (concat (map as_sealed (db_events db)))"

definition sealed_page :: "audit_db \<Rightarrow> int \<Rightarrow> nat \<Rightarrow> sealed_row list" where
  "sealed_page db after n = take n (filter (\<lambda>r. after < sd_seq r) (sealed_rows db))"

definition count_unsealed :: "audit_db \<Rightarrow> nat" where
  "count_unsealed db = length (filter (\<lambda>e. ev_seq e = None) (db_events db))"

definition chain_head :: "audit_db \<Rightarrow> (int \<times> bytes option) option" where
  "chain_head db = (case rev (sealed_rows db) of [] \<Rightarrow> None | r # _ \<Rightarrow> Some (sd_seq r, sd_hash r))"

text \<open>
  The unsealed rows no other transaction has locked, in \<^verbatim>\<open>(at, id)\<close> order: the texts of the times sort as the
  times do (for the years 1 to 9999).
\<close>

definition at_text :: "event \<Rightarrow> string" where
  "at_text e = (case cr_at (ev_row e) of None \<Rightarrow> [] | Some t \<Rightarrow> t)"

definition id_text :: "event \<Rightarrow> string" where
  "id_text e = (case cr_id (ev_row e) of None \<Rightarrow> [] | Some t \<Rightarrow> t)"

definition claim_unsealed :: "(string \<Rightarrow> bool) \<Rightarrow> audit_db \<Rightarrow> nat \<Rightarrow> canonical_row list" where
  "claim_unsealed locked db n =
     map ev_row (take n (filter (\<lambda>e. \<not> locked (id_text e))
       (sort_key at_text (sort_key id_text (filter (\<lambda>e. ev_seq e = None) (db_events db))))))"

definition seal_row :: "(string \<times> int \<times> bytes) list \<Rightarrow> event \<Rightarrow> event" where
  "seal_row seals e =
     (case cr_id (ev_row e) of
        None \<Rightarrow> e
      | Some i \<Rightarrow> (case map_of seals i of None \<Rightarrow> e | Some (s, h) \<Rightarrow> e\<lparr>ev_seq := Some s, ev_hash := Some h\<rparr>))"

definition seal_rows :: "audit_db \<Rightarrow> (string \<times> int \<times> bytes) list \<Rightarrow> audit_db" where
  "seal_rows db seals = db\<lparr>db_events := map (seal_row seals) (db_events db)\<rparr>"

definition set_anchor_head :: "chain_crypto \<Rightarrow> ustring \<Rightarrow> audit_db \<Rightarrow> anchor \<Rightarrow> int \<Rightarrow> audit_db option" where
  "set_anchor_head cr key db a head =
     (let next = (if head > an_head_seq a then head else an_head_seq a) in
      case anchor_mac cr key (an_seq a) (an_hash a) next of
        None \<Rightarrow> None
      | Some m \<Rightarrow> Some (db\<lparr>db_anchor := map_option (\<lambda>a. a\<lparr>an_head_seq := next, an_mac := m\<rparr>) (db_anchor db)\<rparr>))"

definition insert_genesis :: "chain_crypto \<Rightarrow> ustring \<Rightarrow> audit_db \<Rightarrow> (audit_db \<times> anchor) option" where
  "insert_genesis cr key db =
     (let h = genesis_hash cr key in
      case anchor_mac cr key 0 h 0 of
        None \<Rightarrow> None
      | Some m \<Rightarrow>
          let a = (case db_anchor db of
            Some a \<Rightarrow> a
          | None \<Rightarrow> \<lparr>an_seq = 0, an_hash = h, an_key_id = chain_key_id cr key, an_head_seq = 0, an_mac = m\<rparr>) in
          Some (db\<lparr>db_anchor := Some a\<rparr>, a))"

section \<open>The sealing pass\<close>

datatype sealing =
    Busy_elsewhere
  | Wrong_key string
  | Bad_anchor "int option" string
  | Sealed nat bool int bytes
  | Failed

text \<open>The loop over the claimed rows, from the head's number and hash; \<open>None\<close> is a throw, which rolls all back.\<close>

fun seal_each ::
    "chain_crypto \<Rightarrow> ustring \<Rightarrow> int \<Rightarrow> bytes option \<Rightarrow> canonical_row list \<Rightarrow>
     ((string \<times> int \<times> bytes) list \<times> int \<times> bytes option) option" where
  "seal_each cr key s h [] = Some ([], s, h)"
| "seal_each cr key s h (r # rs) =
     (case (cr_id r, h) of
        (Some i, Some prev) \<Rightarrow>
          (case link cr key prev (s + 1) r of
             None \<Rightarrow> None
           | Some h' \<Rightarrow> map_option (\<lambda>(seals, s', h''). ((i, s + 1, h') # seals, s', h''))
               (seal_each cr key (s + 1) (Some h') rs))
      | _ \<Rightarrow> None)"

definition anchor_state :: "anchor \<Rightarrow> string" where
  "anchor_state a = join '':'' [show_int (an_seq a), concat (map (\<lambda>b. hex_byte (unat b)) (an_hash a)),
     show_int (an_head_seq a), concat (map (\<lambda>b. hex_byte (unat b)) (an_mac a))]"

definition seal_from :: "chain_crypto \<Rightarrow> ustring \<Rightarrow> (string \<Rightarrow> bool) \<Rightarrow> nat \<Rightarrow> audit_db \<Rightarrow> anchor \<Rightarrow> (audit_db \<times> sealing) option" where
  "seal_from cr key locked batch db a =
     (let prior = (case chain_head db of Some l \<Rightarrow> l | None \<Rightarrow> (an_seq a, Some (an_hash a)));
          start = (if fst prior > an_head_seq a then fst prior else an_head_seq a);
          rows = claim_unsealed locked db batch in
      case seal_each cr key start (snd prior) rows of
        None \<Rightarrow> None
      | Some (seals, s, h) \<Rightarrow>
          let result = Sealed (length rows) (length rows \<ge> batch) s (case h of None \<Rightarrow> [] | Some x \<Rightarrow> x) in
          if seals = [] then Some (db, result)
          else map_option (\<lambda>db'. (db'\<lparr>db_log := db_log db' @ [(s, the h)]\<rparr>, result))
                 (set_anchor_head cr key (seal_rows db seals) a s))"

definition seal :: "chain_crypto \<Rightarrow> ustring \<Rightarrow> bool \<Rightarrow> (string \<Rightarrow> bool) \<Rightarrow> nat \<Rightarrow> audit_db \<Rightarrow> (audit_db \<times> sealing) option" where
  "seal cr key lock_free locked batch db =
     (if \<not> lock_free then Some (db, Busy_elsewhere)
      else case db_anchor db of
        None \<Rightarrow>
          if chain_head db \<noteq> None then Some (db, Bad_anchor None ''missing'')
          else (case insert_genesis cr key db of
              None \<Rightarrow> None
            | Some (db', a) \<Rightarrow>
                if an_key_id a \<noteq> chain_key_id cr key then Some (db', Wrong_key (an_key_id a))
                else if \<not> anchor_mac_valid cr key a then Some (db', Bad_anchor (Some (an_seq a)) (anchor_state a))
                else seal_from cr key locked batch db' a)
      | Some a \<Rightarrow>
          if an_key_id a \<noteq> chain_key_id cr key then Some (db, Wrong_key (an_key_id a))
          else if \<not> anchor_mac_valid cr key a then Some (db, Bad_anchor (Some (an_seq a)) (anchor_state a))
          else seal_from cr key locked batch db a)"

text \<open>A pass that threw leaves the tables as they were.\<close>

definition seal_pass :: "chain_crypto \<Rightarrow> ustring \<Rightarrow> bool \<Rightarrow> (string \<Rightarrow> bool) \<Rightarrow> nat \<Rightarrow> audit_db \<Rightarrow> audit_db \<times> sealing" where
  "seal_pass cr key lock_free locked batch db =
     (case seal cr key lock_free locked batch db of None \<Rightarrow> (db, Failed) | Some r \<Rightarrow> r)"

section \<open>What the sealer's loop makes of a pass\<close>

datatype seal_outcome = Outcome_sealed | Outcome_idle | Outcome_busy | Outcome_wrong_key | Outcome_bad_anchor | Outcome_failed

definition SEAL_BACKLOG_MS :: nat where "SEAL_BACKLOG_MS = 0"
definition SEAL_BUSY_MS :: nat where "SEAL_BUSY_MS = 2000"
definition SEAL_IDLE_MS :: nat where "SEAL_IDLE_MS = 5000"
definition SEAL_BACKOFF_MIN_MS :: nat where "SEAL_BACKOFF_MIN_MS = 5000"
definition SEAL_BACKOFF_MAX_MS :: nat where "SEAL_BACKOFF_MAX_MS = 300000"

definition backoff :: "nat \<Rightarrow> nat" where
  "backoff failures = min (SEAL_BACKOFF_MIN_MS * 2 ^ min (failures - 1) 16) SEAL_BACKOFF_MAX_MS"

record tenant_state =
  tn_failures :: nat
  tn_refused_key_id :: "string option"
  tn_refused_anchor :: "string option"

record tenant_pass =
  tp_outcome :: seal_outcome
  tp_sealed :: nat
  tp_next_delay :: nat

datatype chain_log =
    Log_failing
  | Log_recovered nat
  | Log_wrong_key string
  | Log_bad_anchor "int option"
  | Log_sealed nat int bytes

definition pass_of :: "seal_outcome \<Rightarrow> nat \<Rightarrow> nat \<Rightarrow> tenant_pass" where
  "pass_of out n delay = \<lparr>tp_outcome = out, tp_sealed = n, tp_next_delay = delay\<rparr>"

definition pass_failed :: "tenant_state \<Rightarrow> tenant_state \<times> tenant_pass \<times> chain_log list" where
  "pass_failed st =
     (let n = tn_failures st + 1 in
      (st\<lparr>tn_failures := n\<rparr>, pass_of Outcome_failed 0 (backoff n), if tn_failures st = 0 then [Log_failing] else []))"

definition pass_settled :: "tenant_state \<Rightarrow> sealing \<Rightarrow> tenant_state \<times> tenant_pass \<times> chain_log list" where
  "pass_settled st r =
     (let recovered = (if tn_failures st > 0 then [Log_recovered (tn_failures st)] else []); st = st\<lparr>tn_failures := 0\<rparr> in
      case r of
        Busy_elsewhere \<Rightarrow> (st, pass_of Outcome_busy 0 SEAL_IDLE_MS, recovered)
      | Wrong_key k \<Rightarrow>
          (st\<lparr>tn_refused_key_id := Some k\<rparr>, pass_of Outcome_wrong_key 0 SEAL_IDLE_MS,
           recovered @ (if tn_refused_key_id st \<noteq> Some k then [Log_wrong_key k] else []))
      | Bad_anchor s state \<Rightarrow>
          (st\<lparr>tn_refused_anchor := Some state\<rparr>, pass_of Outcome_bad_anchor 0 SEAL_IDLE_MS,
           recovered @ (if tn_refused_anchor st \<noteq> Some state then [Log_bad_anchor s] else []))
      | Sealed n full s h \<Rightarrow>
          (let st = st\<lparr>tn_refused_key_id := None, tn_refused_anchor := None\<rparr> in
           if n = 0 then (st, pass_of Outcome_idle 0 SEAL_IDLE_MS, recovered)
           else (st, pass_of Outcome_sealed n (if full then SEAL_BACKLOG_MS else SEAL_BUSY_MS), recovered @ [Log_sealed n s h]))
      | Failed \<Rightarrow> pass_failed st)"

text \<open>\<^verbatim>\<open>failed\<close> and \<^verbatim>\<open>settled\<close>, by whether the transaction threw.\<close>

definition tenant_after :: "tenant_state \<Rightarrow> sealing \<Rightarrow> tenant_state \<times> tenant_pass \<times> chain_log list" where
  "tenant_after st r = (if r = Failed then pass_failed st else pass_settled st r)"

definition OUTCOME_ORDER :: "seal_outcome list" where
  "OUTCOME_ORDER = [Outcome_sealed, Outcome_failed, Outcome_wrong_key, Outcome_bad_anchor, Outcome_busy, Outcome_idle]"

definition whole_pass :: "tenant_pass list \<Rightarrow> tenant_pass" where
  "whole_pass ps =
     (if ps = [] then pass_of Outcome_idle 0 SEAL_IDLE_MS
      else pass_of (case find (\<lambda>c. list_ex (\<lambda>p. tp_outcome p = c) ps) OUTCOME_ORDER of Some c \<Rightarrow> c | None \<Rightarrow> Outcome_idle)
        (sum_list (map tp_sealed ps)) (fold min (map tp_next_delay (tl ps)) (tp_next_delay (hd ps))))"

lemma backoff_bounds: "SEAL_BACKOFF_MIN_MS \<le> backoff n \<and> backoff n \<le> SEAL_BACKOFF_MAX_MS"
  by (simp add: backoff_def SEAL_BACKOFF_MIN_MS_def SEAL_BACKOFF_MAX_MS_def)

lemma backoff_mono: "m \<le> n \<Longrightarrow> backoff m \<le> backoff n"
  unfolding backoff_def by (intro min.mono mult_left_mono power_increasing) auto

text \<open>A refusal is logged once: the same result again logs nothing.\<close>

lemma refusal_logged_once:
  "r \<noteq> Failed \<Longrightarrow> tp_sealed (fst (snd (tenant_after st r))) = 0 \<Longrightarrow>
   snd (snd (tenant_after (fst (tenant_after st r)) r)) = []"
  by (cases r) (auto simp: tenant_after_def pass_settled_def Let_def pass_of_def split: if_splits)

section \<open>Retention\<close>

definition older_than :: "string option \<Rightarrow> int \<Rightarrow> bool" where
  "older_than t cutoff =
     (case t of None \<Rightarrow> False | Some x \<Rightarrow> (case date_parse (take 23 x @ ''Z'') of None \<Rightarrow> False | Some ms \<Rightarrow> ms < cutoff))"

definition expected_link :: "chain_crypto \<Rightarrow> ustring \<Rightarrow> bytes \<Rightarrow> sealed_row \<Rightarrow> bytes option" where
  "expected_link cr key prev r = link cr key prev (sd_seq r) (sd_row r)"

text \<open>The loop over the page: the deletable prefix, and the number retention stopped at, if it did.\<close>

fun old_prefix ::
    "chain_crypto \<Rightarrow> ustring \<Rightarrow> int \<Rightarrow> int \<Rightarrow> bytes \<Rightarrow> sealed_row list \<Rightarrow> sealed_row list \<times> int option" where
  "old_prefix cr key cutoff s h [] = ([], None)"
| "old_prefix cr key cutoff s h (r # rs) =
     (if sd_seq r \<noteq> s + 1 then ([], Some (s + 1))
      else case (expected_link cr key h r, sd_hash r) of
          (Some e, Some h') \<Rightarrow>
            if e \<noteq> h' then ([], Some (sd_seq r))
            else if \<not> older_than (cr_at (sd_row r)) cutoff then ([], None)
            else (let (old, stop) = old_prefix cr key cutoff (sd_seq r) h' rs in (r # old, stop))
        | _ \<Rightarrow> ([], Some (sd_seq r)))"

text \<open>\<open>held\<close>: the forwarder is sending the event, or another transaction has its queue entry.\<close>

definition unheld_by_forwarder :: "(string \<Rightarrow> bool) \<Rightarrow> sealed_row list \<Rightarrow> sealed_row list" where
  "unheld_by_forwarder held rs = takeWhile (\<lambda>r. case cr_id (sd_row r) of None \<Rightarrow> True | Some i \<Rightarrow> \<not> held i) rs"

definition delete_sealed_before ::
    "chain_crypto \<Rightarrow> ustring \<Rightarrow> bool \<Rightarrow> (string \<Rightarrow> bool) \<Rightarrow> int \<Rightarrow> nat \<Rightarrow> audit_db \<Rightarrow> audit_db" where
  "delete_sealed_before cr key lock_free held cutoff limit db =
     (if \<not> lock_free then db
      else case db_anchor db of
        None \<Rightarrow> db
      | Some a \<Rightarrow>
          if \<not> anchor_mac_valid cr key a then db
          else (let old = fst (old_prefix cr key cutoff (an_seq a) (an_hash a) (sealed_page db (an_seq a) limit)) in
            case rev (unheld_by_forwarder held old) of
              [] \<Rightarrow> db
            | newest # _ \<Rightarrow>
                (case anchor_mac cr key (sd_seq newest) (the (sd_hash newest)) (an_head_seq a) of
                   None \<Rightarrow> db
                 | Some m \<Rightarrow>
                     db\<lparr>db_events := filter (\<lambda>e. \<not> (case ev_seq e of None \<Rightarrow> False
                           | Some s \<Rightarrow> an_seq a < s \<and> s \<le> sd_seq newest)) (db_events db),
                        db_anchor := Some (a\<lparr>an_seq := sd_seq newest, an_hash := the (sd_hash newest), an_mac := m\<rparr>)\<rparr>)))"

text \<open>Without the key: the oldest unsealed rows; \<open>before\<close> is Postgres' comparison of the time with the cutoff.\<close>

definition delete_unsealed_before :: "(event \<Rightarrow> bool) \<Rightarrow> nat \<Rightarrow> audit_db \<Rightarrow> audit_db" where
  "delete_unsealed_before before limit db =
     (let picked = take limit (sort_key at_text (sort_key id_text
            (filter (\<lambda>e. ev_seq e = None \<and> before e) (db_events db)))) in
      db\<lparr>db_events := filter (\<lambda>e. cr_id (ev_row e) \<notin> (\<lambda>e. cr_id (ev_row e)) ` set picked) (db_events db)\<rparr>)"

definition insert_event :: "canonical_row \<Rightarrow> audit_db \<Rightarrow> audit_db" where
  "insert_event r db = db\<lparr>db_events := db_events db @ [\<lparr>ev_row = r, ev_seq = None, ev_hash = None\<rparr>]\<rparr>"

section \<open>Verify's walk\<close>

datatype broken_reason = Edited | Missing | Out_of_order | Head_not_found | Head_does_not_match

record broken_link =
  bl_seq :: int
  bl_id :: "string option"
  bl_reason :: broken_reason
  bl_anchor :: bool

record summary =
  su_checked :: nat
  su_first :: "int option"
  su_last :: "int option"
  su_unsealed :: nat
  su_broken :: "broken_link option"
  su_head_before_anchor :: bool

datatype verdict = Wrong_chain_key string | Checked summary

definition VERIFY_PAGE :: nat where "VERIFY_PAGE = 1000"
definition BEFORE_ALL :: int where "BEFORE_ALL = - (2 ^ 63)"

text \<open>What the walk reads.\<close>

record chain_reader =
  rd_anchor :: "anchor option"
  rd_unsealed :: nat
  rd_page :: "int \<Rightarrow> nat \<Rightarrow> sealed_row list"

record walk_state =
  wk_seq :: int
  wk_hash :: bytes
  wk_checked :: nat
  wk_first :: "int option"
  wk_last :: "int option"
  wk_head_hash :: "bytes option"

definition broken_at :: "int \<Rightarrow> string option \<Rightarrow> broken_reason \<Rightarrow> broken_link" where
  "broken_at s i why = \<lparr>bl_seq = s, bl_id = i, bl_reason = why, bl_anchor = False\<rparr>"

definition summary_of :: "chain_reader \<Rightarrow> walk_state \<Rightarrow> broken_link option \<Rightarrow> bool \<Rightarrow> verdict" where
  "summary_of rd w broken before =
     Checked \<lparr>su_checked = wk_checked w, su_first = wk_first w, su_last = wk_last w, su_unsealed = rd_unsealed rd,
       su_broken = broken, su_head_before_anchor = before\<rparr>"

text \<open>The body of the loop over a page: \<open>Inl\<close> is the broken link it reports.\<close>

definition walk_row ::
    "chain_crypto \<Rightarrow> ustring \<Rightarrow> int option \<Rightarrow> walk_state \<Rightarrow> sealed_row \<Rightarrow> (broken_link, walk_state) result" where
  "walk_row cr key head w r =
     (let next = wk_seq w + 1 in
      if sd_seq r > next then Inl (broken_at next None Missing)
      else if sd_seq r < next then Inl (broken_at (sd_seq r) (cr_id (sd_row r)) Out_of_order)
      else case (expected_link cr key (wk_hash w) r, sd_hash r) of
          (Some e, Some h) \<Rightarrow>
            if e \<noteq> h then Inl (broken_at (sd_seq r) (cr_id (sd_row r)) Edited)
            else Inr \<lparr>wk_seq = sd_seq r, wk_hash = h, wk_checked = wk_checked w + 1,
                wk_first = (case wk_first w of None \<Rightarrow> Some (sd_seq r) | Some f \<Rightarrow> Some f),
                wk_last = Some (sd_seq r),
                wk_head_hash = (if head = Some (sd_seq r) then Some h else wk_head_hash w)\<rparr>
        | _ \<Rightarrow> Inl (broken_at (sd_seq r) (cr_id (sd_row r)) Edited))"

fun walk_rows ::
    "chain_crypto \<Rightarrow> ustring \<Rightarrow> int option \<Rightarrow> walk_state \<Rightarrow> sealed_row list \<Rightarrow> (walk_state \<times> broken_link option)" where
  "walk_rows cr key head w [] = (w, None)"
| "walk_rows cr key head w (r # rs) =
     (case walk_row cr key head w r of
        Inl b \<Rightarrow> (w, Some b)
      | Inr w' \<Rightarrow> walk_rows cr key head w' rs)"

text \<open>The loop over the pages; \<open>None\<close> is a reader whose pages never end.\<close>

partial_function (option) walk_pages ::
    "chain_crypto \<Rightarrow> ustring \<Rightarrow> int option \<Rightarrow> (int \<Rightarrow> nat \<Rightarrow> sealed_row list) \<Rightarrow> nat \<Rightarrow> int \<Rightarrow> walk_state \<Rightarrow>
     (walk_state \<times> broken_link option) option" where
  "walk_pages cr key head read_page psize after w =
     (let page = read_page after psize in
      case walk_rows cr key head w page of
        (w', Some b) \<Rightarrow> Some (w', Some b)
      | (w', None) \<Rightarrow>
          (case rev page of
             [] \<Rightarrow> Some (w', None)
           | newest # _ \<Rightarrow> if length page < psize then Some (w', None)
               else walk_pages cr key head read_page psize (sd_seq newest) w'))"

text \<open>\<open>head\<close> is \<^verbatim>\<open>--head\<close>: a sequence number and the hex of its hash.\<close>

definition hex_of :: "bytes \<Rightarrow> string" where
  "hex_of bs = concat (map (\<lambda>b. hex_byte (unat b)) bs)"

definition walk_end :: "chain_reader \<Rightarrow> anchor option \<Rightarrow> (int \<times> string) option \<Rightarrow> walk_state \<Rightarrow> verdict" where
  "walk_end rd a head w =
     (let before = (case (head, a) of (Some (s, _), Some a) \<Rightarrow> s < an_seq a | _ \<Rightarrow> False);
          tail = (let top = (case wk_last w of Some l \<Rightarrow> l | None \<Rightarrow> (case a of Some a \<Rightarrow> an_seq a | None \<Rightarrow> 0)) in
            if (case a of Some a \<Rightarrow> top < an_head_seq a | None \<Rightarrow> False)
            then summary_of rd w (Some (broken_at (top + 1) None Missing)) False
            else summary_of rd w None before) in
      case head of
        None \<Rightarrow> tail
      | Some (s, h) \<Rightarrow>
          if before then tail
          else (case wk_head_hash w of
              None \<Rightarrow> summary_of rd w (Some (broken_at s None Head_not_found)) False
            | Some hh \<Rightarrow> if hex_of hh \<noteq> h then summary_of rd w (Some (broken_at s None Head_does_not_match)) False
                else tail))"

definition walk_chain ::
    "chain_crypto \<Rightarrow> chain_reader \<Rightarrow> ustring \<Rightarrow> (int \<times> string) option \<Rightarrow> nat \<Rightarrow> verdict option" where
  "walk_chain cr rd key head psize =
     (let w0 = \<lparr>wk_seq = 0, wk_hash = [], wk_checked = 0, wk_first = None, wk_last = None, wk_head_hash = None\<rparr> in
      case rd_anchor rd of
        None \<Rightarrow>
          (case rd_page rd BEFORE_ALL 1 of
             first # _ \<Rightarrow> Some (summary_of rd w0 (Some (broken_at (sd_seq first) (cr_id (sd_row first)) Edited)) False)
           | [] \<Rightarrow> Some (walk_end rd None head w0))
      | Some a \<Rightarrow>
          if an_key_id a \<noteq> chain_key_id cr key then Some (Wrong_chain_key (an_key_id a))
          else if \<not> anchor_mac_valid cr key a
          then Some (summary_of rd w0 (Some ((broken_at (an_seq a) None Edited)\<lparr>bl_anchor := True\<rparr>)) False)
          else map_option (\<lambda>(w, b). case b of
                   Some b \<Rightarrow> summary_of rd w (Some b) False
                 | None \<Rightarrow> walk_end rd (Some a) head w)
            (walk_pages cr key (map_option fst head) (rd_page rd) psize BEFORE_ALL
              (w0\<lparr>wk_seq := an_seq a, wk_hash := an_hash a,
                  wk_head_hash := (if map_option fst head = Some (an_seq a) then Some (an_hash a) else None)\<rparr>)))"

definition db_reader :: "audit_db \<Rightarrow> chain_reader" where
  "db_reader db = \<lparr>rd_anchor = db_anchor db, rd_unsealed = count_unsealed db, rd_page = sealed_page db\<rparr>"

definition intact :: "verdict option \<Rightarrow> bool" where
  "intact v \<longleftrightarrow> (case v of Some (Checked s) \<Rightarrow> su_broken s = None | _ \<Rightarrow> False)"

section \<open>Nothing is lost in the bytes\<close>

definition ascii_byte :: "char \<Rightarrow> byte" where
  "ascii_byte c = byte_of (of_char c)"

lemma ascii_map: "\<forall>c \<in> set s. (of_char c :: nat) < 128 \<Longrightarrow> ascii s = map ascii_byte s"
  by (induction s) (auto simp: ascii_def ustring_of_def utf8_char_def ascii_byte_def)

lemma ascii_byte_inject: "ascii_byte c = ascii_byte d \<Longrightarrow> c = d"
proof -
  assume "ascii_byte c = ascii_byte d"
  then have "(of_char c :: nat) = of_char d"
    using byte_of_inject [of "of_char c" "of_char d"] nat_of_char_less_256 [of c] nat_of_char_less_256 [of d]
    by (simp add: ascii_byte_def)
  then show "c = d" by (simp only: of_char_eq_iff)
qed

lemma ascii_length: "ascii (show_nat n @ '':'') = map ascii_byte (show_nat n) @ [ascii_byte CHR '':'']"
  using show_nat_digits [of n] by (subst ascii_map) fastforce+

lemma ascii_null: "ascii ''-1:'' = map ascii_byte ''-1'' @ [ascii_byte CHR '':'']"
  by (subst ascii_map) auto

lemma no_colon: "ascii_byte CHR '':'' \<notin> set (map ascii_byte (show_nat n))"
  using show_nat_digits [of n] by (auto dest!: ascii_byte_inject)

lemma no_colon_null: "ascii_byte CHR '':'' \<notin> set (map ascii_byte ''-1'')"
  by (auto dest!: ascii_byte_inject)

lemma show_nat_not_null: "map ascii_byte (show_nat n) \<noteq> map ascii_byte ''-1''"
proof
  assume e: "map ascii_byte (show_nat n) = map ascii_byte ''-1''"
  then have "CHR ''-'' \<in> set (show_nat n)" by (cases "show_nat n") (auto dest!: ascii_byte_inject)
  then show False using show_nat_digits [of n] by auto
qed

lemma separated_eq: "x \<notin> set xs \<Longrightarrow> x \<notin> set ys \<Longrightarrow> xs @ x # r = ys @ x # q \<longleftrightarrow> xs = ys \<and> r = q"
proof (induction xs arbitrary: ys)
  case Nil
  then show ?case by (cases ys) auto
next
  case (Cons a xs)
  then show ?case by (cases ys) auto
qed

lemma null_is_not_length:
  "map ascii_byte ''-1'' @ ascii_byte CHR '':'' # r \<noteq> map ascii_byte (show_nat n) @ ascii_byte CHR '':'' # q"
  using separated_eq [OF no_colon_null no_colon] show_nat_not_null [of n] by metis

definition text_ok :: "ustring option \<Rightarrow> bool" where
  "text_ok v \<longleftrightarrow> (case v of None \<Rightarrow> True | Some t \<Rightarrow> \<forall>c \<in> set t. scalar c)"

lemma field_bytes_inject:
  assumes "field_bytes v @ r = field_bytes w @ q" "text_ok v" "text_ok w"
  shows "v = w \<and> r = q"
proof (cases v; cases w)
  fix s t assume v: "v = Some s" and w: "w = Some t"
  then have "map ascii_byte (show_nat (length (utf8 s))) @ ascii_byte CHR '':'' # utf8 s @ r =
      map ascii_byte (show_nat (length (utf8 t))) @ ascii_byte CHR '':'' # utf8 t @ q"
    using assms(1) by (simp add: field_bytes_def ascii_length Let_def)
  then have "map ascii_byte (show_nat (length (utf8 s))) = map ascii_byte (show_nat (length (utf8 t)))"
      and e: "utf8 s @ r = utf8 t @ q"
    using no_colon by (simp_all add: separated_eq)
  then have "show_nat (length (utf8 s)) = show_nat (length (utf8 t))"
    using inj_map_eq_map [of ascii_byte] ascii_byte_inject by (simp add: inj_def)
  then have "length (utf8 s) = length (utf8 t)" by (rule show_nat_inject)
  then show ?thesis using e assms(2,3) v w utf8_inject [of s t] by (simp add: text_ok_def)
next
  fix t assume "v = None" "w = Some t"
  then show ?thesis using assms(1) null_is_not_length by (simp add: field_bytes_def Let_def ascii_length ascii_null del: list.map)
next
  fix t assume "v = Some t" "w = None"
  then show ?thesis using assms(1) null_is_not_length [symmetric]
    by (simp add: field_bytes_def Let_def ascii_length ascii_null del: list.map)
qed (use assms in \<open>simp add: field_bytes_def\<close>)

lemma fields_bytes_inject:
  "length vs = length ws \<Longrightarrow> concat (map field_bytes vs) = concat (map field_bytes ws) \<Longrightarrow>
   list_all text_ok vs \<Longrightarrow> list_all text_ok ws \<Longrightarrow> vs = ws"
proof (induction vs ws rule: list_induct2)
  case (Cons v vs w ws)
  then show ?case using field_bytes_inject [of v "concat (map field_bytes vs)" w "concat (map field_bytes ws)"] by auto
qed simp

definition row_ok :: "canonical_row \<Rightarrow> bool" where
  "row_ok r \<longleftrightarrow> list_all text_ok (CANONICAL_FIELDS r)"

lemma ustring_of_inject: "ustring_of s = ustring_of t \<Longrightarrow> s = t"
  using inj_map_eq_map [of "of_char :: char \<Rightarrow> nat"] by (simp add: ustring_of_def inj_def)

lemma map_ustring_of_inject: "map_option ustring_of v = map_option ustring_of w \<Longrightarrow> v = w"
  by (cases v; cases w) (auto dest: ustring_of_inject)

lemma canonical_bytes_inject:
  assumes "canonical_bytes r = canonical_bytes q" "row_ok r" "row_ok q"
  shows "r = q"
proof -
  have "CANONICAL_FIELDS r = CANONICAL_FIELDS q"
    using fields_bytes_inject [of "CANONICAL_FIELDS r" "CANONICAL_FIELDS q"] assms
    by (simp add: canonical_bytes_def row_ok_def) (simp add: CANONICAL_FIELDS_def)
  then show ?thesis by (intro canonical_row.equality) (auto simp: CANONICAL_FIELDS_def dest: map_ustring_of_inject)
qed

lemma length_seq_bytes [simp]: "length (seq_bytes s) = 8"
  by (simp add: seq_bytes_def Let_def)

lemma seq_bytes_inject:
  assumes "seq_bytes s = seq_bytes t" "0 \<le> s" "s \<le> MAX_SEQ" "0 \<le> t" "t \<le> MAX_SEQ"
  shows "s = t"
proof -
  define m n where "m = nat (s mod 2 ^ 64)" and "n = nat (t mod 2 ^ 64)"
  have "m < 2 ^ 64" "n < 2 ^ 64" by (simp_all add: m_def n_def nat_less_iff)
  then have hi: "m div 2 ^ 32 < 2 ^ 32" "n div 2 ^ 32 < 2 ^ 32" by (simp_all add: less_mult_imp_div_less)
  have "be32 (m div 2 ^ 32) = be32 (n div 2 ^ 32)" "be32 (m mod 2 ^ 32) = be32 (n mod 2 ^ 32)"
    using assms(1) by (simp_all add: seq_bytes_def Let_def m_def n_def)
  then have "m div 2 ^ 32 = n div 2 ^ 32" "m mod 2 ^ 32 = n mod 2 ^ 32"
    using hi be32_inverse [of "m div 2 ^ 32"] be32_inverse [of "n div 2 ^ 32"] be32_inverse [of "m mod 2 ^ 32"]
      be32_inverse [of "n mod 2 ^ 32"] by simp_all
  then have "m = n" by (metis div_mult_mod_eq)
  then show ?thesis using assms by (simp add: m_def n_def MAX_SEQ_def)
qed

section \<open>Chained rows, and the walk over them\<close>

text \<open>\<open>chained cr key s h rs\<close>: the rows continue the chain from the number \<open>s\<close> and the hash \<open>h\<close>, without a gap.\<close>

fun chained :: "chain_crypto \<Rightarrow> ustring \<Rightarrow> int \<Rightarrow> bytes \<Rightarrow> sealed_row list \<Rightarrow> bool" where
  "chained cr key s h [] = True"
| "chained cr key s h (r # rs) =
     (sd_seq r = s + 1 \<and>
      (case sd_hash r of None \<Rightarrow> False | Some h' \<Rightarrow> expected_link cr key h r = Some h' \<and> chained cr key (s + 1) h' rs))"

fun tip :: "int \<Rightarrow> bytes \<Rightarrow> sealed_row list \<Rightarrow> int \<times> bytes" where
  "tip s h [] = (s, h)"
| "tip s h (r # rs) = tip (sd_seq r) (the (sd_hash r)) rs"

lemma tip_append [simp]: "tip s h (xs @ ys) = tip (fst (tip s h xs)) (snd (tip s h xs)) ys"
  by (induction xs arbitrary: s h) auto

lemma chained_append:
  "chained cr key s h (xs @ ys) \<longleftrightarrow>
   chained cr key s h xs \<and> chained cr key (fst (tip s h xs)) (snd (tip s h xs)) ys"
  by (induction xs arbitrary: s h) (auto split: option.splits)

lemma chained_tip: "chained cr key s h xs \<Longrightarrow> fst (tip s h xs) = s + int (length xs)"
  by (induction xs arbitrary: s h) (auto split: option.splits)

lemma chained_seqs: "chained cr key s h xs \<Longrightarrow> map sd_seq xs = [s + 1..s + int (length xs)]"
proof (induction xs arbitrary: s h)
  case (Cons r rs)
  then have "map sd_seq rs = [(s + 1) + 1..(s + 1) + int (length rs)]" "sd_seq r = s + 1"
    by (auto split: option.splits)
  then show ?case by (simp add: upto_rec1 ac_simps)
qed simp

lemma sorted_wrt_upto: "sorted_wrt (<) [i..j :: int]"
  by simp

lemma chained_sorted: "chained cr key s h xs \<Longrightarrow> sorted_wrt (<) (map sd_seq xs)"
  by (simp add: chained_seqs)

lemma chained_bounds: "chained cr key s h xs \<Longrightarrow> r \<in> set xs \<Longrightarrow> s < sd_seq r \<and> sd_seq r \<le> fst (tip s h xs)"
proof -
  assume c: "chained cr key s h xs" and "r \<in> set xs"
  then have "sd_seq r \<in> set [s + 1..s + int (length xs)]" using chained_seqs [OF c] by (metis imageI list.set_map)
  then show ?thesis using chained_tip [OF c] by simp
qed

lemma chained_hash: "chained cr key s h xs \<Longrightarrow> r \<in> set xs \<Longrightarrow> sd_hash r = Some (the (sd_hash r))"
  by (induction xs arbitrary: s h) (auto split: option.splits)

text \<open>What the walk knows after rows that are chained.\<close>

definition hash_at :: "int \<Rightarrow> sealed_row list \<Rightarrow> bytes option" where
  "hash_at s rs = (case filter (\<lambda>r. sd_seq r = s) rs of [] \<Rightarrow> None | r # _ \<Rightarrow> sd_hash r)"

lemma hash_at_Nil [simp]: "hash_at s [] = None"
  by (simp add: hash_at_def)

lemma hash_at_Cons: "hash_at s (r # rs) = (if sd_seq r = s then sd_hash r else hash_at s rs)"
  by (simp add: hash_at_def)

lemma hash_at_None: "\<forall>r \<in> set rs. sd_seq r \<noteq> s \<Longrightarrow> hash_at s rs = None"
  by (induction rs) (auto simp: hash_at_Cons)

lemma walk_row_ok:
  "walk_row cr key head w r = Inr w' \<longleftrightarrow>
     sd_seq r = wk_seq w + 1 \<and> (\<exists>h. sd_hash r = Some h \<and> expected_link cr key (wk_hash w) r = Some h \<and>
       w' = \<lparr>wk_seq = sd_seq r, wk_hash = h, wk_checked = wk_checked w + 1,
                wk_first = (case wk_first w of None \<Rightarrow> Some (sd_seq r) | Some f \<Rightarrow> Some f),
                wk_last = Some (sd_seq r),
                wk_head_hash = (if head = Some (sd_seq r) then Some h else wk_head_hash w)\<rparr>)"
  by (auto simp: walk_row_def Let_def split: option.splits if_splits)

lemma walk_rows_None: "walk_rows cr key head w rs = (w', None) \<Longrightarrow> chained cr key (wk_seq w) (wk_hash w) rs"
proof (induction rs arbitrary: w)
  case (Cons r rs)
  then obtain w1 where w1: "walk_row cr key head w r = Inr w1" "walk_rows cr key head w1 rs = (w', None)"
    by (auto split: sum.splits)
  then show ?case using Cons.IH [OF w1(2)] by (auto simp: walk_row_ok)
qed simp

lemma walk_rows_chained:
  "chained cr key (wk_seq w) (wk_hash w) rs \<Longrightarrow> \<exists>w'. walk_rows cr key head w rs = (w', None) \<and>
     wk_last w' = (if rs = [] then wk_last w else Some (fst (tip (wk_seq w) (wk_hash w) rs))) \<and>
     wk_head_hash w' = (case head of None \<Rightarrow> wk_head_hash w
       | Some s \<Rightarrow> (case hash_at s rs of None \<Rightarrow> wk_head_hash w | Some h \<Rightarrow> Some h)) \<and>
     wk_checked w' = wk_checked w + length rs"
proof (induction rs arbitrary: w)
  case Nil
  then show ?case by (auto split: option.split)
next
  case (Cons r rs)
  from Cons.prems obtain h where h: "sd_seq r = wk_seq w + 1" "sd_hash r = Some h"
      "expected_link cr key (wk_hash w) r = Some h" and c: "chained cr key (wk_seq w + 1) h rs"
    by (auto split: option.splits)
  define w1 where "w1 = \<lparr>wk_seq = sd_seq r, wk_hash = h, wk_checked = wk_checked w + 1,
      wk_first = (case wk_first w of None \<Rightarrow> Some (sd_seq r) | Some f \<Rightarrow> Some f),
      wk_last = Some (sd_seq r), wk_head_hash = (if head = Some (sd_seq r) then Some h else wk_head_hash w)\<rparr>"
  have r: "walk_row cr key head w r = Inr w1" using h by (auto simp: walk_row_ok w1_def)
  have none: "hash_at (sd_seq r) rs = None"
    using chained_bounds [OF c] h(1) by (intro hash_at_None) force
  obtain w' where w': "walk_rows cr key head w1 rs = (w', None)"
     "wk_last w' = (if rs = [] then wk_last w1 else Some (fst (tip (wk_seq w1) (wk_hash w1) rs)))"
     "wk_head_hash w' = (case head of None \<Rightarrow> wk_head_hash w1
       | Some s \<Rightarrow> (case hash_at s rs of None \<Rightarrow> wk_head_hash w1 | Some h \<Rightarrow> Some h))"
     "wk_checked w' = wk_checked w1 + length rs"
    using Cons.IH [of w1] c h(1) by (auto simp: w1_def)
  show ?case
    using w' none h(2) r by (auto simp: w1_def hash_at_Cons split: option.splits)
qed

text \<open>Paging does not matter: the loop over the pages is the loop over all the rows.\<close>

lemma walk_rows_append:
  "walk_rows cr key head w (xs @ ys) = (case walk_rows cr key head w xs of
     (w', Some b) \<Rightarrow> (w', Some b) | (w', None) \<Rightarrow> walk_rows cr key head w' ys)"
  by (induction xs arbitrary: w) (auto split: sum.split)

lemma filter_after_take:
  assumes "sorted_wrt (<) (map sd_seq L)" "n < length L"
  shows "filter (\<lambda>r. sd_seq (L ! n) < sd_seq r) L = drop (Suc n) L"
  using assms
proof (induction L arbitrary: n)
  case (Cons r L)
  show ?case
  proof (cases n)
    case 0
    have "\<forall>q \<in> set L. sd_seq r < sd_seq q" using Cons.prems by auto
    then show ?thesis using 0 by (simp add: filter_id_conv)
  next
    case (Suc m)
    then have "L ! m \<in> set L" "m < length L" using Cons.prems by auto
    then have "sd_seq r < sd_seq (L ! m)" using Cons.prems by auto
    then have "\<not> sd_seq (L ! m) < sd_seq r" by simp
    then show ?thesis using Suc Cons.IH [of m] Cons.prems \<open>m < length L\<close> by simp
  qed
qed simp

lemma walk_pages_all:
  assumes sorted: "sorted_wrt (<) (map sd_seq L)" and n: "0 < n"
  shows "R = filter (\<lambda>r. after < sd_seq r) L \<Longrightarrow>
    walk_pages cr key head (\<lambda>after n. take n (filter (\<lambda>r. after < sd_seq r) L)) n after w =
    Some (walk_rows cr key head w R)"
proof (induction "length R" arbitrary: R after w rule: less_induct)
  case less
  have R_sorted: "sorted_wrt (<) (map sd_seq R)"
    unfolding less.prems using sorted by (induction L) auto
  obtain w' b where w': "walk_rows cr key head w (take n R) = (w', b)" by force
  have whole: "walk_rows cr key head w R =
      (case b of Some x \<Rightarrow> (w', Some x) | None \<Rightarrow> walk_rows cr key head w' (drop n R))"
    using walk_rows_append [of cr key head w "take n R" "drop n R"] w' by (auto split: option.split)
  show ?case
  proof (cases "b = None \<and> n \<le> length R")
    case False
    then show ?thesis
      using w' whole by (subst walk_pages.simps) (auto simp: less.prems [symmetric] Let_def split: option.split list.split)
  next
    case True
    let ?p = "R ! (n - 1)"
    have "n \<le> length R" using True by simp
    then have "n - 1 < length R" using n by linarith
    then have p: "?p \<in> set R" by simp
    have newest: "rev (take n R) = ?p # rev (take (n - 1) R)"
      using n \<open>n - 1 < length R\<close> take_Suc_conv_app_nth [of "n - 1" R] by simp
    have after: "after < sd_seq ?p" using p less.prems by simp
    have narrow: "filter (\<lambda>r. i < sd_seq r) L = filter (\<lambda>r. i < sd_seq r) R" if "after < i" for i
      unfolding less.prems using that by (auto intro!: filter_cong)
    have rest: "drop n R = filter (\<lambda>r. sd_seq ?p < sd_seq r) L"
      using narrow [OF after] filter_after_take [OF R_sorted \<open>n - 1 < length R\<close>] n by simp
    have shorter: "length (drop n R) < length R" using n \<open>n - 1 < length R\<close> by simp
    show ?thesis
      using w' whole True newest less.hyps [OF shorter rest]
      by (subst walk_pages.simps) (simp add: less.prems [symmetric] Let_def)
  qed
qed

section \<open>The invariant of the tables\<close>

definition ids :: "event list \<Rightarrow> string option list" where
  "ids es = map (\<lambda>e. cr_id (ev_row e)) es"

text \<open>Ids are a primary key; sealed rows continue the anchor's chain up to its \<open>head_seq\<close>; a logged head is still there.\<close>

definition head_kept :: "anchor \<Rightarrow> sealed_row list \<Rightarrow> int \<times> bytes \<Rightarrow> bool" where
  "head_kept a rs l \<longleftrightarrow> fst l < an_seq a \<or> (fst l = an_seq a \<and> snd l = an_hash a) \<or> hash_at (fst l) rs = Some (snd l)"

definition chain_inv :: "chain_crypto \<Rightarrow> ustring \<Rightarrow> audit_db \<Rightarrow> bool" where
  "chain_inv cr key db \<longleftrightarrow>
     distinct (ids (db_events db)) \<and> None \<notin> set (ids (db_events db)) \<and>
     (case db_anchor db of
        None \<Rightarrow> sealed_rows db = [] \<and> db_log db = []
      | Some a \<Rightarrow> an_key_id a = chain_key_id cr key \<and> anchor_mac_valid cr key a \<and>
          chained cr key (an_seq a) (an_hash a) (sealed_rows db) \<and>
          fst (tip (an_seq a) (an_hash a) (sealed_rows db)) = an_head_seq a \<and>
          list_all (head_kept a (sealed_rows db)) (db_log db))"

lemma sealed_rows_cong: "map as_sealed (db_events db) = map as_sealed (db_events db') \<Longrightarrow> sealed_rows db = sealed_rows db'"
  by (simp add: sealed_rows_def)

lemma as_sealed_iff: "r \<in> set (as_sealed e) \<longleftrightarrow> ev_seq e = Some (sd_seq r) \<and> sd_hash r = ev_hash e \<and> sd_row r = ev_row e"
  by (auto simp: as_sealed_def split: option.splits)

lemma set_sealed_rows: "r \<in> set (sealed_rows db) \<longleftrightarrow> (\<exists>e \<in> set (db_events db). r \<in> set (as_sealed e))"
  by (simp add: sealed_rows_def)

lemma as_sealed_Nil: "as_sealed e = [] \<longleftrightarrow> ev_seq e = None"
  by (simp add: as_sealed_def split: option.split)

lemma sealed_rows_Nil: "sealed_rows db = [] \<longleftrightarrow> (\<forall>e \<in> set (db_events db). ev_seq e = None)"
proof -
  have "sealed_rows db = [] \<longleftrightarrow> concat (map as_sealed (db_events db)) = []"
    unfolding sealed_rows_def by (metis length_0_conv length_sort)
  then show ?thesis by (simp add: as_sealed_Nil)
qed

lemma distinct_as_sealed: "distinct (ids es) \<Longrightarrow> distinct (concat (map as_sealed es))"
proof (induction es)
  case (Cons e es)
  have "r \<notin> set (as_sealed e')" if "r \<in> set (as_sealed e)" "e' \<in> set es" for r e'
    using Cons.prems that by (auto simp: ids_def as_sealed_iff)
  moreover have "distinct (as_sealed e)" by (simp add: as_sealed_def split: option.split)
  ultimately show ?case using Cons by (auto simp: ids_def)
qed simp

lemma distinct_sealed_rows: "distinct (ids (db_events db)) \<Longrightarrow> distinct (sealed_rows db)"
  by (simp add: sealed_rows_def distinct_as_sealed)

lemma sealed_rows_eqI:
  assumes "distinct (ids (db_events db))" "set (sealed_rows db) = set rs" "sorted_wrt (<) (map sd_seq rs)"
  shows "sealed_rows db = rs"
proof -
  have d: "distinct (map sd_seq rs)" using assms(3) by (simp add: strict_sorted_iff)
  have "mset (concat (map as_sealed (db_events db))) = mset rs"
    using assms distinct_as_sealed [OF assms(1)] d
    by (subst set_eq_iff_mset_eq_distinct [symmetric]) (auto simp: sealed_rows_def distinct_map)
  then have "sealed_rows db = sort_key sd_seq rs"
    unfolding sealed_rows_def using sort_key_same [of rs "concat (map as_sealed (db_events db))" sd_seq] d by simp
  then show ?thesis using assms(3) by (simp add: sorted_sort_id strict_sorted_iff sort_key_id_if_sorted)
qed

subsection \<open>Sealing\<close>

lemma seal_each_chained:
  "seal_each cr key s h rows = Some (seals, s', h') \<Longrightarrow> h = Some hh \<Longrightarrow>
   \<exists>new. chained cr key s hh new \<and> map sd_row new = rows \<and>
     seals = map (\<lambda>r. (the (cr_id (sd_row r)), sd_seq r, the (sd_hash r))) new \<and>
     (\<forall>r \<in> set rows. cr_id r \<noteq> None) \<and> s' = fst (tip s hh new) \<and> h' = Some (snd (tip s hh new))"
proof (induction rows arbitrary: s h hh seals s' h')
  case Nil
  then show ?case by (intro exI [of _ "[]"]) auto
next
  case (Cons r rows)
  obtain i h1 seals1 where i: "cr_id r = Some i" "link cr key hh (s + 1) r = Some h1"
      and rest: "seal_each cr key (s + 1) (Some h1) rows = Some (seals1, s', h')" and seals: "seals = (i, s + 1, h1) # seals1"
    using Cons.prems by (auto split: option.splits)
  obtain new where new: "chained cr key (s + 1) h1 new" "map sd_row new = rows"
      "seals1 = map (\<lambda>r. (the (cr_id (sd_row r)), sd_seq r, the (sd_hash r))) new"
      "\<forall>r \<in> set rows. cr_id r \<noteq> None" "s' = fst (tip (s + 1) h1 new)" "h' = Some (snd (tip (s + 1) h1 new))"
    using Cons.IH [OF rest refl] by blast
  let ?new = "\<lparr>sd_seq = s + 1, sd_hash = Some h1, sd_row = r\<rparr> # new"
  show ?case
    using i new seals by (intro exI [of _ ?new]) (auto simp: expected_link_def)
qed

text \<open>The rows a pass claims are distinct unsealed rows of the table.\<close>

lemma claim_unsealed_rows:
  assumes "distinct (ids (db_events db))"
  shows "distinct (map cr_id (claim_unsealed locked db n)) \<and>
    (\<forall>r \<in> set (claim_unsealed locked db n). \<exists>e \<in> set (db_events db). ev_row e = r \<and> ev_seq e = None)"
proof -
  let ?c = "take n (filter (\<lambda>e. \<not> locked (id_text e))
       (sort_key at_text (sort_key id_text (filter (\<lambda>e. ev_seq e = None) (db_events db)))))"
  have "distinct (map (\<lambda>e. cr_id (ev_row e)) (filter (\<lambda>e. ev_seq e = None) (db_events db)))"
    using assms by (simp add: ids_def distinct_map_filter)
  then have d: "inj_on (\<lambda>e. cr_id (ev_row e)) {e \<in> set (db_events db). ev_seq e = None}"
      and "distinct (filter (\<lambda>e. ev_seq e = None) (db_events db))"
    by (auto simp: distinct_map)
  then have "distinct ?c" by (simp add: distinct_take)
  moreover have sub: "set ?c \<subseteq> {e \<in> set (db_events db). ev_seq e = None}"
    by (auto dest!: in_set_takeD)
  ultimately have "distinct (map (\<lambda>e. cr_id (ev_row e)) ?c)"
    using d by (auto simp: distinct_map intro: inj_on_subset)
  then show ?thesis
    using sub by (auto simp: claim_unsealed_def comp_def)
qed

lemma seal_rows_sealed:
  assumes d: "distinct (ids (db_events db))"
    and new: "distinct (map (\<lambda>r. cr_id (sd_row r)) new)"
      "\<forall>r \<in> set new. cr_id (sd_row r) \<noteq> None \<and> sd_hash r \<noteq> None \<and> (\<exists>e \<in> set (db_events db). ev_row e = sd_row r \<and> ev_seq e = None)"
    and sorted: "sorted_wrt (<) (map sd_seq (sealed_rows db @ new))"
  shows "sealed_rows (seal_rows db (map (\<lambda>r. (the (cr_id (sd_row r)), sd_seq r, the (sd_hash r))) new)) = sealed_rows db @ new"
    (is "sealed_rows ?db = _")
proof (rule sealed_rows_eqI)
  let ?seals = "map (\<lambda>r. (the (cr_id (sd_row r)), sd_seq r, the (sd_hash r))) new"
  have rows: "ev_row (seal_row ?seals e) = ev_row e" for e
    by (simp add: seal_row_def split: option.split prod.split)
  then show "distinct (ids (db_events ?db))"
    using d by (simp add: ids_def seal_rows_def comp_def)
  have dk: "distinct (map fst ?seals)"
  proof -
    have "map Some (map fst ?seals) = map (\<lambda>r. cr_id (sd_row r)) new" using new(2) by (auto simp: comp_def)
    then have "distinct (map Some (map fst ?seals))" using new(1) by (simp only:)
    then show ?thesis unfolding distinct_map [of Some] by blast
  qed
  have hit: "map_of ?seals i = Some (sd_seq r, the (sd_hash r))" if "r \<in> set new" "cr_id (sd_row r) = Some i" for i r
  proof -
    have "(i, sd_seq r, the (sd_hash r)) \<in> set ?seals" using that by (simp add: image_iff) (metis option.sel)
    then show ?thesis using dk by (rule map_of_is_SomeI [rotated])
  qed
  have miss: "map_of ?seals i = None" if "\<forall>r \<in> set new. cr_id (sd_row r) \<noteq> Some i" for i
  proof -
    have "the (cr_id (sd_row r)) \<noteq> i" if "r \<in> set new" for r
      using that new(2) \<open>\<forall>r \<in> set new. cr_id (sd_row r) \<noteq> Some i\<close> by (metis option.collapse)
    then show ?thesis by (auto simp: map_of_eq_None_iff) blast
  qed
  have same: "e = e'" if "e \<in> set (db_events db)" "e' \<in> set (db_events db)" "cr_id (ev_row e) = cr_id (ev_row e')" for e e'
    using d that by (auto simp: ids_def distinct_map inj_on_def)
  show "set (sealed_rows ?db) = set (sealed_rows db @ new)"
  proof (intro subset_antisym subsetI)
    fix x assume "x \<in> set (sealed_rows ?db)"
    then obtain e where e: "e \<in> set (db_events db)" "x \<in> set (as_sealed (seal_row ?seals e))"
      by (auto simp: set_sealed_rows seal_rows_def)
    show "x \<in> set (sealed_rows db @ new)"
    proof (cases "\<exists>r \<in> set new. cr_id (sd_row r) = cr_id (ev_row e)")
      case True
      then obtain r where r: "r \<in> set new" "cr_id (sd_row r) = cr_id (ev_row e)" by blast
      then obtain e' where "e' \<in> set (db_events db)" "ev_row e' = sd_row r" using new(2) by blast
      then have er: "ev_row e = sd_row r" using same e(1) r(2) by metis
      obtain i where i: "cr_id (sd_row r) = Some i" using new(2) r(1) by blast
      have "x = r"
        using e(2) er i hit [OF r(1) i] new(2) r(1) by (auto simp: as_sealed_def seal_row_def)
      then show ?thesis using r by simp
    next
      case False
      then have "seal_row ?seals e = e"
        using miss by (auto simp: seal_row_def split: option.split)
      then show ?thesis using e by (auto simp: set_sealed_rows)
    qed
  next
    fix x assume "x \<in> set (sealed_rows db @ new)"
    then consider "x \<in> set (sealed_rows db)" | "x \<in> set new" by auto
    then show "x \<in> set (sealed_rows ?db)"
    proof cases
      case 1
      then obtain e where e: "e \<in> set (db_events db)" "x \<in> set (as_sealed e)" by (auto simp: set_sealed_rows)
      have "\<forall>r \<in> set new. cr_id (sd_row r) \<noteq> cr_id (ev_row e)"
        using new(2) same e by (metis as_sealed_iff option.distinct(1))
      then have "seal_row ?seals e = e"
        using miss by (auto simp: seal_row_def split: option.split)
      then have "x \<in> set (as_sealed (seal_row ?seals e))" using e(2) by (simp only:)
      then show ?thesis using e(1) by (auto simp: set_sealed_rows seal_rows_def)
    next
      case 2
      then obtain e i where e: "e \<in> set (db_events db)" "ev_row e = sd_row x" and i: "cr_id (sd_row x) = Some i"
        using new(2) by (metis option.exhaust)
      then have "x \<in> set (as_sealed (seal_row ?seals e))"
        using hit [OF 2 i] new(2) 2 by (auto simp: as_sealed_iff seal_row_def)
      then show ?thesis using e by (auto simp: set_sealed_rows seal_rows_def)
    qed
  qed
qed (rule sorted)

lemma anchor_mac_valid_new: "anchor_mac cr key s h head = Some m \<Longrightarrow>
    anchor_mac_valid cr key \<lparr>an_seq = s, an_hash = h, an_key_id = i, an_head_seq = head, an_mac = m\<rparr>"
  by (simp add: anchor_mac_valid_def)

lemma chained_last:
  "chained cr key s h rs \<Longrightarrow> (case (case rev rs of [] \<Rightarrow> None | r # _ \<Rightarrow> Some (sd_seq r, sd_hash r)) of
     Some l \<Rightarrow> l | None \<Rightarrow> (s, Some h)) = (fst (tip s h rs), Some (snd (tip s h rs)))"
proof (induction rs rule: rev_induct)
  case (snoc r rs)
  then have "sd_hash r = Some (the (sd_hash r))" by (intro chained_hash [OF snoc.prems]) simp
  then show ?case by simp
qed simp

lemma hash_at_append: "hash_at s (xs @ ys) = (case hash_at s xs of None \<Rightarrow>
    (if \<exists>r \<in> set xs. sd_seq r = s then None else hash_at s ys) | Some h \<Rightarrow> Some h)"
  by (induction xs) (auto simp: hash_at_Cons split: option.split)

lemma hash_at_append_kept: "hash_at s xs = Some h \<Longrightarrow> hash_at s (xs @ ys) = Some h"
  by (simp add: hash_at_append)

lemma hash_at_tip:
  "chained cr key s h rs \<Longrightarrow> rs \<noteq> [] \<Longrightarrow> hash_at (fst (tip s h rs)) rs = Some (snd (tip s h rs))"
proof (induction rs rule: rev_induct)
  case (snoc r rs)
  have c: "chained cr key s h rs" "sd_seq r = fst (tip s h rs) + 1" "sd_hash r = Some (the (sd_hash r))"
    using snoc.prems(1) by (auto simp: chained_append split: option.splits)
  then have "\<forall>q \<in> set rs. sd_seq q \<noteq> sd_seq r" using chained_bounds [OF c(1)] by force
  then have "hash_at (sd_seq r) rs = None" "\<not> (\<exists>q \<in> set rs. sd_seq q = sd_seq r)"
    by (auto intro: hash_at_None)
  then show ?case using c(3) by (simp add: hash_at_append hash_at_Cons)
qed simp

lemma seal_from_effect:
  assumes inv: "chain_inv cr key db" and a: "db_anchor db = Some a"
    and s: "seal_from cr key locked batch db a = Some (db', result)"
  shows "chain_inv cr key db' \<and> (\<exists>new a'. sealed_rows db' = sealed_rows db @ new \<and>
    map sd_row new = claim_unsealed locked db batch \<and> length (db_events db') = length (db_events db) \<and>
    db_anchor db' = Some a' \<and> an_head_seq a' = an_head_seq a + int (length new))"
proof -
  let ?L = "sealed_rows db"
  have d: "distinct (ids (db_events db))" "None \<notin> set (ids (db_events db))" and key: "an_key_id a = chain_key_id cr key"
      "anchor_mac_valid cr key a" and c: "chained cr key (an_seq a) (an_hash a) ?L"
      and t: "fst (tip (an_seq a) (an_hash a) ?L) = an_head_seq a" and heads: "list_all (head_kept a ?L) (db_log db)"
    using inv a by (simp_all add: chain_inv_def)
  define hh where "hh = snd (tip (an_seq a) (an_hash a) ?L)"
  have prior: "(case chain_head db of Some l \<Rightarrow> l | None \<Rightarrow> (an_seq a, Some (an_hash a))) = (an_head_seq a, Some hh)"
    using chained_last [OF c] t by (simp add: chain_head_def hh_def)
  obtain seals sq h where e: "seal_each cr key (an_head_seq a) (Some hh) (claim_unsealed locked db batch) = Some (seals, sq, h)"
    using s by (auto simp: seal_from_def Let_def prior split: option.splits)
  obtain new where new: "chained cr key (an_head_seq a) hh new" "map sd_row new = claim_unsealed locked db batch"
      "seals = map (\<lambda>r. (the (cr_id (sd_row r)), sd_seq r, the (sd_hash r))) new"
      "\<forall>r \<in> set (claim_unsealed locked db batch). cr_id r \<noteq> None"
      "sq = fst (tip (an_head_seq a) hh new)" "h = Some (snd (tip (an_head_seq a) hh new))"
    using seal_each_chained [OF e refl] by blast
  show ?thesis
  proof (cases "seals = []")
    case True
    then show ?thesis using s e inv a new(2,3) by (auto simp: seal_from_def Let_def prior)
  next
    case False
    have all: "chained cr key (an_seq a) (an_hash a) (?L @ new)"
      using c new(1) t by (simp add: chained_append hh_def)
    have "map (\<lambda>r. cr_id (sd_row r)) new = map cr_id (claim_unsealed locked db batch)"
      by (simp add: new(2) [symmetric] comp_def)
    then have "distinct (map (\<lambda>r. cr_id (sd_row r)) new)"
      using claim_unsealed_rows [OF d(1), of locked batch] by (simp only:)
    moreover have "\<forall>r \<in> set new. cr_id (sd_row r) \<noteq> None \<and> sd_hash r \<noteq> None \<and>
        (\<exists>e \<in> set (db_events db). ev_row e = sd_row r \<and> ev_seq e = None)"
    proof
      fix r assume r: "r \<in> set new"
      then have "sd_row r \<in> set (claim_unsealed locked db batch)" using new(2) [symmetric] by simp
      then show "cr_id (sd_row r) \<noteq> None \<and> sd_hash r \<noteq> None \<and>
          (\<exists>e \<in> set (db_events db). ev_row e = sd_row r \<and> ev_seq e = None)"
        using claim_unsealed_rows [OF d(1), of locked batch] new(4) chained_hash [OF new(1) r] by fastforce
    qed
    ultimately have sealed: "sealed_rows (seal_rows db seals) = ?L @ new"
      unfolding new(3) by (intro seal_rows_sealed [OF d(1)] chained_sorted [OF all])
    have "sq \<ge> an_head_seq a" using chained_tip [OF new(1)] new(5) by simp
    then obtain m where m: "anchor_mac cr key (an_seq a) (an_hash a) sq = Some m"
      and db': "db' = (seal_rows db seals)\<lparr>db_anchor := Some (a\<lparr>an_head_seq := sq, an_mac := m\<rparr>),
                  db_log := db_log db @ [(sq, the h)]\<rparr>"
      using s e False a by (auto simp: seal_from_def Let_def prior set_anchor_head_def seal_rows_def split: option.splits if_splits)
    have rows: "ev_row (seal_row seals e) = ev_row e" for e
      by (simp add: seal_row_def split: option.split prod.split)
    have sealed': "sealed_rows db' = ?L @ new" using sealed by (simp add: db' sealed_rows_def)
    have "new \<noteq> []" using False new(3) by simp
    then have "hash_at sq (?L @ new) = Some (the h)"
      using hash_at_tip [OF all] new(5,6) t by (simp add: hh_def [symmetric])
    then have "list_all (head_kept (a\<lparr>an_head_seq := sq, an_mac := m\<rparr>) (?L @ new)) (db_log db')"
      using heads by (auto simp: db' head_kept_def list_all_iff hash_at_append_kept)
    moreover have "ids (db_events db') = ids (db_events db)"
      by (simp add: db' ids_def seal_rows_def rows)
    moreover have "sq = an_head_seq a + int (length new)" using chained_tip [OF new(1)] new(5) by simp
    moreover have "length (db_events db') = length (db_events db)" by (simp add: db' seal_rows_def)
    ultimately show ?thesis
      using d key all m t new(2,5) sealed' by (simp add: chain_inv_def db' anchor_mac_valid_def hh_def [symmetric])
  qed
qed

lemma seal_from_inv:
  "chain_inv cr key db \<Longrightarrow> db_anchor db = Some a \<Longrightarrow> seal_from cr key locked batch db a = Some (db', result) \<Longrightarrow>
   chain_inv cr key db'"
  using seal_from_effect by blast

lemma seal_pass_inv: "chain_inv cr key db \<Longrightarrow> chain_inv cr key (fst (seal_pass cr key free locked batch db))"
proof -
  assume inv: "chain_inv cr key db"
  have "chain_inv cr key db'" if s: "seal cr key free locked batch db = Some (db', result)" for db' result
  proof (cases "db_anchor db")
    case (Some a)
    then show ?thesis
      using s inv seal_from_inv [OF inv Some] by (auto simp: seal_def split: if_splits)
  next
    case None
    have genesis: "chain_inv cr key db1 \<and> db_anchor db1 = Some a1" if "insert_genesis cr key db = Some (db1, a1)" for db1 a1
      using that inv None
      by (auto simp: insert_genesis_def chain_inv_def Let_def anchor_mac_valid_def sealed_rows_def split: option.splits)
    show ?thesis
      using s inv None genesis seal_from_inv
      by (auto simp: seal_def split: if_splits option.splits prod.splits)
  qed
  then show ?thesis using inv by (auto simp: seal_pass_def split: option.split)
qed

lemma insert_event_inv:
  assumes "chain_inv cr key db" "cr_id r \<notin> insert None (set (ids (db_events db)))"
  shows "chain_inv cr key (insert_event r db)"
proof -
  have "sealed_rows (insert_event r db) = sealed_rows db"
    by (simp add: sealed_rows_def insert_event_def as_sealed_def)
  then show ?thesis using assms by (auto simp: chain_inv_def insert_event_def ids_def split: option.split)
qed

lemma sealed_rows_filter: "sealed_rows (db\<lparr>db_events := filter P (db_events db)\<rparr>) = filter Q (sealed_rows db)"
  if "\<And>e r. e \<in> set (db_events db) \<Longrightarrow> r \<in> set (as_sealed e) \<Longrightarrow> P e = Q r"
proof -
  have "concat (map as_sealed (filter P es)) = filter Q (concat (map as_sealed es))"
    if "\<And>e r. e \<in> set es \<Longrightarrow> r \<in> set (as_sealed e) \<Longrightarrow> P e = Q r" for es
    using that
  proof (induction es)
    case (Cons e es)
    have "filter Q (as_sealed e) = (if P e then as_sealed e else [])"
      using Cons.prems [of e] by (auto simp: filter_id_conv filter_empty_conv as_sealed_def split: option.splits)
    then show ?case using Cons by simp
  qed simp
  then show ?thesis using that by (simp add: sealed_rows_def filter_sort)
qed

lemma delete_unsealed_inv:
  assumes inv: "chain_inv cr key db"
  shows "chain_inv cr key (delete_unsealed_before before limit db)"
proof -
  let ?picked = "take limit (sort_key at_text (sort_key id_text (filter (\<lambda>e. ev_seq e = None \<and> before e) (db_events db))))"
  let ?keep = "\<lambda>e. cr_id (ev_row e) \<notin> (\<lambda>e. cr_id (ev_row e)) ` set ?picked"
  have d: "distinct (ids (db_events db))" using inv by (simp add: chain_inv_def)
  have "?keep e" if "e \<in> set (db_events db)" "ev_seq e \<noteq> None" for e
  proof
    assume "cr_id (ev_row e) \<in> (\<lambda>e. cr_id (ev_row e)) ` set ?picked"
    then obtain e' where "e' \<in> set (db_events db)" "ev_seq e' = None" "cr_id (ev_row e') = cr_id (ev_row e)"
      by (auto dest!: in_set_takeD)
    then show False using d that by (auto simp: ids_def distinct_map inj_on_def)
  qed
  then have "sealed_rows (db\<lparr>db_events := filter ?keep (db_events db)\<rparr>) = filter (\<lambda>_. True) (sealed_rows db)"
    by (intro sealed_rows_filter) (auto simp: as_sealed_iff)
  then show ?thesis
    using inv by (auto simp: delete_unsealed_before_def Let_def chain_inv_def ids_def distinct_map_filter split: option.split)
qed

subsection \<open>Retention\<close>

lemma old_prefix_take: "\<exists>k. fst (old_prefix cr key cutoff s h rs) = take k rs"
proof (induction rs arbitrary: s h)
  case (Cons r rs)
  show ?case
  proof (cases "fst (old_prefix cr key cutoff s h (r # rs)) = []")
    case True
    then show ?thesis by (metis take_0)
  next
    case False
    then obtain h' where "fst (old_prefix cr key cutoff s h (r # rs)) = r # fst (old_prefix cr key cutoff (sd_seq r) h' rs)"
      by (auto split: if_splits option.splits prod.splits) (metis fst_conv)
    then show ?thesis using Cons.IH [of "sd_seq r" h'] by (metis take_Suc_Cons)
  qed
qed simp

lemma takeWhile_take: "\<exists>k. takeWhile P xs = take k xs"
  by (metis takeWhile_eq_take)

lemma delete_sealed_inv:
  assumes inv: "chain_inv cr key db"
  shows "chain_inv cr key (delete_sealed_before cr key free held cutoff limit db)" (is "chain_inv _ _ ?db")
proof (cases "?db = db")
  case True
  then show ?thesis using inv by simp
next
  case False
  let ?L = "sealed_rows db"
  obtain a where a: "db_anchor db = Some a" using False by (cases "db_anchor db") (auto simp: delete_sealed_before_def)
  have d: "distinct (ids (db_events db))" "None \<notin> set (ids (db_events db))" and key: "an_key_id a = chain_key_id cr key"
      "anchor_mac_valid cr key a" and c: "chained cr key (an_seq a) (an_hash a) ?L"
      and t: "fst (tip (an_seq a) (an_hash a) ?L) = an_head_seq a" and heads: "list_all (head_kept a ?L) (db_log db)"
    using inv a by (simp_all add: chain_inv_def)
  have "filter (\<lambda>r. an_seq a < sd_seq r) ?L = ?L"
    using chained_bounds [OF c] by (simp add: filter_id_conv)
  then obtain k where k: "unheld_by_forwarder held
      (fst (old_prefix cr key cutoff (an_seq a) (an_hash a) (sealed_page db (an_seq a) limit))) = take k ?L"
    using old_prefix_take takeWhile_take by (metis sealed_page_def take_take unheld_by_forwarder_def)
  define old where "old = take k ?L"
  obtain newest rest m where newest: "rev old = newest # rest"
      and m: "anchor_mac cr key (sd_seq newest) (the (sd_hash newest)) (an_head_seq a) = Some m"
      and db': "?db = db\<lparr>db_events := filter (\<lambda>e. \<not> (case ev_seq e of None \<Rightarrow> False
                           | Some s \<Rightarrow> an_seq a < s \<and> s \<le> sd_seq newest)) (db_events db),
                        db_anchor := Some (a\<lparr>an_seq := sd_seq newest, an_hash := the (sd_hash newest), an_mac := m\<rparr>)\<rparr>"
    using False a key by (auto simp: delete_sealed_before_def Let_def k old_def split: if_splits list.splits option.splits)
  have old: "old = rev rest @ [newest]" using newest by (metis rev.simps(2) rev_rev_ident)
  have L: "?L = old @ drop k ?L" by (simp add: old_def)
  have c_old: "chained cr key (an_seq a) (an_hash a) old"
      and c_rest: "chained cr key (sd_seq newest) (the (sd_hash newest)) (drop k ?L)"
  proof -
    have "chained cr key (an_seq a) (an_hash a) (old @ drop k ?L)" using c L by simp
    then have "chained cr key (an_seq a) (an_hash a) old \<and>
        chained cr key (fst (tip (an_seq a) (an_hash a) old)) (snd (tip (an_seq a) (an_hash a) old)) (drop k ?L)"
      by (simp only: chained_append)
    moreover have "tip (an_seq a) (an_hash a) old = (sd_seq newest, the (sd_hash newest))"
      by (simp add: old)
    ultimately show "chained cr key (an_seq a) (an_hash a) old"
        "chained cr key (sd_seq newest) (the (sd_hash newest)) (drop k ?L)" by simp_all
  qed
  have up_to: "r \<in> set old \<Longrightarrow> sd_seq r \<le> sd_seq newest" for r
    using chained_bounds [OF c_old] old by simp
  have sealed: "sealed_rows ?db = drop k ?L"
  proof -
    have "sealed_rows ?db = filter (\<lambda>r. \<not> (an_seq a < sd_seq r \<and> sd_seq r \<le> sd_seq newest)) ?L"
      unfolding db' using sealed_rows_filter [of db "\<lambda>e. \<not> (case ev_seq e of None \<Rightarrow> False
           | Some s \<Rightarrow> an_seq a < s \<and> s \<le> sd_seq newest)" "\<lambda>r. \<not> (an_seq a < sd_seq r \<and> sd_seq r \<le> sd_seq newest)"]
      by (simp add: as_sealed_iff sealed_rows_def)
    also have "\<dots> = drop k ?L"
    proof -
      have "filter (\<lambda>r. \<not> (an_seq a < sd_seq r \<and> sd_seq r \<le> sd_seq newest)) old = []"
        using up_to chained_bounds [OF c_old] by (simp add: filter_empty_conv)
      moreover have "filter (\<lambda>r. \<not> (an_seq a < sd_seq r \<and> sd_seq r \<le> sd_seq newest)) (drop k ?L) = drop k ?L"
        using chained_bounds [OF c_rest] by (fastforce simp: filter_id_conv)
      ultimately show ?thesis by (subst L) simp
    qed
    finally show ?thesis .
  qed
  have kept: "head_kept (a\<lparr>an_seq := sd_seq newest, an_hash := the (sd_hash newest), an_mac := m\<rparr>) (drop k ?L) l"
    if "head_kept a ?L l" for l
  proof -
    have less: "an_seq a < sd_seq newest" using chained_bounds [OF c_old, of newest] old by simp
    have "fst l \<le> sd_seq newest \<Longrightarrow> fst l = sd_seq newest \<longrightarrow> hash_at (fst l) ?L = Some (the (sd_hash newest))"
      using hash_at_tip [OF c_old] old hash_at_append_kept [of "sd_seq newest" old _ "drop k ?L"] L by auto
    moreover have "hash_at (fst l) ?L = hash_at (fst l) (drop k ?L)" if "sd_seq newest < fst l"
    proof -
      have n: "\<forall>r \<in> set old. sd_seq r \<noteq> fst l" using up_to that by force
      then show ?thesis by (subst L) (simp add: hash_at_append hash_at_None)
    qed
    ultimately show ?thesis
      using that less unfolding head_kept_def
      by (cases "fst l < sd_seq newest"; cases "fst l = sd_seq newest") auto
  qed
  have "fst (tip (sd_seq newest) (the (sd_hash newest)) (drop k ?L)) = an_head_seq a"
  proof -
    have "tip (an_seq a) (an_hash a) ?L = tip (sd_seq newest) (the (sd_hash newest)) (drop k ?L)"
      by (subst L) (simp add: old)
    then show ?thesis using t by simp
  qed
  then show ?thesis
    using d key m c_rest sealed heads kept
    by (auto simp: chain_inv_def db' ids_def distinct_map_filter anchor_mac_valid_def list_all_iff)
qed

section \<open>Steps\<close>

text \<open>
  What happens to a tenant's tables: an event is recorded, under an id that is not taken; a sealing pass and a
  retention batch run, each finding the chain's lock free or not and some rows locked by others.
\<close>

datatype audit_op =
    Op_insert canonical_row
  | Op_seal bool "string list" nat
  | Op_retain bool "string list" int nat
  | Op_delete_unsealed "string list" nat

fun audit_step :: "chain_crypto \<Rightarrow> ustring \<Rightarrow> audit_db \<Rightarrow> audit_op \<Rightarrow> audit_db" where
  "audit_step cr key db (Op_insert r) =
     (if cr_id r = None \<or> cr_id r \<in> set (ids (db_events db)) then db else insert_event r db)"
| "audit_step cr key db (Op_seal free locked batch) = fst (seal_pass cr key free (\<lambda>i. i \<in> set locked) batch db)"
| "audit_step cr key db (Op_retain free held cutoff limit) =
     delete_sealed_before cr key free (\<lambda>i. i \<in> set held) cutoff limit db"
| "audit_step cr key db (Op_delete_unsealed old limit) =
     delete_unsealed_before (\<lambda>e. id_text e \<in> set old) limit db"

definition empty_db :: audit_db where
  "empty_db = \<lparr>db_events = [], db_anchor = None, db_log = []\<rparr>"

lemma audit_step_inv: "chain_inv cr key db \<Longrightarrow> chain_inv cr key (audit_step cr key db x)"
  by (cases x) (auto simp: seal_pass_inv delete_sealed_inv delete_unsealed_inv insert_event_inv)

lemma empty_db_inv: "chain_inv cr key empty_db"
  by (simp add: empty_db_def chain_inv_def ids_def sealed_rows_def)

interpretation audit: machine "audit_step cr key" "chain_inv cr key" for cr key
  by unfold_locales (rule audit_step_inv)

section \<open>What the walk reports\<close>

lemma walk_chain_chained:
  assumes a: "db_anchor db = Some a" "an_key_id a = chain_key_id cr key" "anchor_mac_valid cr key a"
    and c: "chained cr key (an_seq a) (an_hash a) (sealed_rows db)" and n: "0 < n"
  shows "\<exists>w. walk_chain cr (db_reader db) key head n = Some (walk_end (db_reader db) (Some a) head w) \<and>
    wk_last w = (if sealed_rows db = [] then None else Some (fst (tip (an_seq a) (an_hash a) (sealed_rows db)))) \<and>
    (\<forall>s h. head = Some (s, h) \<longrightarrow> wk_head_hash w = (case hash_at s (sealed_rows db) of Some x \<Rightarrow> Some x
       | None \<Rightarrow> if s = an_seq a then Some (an_hash a) else None)) \<and> wk_checked w = length (sealed_rows db)"
proof -
  let ?L = "sealed_rows db"
  define w0 where "w0 = \<lparr>wk_seq = an_seq a, wk_hash = an_hash a, wk_checked = 0, wk_first = None, wk_last = None,
    wk_head_hash = (if map_option fst head = Some (an_seq a) then Some (an_hash a) else None)\<rparr>"
  obtain w where w: "walk_rows cr key (map_option fst head) w0 ?L = (w, None)"
     "wk_last w = (if ?L = [] then wk_last w0 else Some (fst (tip (wk_seq w0) (wk_hash w0) ?L)))"
     "wk_head_hash w = (case map_option fst head of None \<Rightarrow> wk_head_hash w0
       | Some s \<Rightarrow> (case hash_at s ?L of None \<Rightarrow> wk_head_hash w0 | Some h \<Rightarrow> Some h))"
     "wk_checked w = wk_checked w0 + length ?L"
    using walk_rows_chained [of cr key w0 ?L "map_option fst head"] c by (auto simp: w0_def)
  have "0 \<le> an_seq a" using a(3) by (auto simp: anchor_mac_valid_def anchor_mac_def split: option.splits if_splits)
  then have all: "?L = filter (\<lambda>r. BEFORE_ALL < sd_seq r) ?L"
    using chained_bounds [OF c] by (intro filter_id_conv [THEN iffD2, symmetric]) (force simp: BEFORE_ALL_def)
  have page: "rd_page (db_reader db) = (\<lambda>after n. take n (filter (\<lambda>r. after < sd_seq r) ?L))"
    by (simp add: db_reader_def sealed_page_def fun_eq_iff)
  have "walk_pages cr key (map_option fst head) (rd_page (db_reader db)) n BEFORE_ALL w0 = Some (w, None)"
    unfolding page using walk_pages_all [OF chained_sorted [OF c] n all] w(1) by simp
  then have "walk_chain cr (db_reader db) key head n = Some (walk_end (db_reader db) (Some a) head w)"
    using a by (simp add: walk_chain_def Let_def w0_def db_reader_def)
  then show ?thesis using w by (intro exI [of _ w]) (auto simp: w0_def split: option.split)
qed

lemma intact_walk_end:
  "intact (Some (walk_end rd (Some a) head w)) \<longleftrightarrow>
     an_head_seq a \<le> (case wk_last w of Some l \<Rightarrow> l | None \<Rightarrow> an_seq a) \<and>
     (\<forall>s h. head = Some (s, h) \<longrightarrow> s < an_seq a \<or> (\<exists>x. wk_head_hash w = Some x \<and> hex_of x = h))"
  by (auto simp: walk_end_def Let_def intact_def summary_of_def split: option.splits prod.splits if_splits)

lemma walk_of_inv:
  assumes inv: "chain_inv cr key db" and n: "0 < n"
  shows "intact (walk_chain cr (db_reader db) key None n) \<and>
    (\<forall>l \<in> set (db_log db). intact (walk_chain cr (db_reader db) key (Some (fst l, hex_of (snd l))) n))"
proof (cases "db_anchor db")
  case None
  then show ?thesis using inv
    by (auto simp: chain_inv_def walk_chain_def db_reader_def sealed_page_def Let_def walk_end_def intact_def summary_of_def)
next
  case (Some a)
  let ?L = "sealed_rows db"
  have c: "an_key_id a = chain_key_id cr key" "anchor_mac_valid cr key a" "chained cr key (an_seq a) (an_hash a) ?L"
      and t: "fst (tip (an_seq a) (an_hash a) ?L) = an_head_seq a" and heads: "list_all (head_kept a ?L) (db_log db)"
    using inv Some by (simp_all add: chain_inv_def)
  have top: "an_head_seq a \<le> (case (if ?L = [] then None else Some (fst (tip (an_seq a) (an_hash a) ?L))) of
      Some l \<Rightarrow> l | None \<Rightarrow> an_seq a)"
    using t by (cases ?L) simp_all
  have bare: "intact (walk_chain cr (db_reader db) key None n)"
    using walk_chain_chained [OF Some c n, of None] top by (auto simp: intact_walk_end)
  have "intact (walk_chain cr (db_reader db) key (Some (fst l, hex_of (snd l))) n)" if l: "l \<in> set (db_log db)" for l
  proof -
    obtain w where w: "walk_chain cr (db_reader db) key (Some (fst l, hex_of (snd l))) n =
         Some (walk_end (db_reader db) (Some a) (Some (fst l, hex_of (snd l))) w)"
      and last: "wk_last w = (if ?L = [] then None else Some (fst (tip (an_seq a) (an_hash a) ?L)))"
      and hh: "wk_head_hash w = (case hash_at (fst l) ?L of Some x \<Rightarrow> Some x
         | None \<Rightarrow> if fst l = an_seq a then Some (an_hash a) else None)"
      using walk_chain_chained [OF Some c n, of "Some (fst l, hex_of (snd l))"] by auto
    have "hash_at (an_seq a) ?L = None" using chained_bounds [OF c(3)] by (intro hash_at_None) force
    then have "fst l < an_seq a \<or> wk_head_hash w = Some (snd l)"
      using heads l hh by (auto simp: list_all_iff head_kept_def)
    then show ?thesis using w last top by (auto simp: intact_walk_end)
  qed
  then show ?thesis using bare by blast
qed

text \<open>C9: However events are recorded, sealed and deleted by retention, in any order, in batches of any size, with the lock
  taken or free, rows locked and clocks wrong, verify reports the chain intact, at every page size; and every head
  the sealer ever logged is still accepted by \<^verbatim>\<open>--head\<close>.\<close>

theorem chain_always_verifies:
  assumes "0 < n"
  shows "let db = run (audit_step cr key) empty_db ops in
    intact (walk_chain cr (db_reader db) key None n) \<and>
    (\<forall>l \<in> set (db_log db). intact (walk_chain cr (db_reader db) key (Some (fst l, hex_of (snd l))) n))"
  unfolding Let_def by (rule walk_of_inv [OF audit.inv_run [OF empty_db_inv] assms])

section \<open>A head pins the rows before it\<close>

lemma hex_digit_inject: "m < 16 \<Longrightarrow> n < 16 \<Longrightarrow> hex_digit m = hex_digit n \<Longrightarrow> m = n"
proof -
  assume "m < 16" "n < 16" "hex_digit m = hex_digit n"
  moreover have "of_char (hex_digit k) = (if k < 10 then 48 + k else 87 + k)" if "k < 16" for k :: nat
    using that by (simp add: hex_digit_def)
  ultimately have "(if m < 10 then 48 + m else 87 + m) = (if n < 10 then 48 + n else 87 + n)" by metis
  then show "m = n" using \<open>m < 16\<close> \<open>n < 16\<close> by (simp split: if_splits)
qed

lemma hex_byte_inject: "hex_byte (unat a) = hex_byte (unat b) \<Longrightarrow> (a :: byte) = b"
proof -
  assume h: "hex_byte (unat a) = hex_byte (unat b)"
  have "unat a div 16 < 16" "unat b div 16 < 16" using unat_byte_lt [of a] unat_byte_lt [of b] by linarith+
  then have "unat a div 16 = unat b div 16" "unat a mod 16 = unat b mod 16"
    using h by (auto simp: hex_byte_def intro: hex_digit_inject)
  then have "unat a = unat b" by (metis div_mult_mod_eq)
  then show "a = b" by (metis byte_of_unat)
qed

lemma hex_of_inject: "hex_of a = hex_of b \<Longrightarrow> a = b"
proof (induction a arbitrary: b)
  case Nil
  then show ?case by (cases b) (auto simp: hex_of_def hex_byte_def)
next
  case (Cons x a)
  then obtain y c where b: "b = y # c" by (cases b) (auto simp: hex_of_def hex_byte_def)
  then have "hex_byte (unat x) = hex_byte (unat y)" "hex_of a = hex_of c"
    using Cons.prems by (auto simp: hex_of_def hex_byte_def)
  then show ?case using Cons.IH hex_byte_inject b by blast
qed

text \<open>The messages whose MACs are the links of a chain.\<close>

fun link_messages :: "bytes \<Rightarrow> sealed_row list \<Rightarrow> bytes list" where
  "link_messages h [] = []"
| "link_messages h (r # rs) = link_message h (sd_seq r) (sd_row r) # link_messages (the (sd_hash r)) rs"

lemma link_messages_append:
  "link_messages h (xs @ ys) = link_messages h xs @ link_messages (snd (tip s h xs)) ys"
proof (induction xs arbitrary: s h)
  case (Cons r xs)
  then show ?case using Cons.IH [of "the (sd_hash r)" "sd_seq r"] by simp
qed simp

lemma expected_link_Some:
  "expected_link cr key h r = Some x \<Longrightarrow> length h = 32 \<and> 1 \<le> sd_seq r \<and> sd_seq r \<le> MAX_SEQ \<and>
     x = hmac256 cr (utf8 key) (link_message h (sd_seq r) (sd_row r))"
  by (auto simp: expected_link_def link_def HASH_BYTES_def split: if_splits)

lemma link_message_inject:
  assumes "link_message h s r = link_message h' s' r'" "length h = 32" "length h' = 32" "row_ok r" "row_ok r'"
  shows "h = h' \<and> r = r'"
  using assms by (auto simp: link_message_def intro: canonical_bytes_inject)

lemma chains_agree:
  assumes "chained cr key s h xs" "chained cr key s' h' xs'" "fst (tip s h xs) = fst (tip s' h' xs')"
    "snd (tip s h xs) = snd (tip s' h' xs')" "s' \<le> s" "\<forall>r \<in> set xs \<union> set xs'. row_ok (sd_row r)"
    "inj_on (hmac256 cr (utf8 key)) (set (link_messages h xs) \<union> set (link_messages h' xs'))"
  shows "\<exists>zs. xs' = zs @ xs"
  using assms
proof (induction xs arbitrary: xs' rule: rev_induct)
  case (snoc r xs)
  have len: "s + 1 + int (length xs) = s' + int (length xs')"
    using chained_tip [OF snoc.prems(1)] chained_tip [OF snoc.prems(2)] snoc.prems(3) by simp
  then have "xs' \<noteq> []" using snoc.prems(5) by auto
  then obtain q ys where xs': "xs' = ys @ [q]" by (metis append_butlast_last_id)
  let ?t = "tip s h xs" and ?u = "tip s' h' ys"
  have c: "chained cr key s h xs" "chained cr key s' h' ys"
      and rq: "expected_link cr key (snd ?t) r = sd_hash r" "expected_link cr key (snd ?u) q = sd_hash q"
        "sd_hash r = Some (the (sd_hash r))" "sd_hash q = Some (the (sd_hash q))"
        "sd_seq r = fst ?t + 1" "sd_seq q = fst ?u + 1"
    using snoc.prems(1,2) by (auto simp: xs' chained_append split: option.splits)
  have same: "sd_seq r = sd_seq q" "the (sd_hash r) = the (sd_hash q)"
    using snoc.prems(3,4) by (simp_all add: xs')
  have m: "link_messages h (xs @ [r]) = link_messages h xs @ [link_message (snd ?t) (sd_seq r) (sd_row r)]"
    by (simp add: link_messages_append [where s = s])
  have m': "link_messages h' xs' = link_messages h' ys @ [link_message (snd ?u) (sd_seq q) (sd_row q)]"
    by (simp add: xs' link_messages_append [where s = s'])
  note l = expected_link_Some [of cr key "snd ?t" r "the (sd_hash r)"] expected_link_Some [of cr key "snd ?u" q "the (sd_hash q)"]
  have "link_message (snd ?t) (sd_seq r) (sd_row r) = link_message (snd ?u) (sd_seq q) (sd_row q)"
  proof (rule inj_onD [OF snoc.prems(7)])
    show "hmac256 cr (utf8 key) (link_message (snd ?t) (sd_seq r) (sd_row r)) =
        hmac256 cr (utf8 key) (link_message (snd ?u) (sd_seq q) (sd_row q))"
      using l rq same(2) by simp
  qed (simp_all add: m m')
  moreover have "length (snd ?t) = 32" "length (snd ?u) = 32" using l rq by simp_all
  moreover have "row_ok (sd_row r)" "row_ok (sd_row q)" using snoc.prems(6) by (simp_all add: xs')
  ultimately have "snd ?t = snd ?u \<and> sd_row r = sd_row q" by (rule link_message_inject)
  then have eq: "snd ?t = snd ?u" "sd_row r = sd_row q" by simp_all
  have "sd_hash r = sd_hash q" using rq(3,4) same(2) by metis
  then have "r = q" using same(1) eq(2) by (cases r; cases q) simp
  moreover have "\<exists>zs. ys = zs @ xs"
  proof (rule snoc.IH [OF c])
    show "fst ?t = fst ?u" using rq(5,6) same(1) by simp
    show "inj_on (hmac256 cr (utf8 key)) (set (link_messages h xs) \<union> set (link_messages h' ys))"
      using snoc.prems(7) by (rule inj_on_subset) (auto simp: m m')
  qed (use snoc.prems(5,6) eq in \<open>auto simp: xs'\<close>)
  ultimately show ?case by (auto simp: xs')
qed simp

text \<open>What an intact walk with a head says of tables that may have been changed by anyone.\<close>

definition one_row_per_seq :: "audit_db \<Rightarrow> bool" where
  "one_row_per_seq db \<longleftrightarrow> distinct (map sd_seq (sealed_rows db))"

definition rows_to :: "int \<Rightarrow> audit_db \<Rightarrow> sealed_row list" where
  "rows_to s db = filter (\<lambda>r. sd_seq r \<le> s) (sealed_rows db)"

lemma intact_chained:
  assumes u: "one_row_per_seq db" and a: "db_anchor db = Some a" and low: "\<forall>r \<in> set (sealed_rows db). BEFORE_ALL < sd_seq r"
    and i: "intact (walk_chain cr (db_reader db) key head n)" and n: "0 < n"
  shows "an_key_id a = chain_key_id cr key \<and> anchor_mac_valid cr key a \<and> chained cr key (an_seq a) (an_hash a) (sealed_rows db)"
proof -
  let ?L = "sealed_rows db"
  have k: "an_key_id a = chain_key_id cr key" "anchor_mac_valid cr key a"
    using i a by (auto simp: walk_chain_def db_reader_def Let_def intact_def summary_of_def split: if_splits)
  have "sorted (map sd_seq ?L)" by (simp add: sealed_rows_def)
  then have sorted: "sorted_wrt (<) (map sd_seq ?L)" using u by (simp add: one_row_per_seq_def strict_sorted_iff)
  have all: "?L = filter (\<lambda>r. BEFORE_ALL < sd_seq r) ?L" using low by (intro filter_id_conv [THEN iffD2, symmetric])
  define w0 where "w0 = \<lparr>wk_seq = an_seq a, wk_hash = an_hash a, wk_checked = 0, wk_first = None, wk_last = None,
    wk_head_hash = (if map_option fst head = Some (an_seq a) then Some (an_hash a) else None)\<rparr>"
  have page: "rd_page (db_reader db) = (\<lambda>after n. take n (filter (\<lambda>r. after < sd_seq r) ?L))"
    by (simp add: db_reader_def sealed_page_def fun_eq_iff)
  have w: "walk_pages cr key (map_option fst head) (rd_page (db_reader db)) n BEFORE_ALL w0 =
      Some (walk_rows cr key (map_option fst head) w0 ?L)"
    unfolding page by (rule walk_pages_all [OF sorted n all])
  obtain w1 where "walk_rows cr key (map_option fst head) w0 ?L = (w1, None)"
  proof (cases "walk_rows cr key (map_option fst head) w0 ?L")
    case (Pair w1 b)
    then show ?thesis using i a k w that
      by (cases b) (auto simp: walk_chain_def Let_def w0_def db_reader_def intact_def summary_of_def)
  qed
  from walk_rows_None [OF this] show ?thesis using k by (simp add: w0_def)
qed

lemma rows_to_tip:
  assumes "chained cr key a h L" "a \<le> s" "hash_at s L = Some x \<or> hash_at s L = None \<and> s = a \<and> x = h"
  shows "chained cr key a h (filter (\<lambda>r. sd_seq r \<le> s) L) \<and> tip a h (filter (\<lambda>r. sd_seq r \<le> s) L) = (s, x)"
  using assms
proof (induction L arbitrary: a h)
  case (Cons r L)
  obtain h1 where r: "sd_seq r = a + 1" "sd_hash r = Some h1" "expected_link cr key h r = Some h1"
      and c: "chained cr key (a + 1) h1 L"
    using Cons.prems(1) by (auto split: option.splits)
  have above: "\<forall>q \<in> set L. a + 1 < sd_seq q" using chained_bounds [OF c] by blast
  show ?case
  proof (cases "s = a")
    case True
    have "hash_at s (r # L) = None" using above r(1) True by (intro hash_at_None) auto
    moreover have "filter (\<lambda>r. sd_seq r \<le> s) (r # L) = []" using above r(1) True by (auto simp: filter_empty_conv)
    ultimately show ?thesis using Cons.prems(3) by auto
  next
    case False
    then have s: "a + 1 \<le> s" using Cons.prems(2) by simp
    have "hash_at (a + 1) L = None" using above by (intro hash_at_None) auto
    then have "hash_at s L = Some x \<or> hash_at s L = None \<and> s = a + 1 \<and> x = h1"
      using Cons.prems(3) r False by (auto simp: hash_at_Cons split: if_splits)
    from Cons.IH [OF c s this] show ?thesis using r s by simp
  qed
qed simp

text \<open>A table verify can read: one row per number (a unique index), numbers of the column's type, texts that are text.\<close>

definition readable :: "audit_db \<Rightarrow> bool" where
  "readable db \<longleftrightarrow> one_row_per_seq db \<and> list_all (\<lambda>r. BEFORE_ALL < sd_seq r \<and> row_ok (sd_row r)) (sealed_rows db)"

lemma intact_head_tip:
  assumes r: "readable db" and a: "db_anchor db = Some a" and s: "an_seq a \<le> s"
    and i: "intact (walk_chain cr (db_reader db) key (Some (s, t)) n)" and n: "0 < n"
  shows "chained cr key (an_seq a) (an_hash a) (rows_to s db) \<and>
    (\<exists>x. hex_of x = t \<and> tip (an_seq a) (an_hash a) (rows_to s db) = (s, x))"
proof -
  let ?L = "sealed_rows db"
  have k: "an_key_id a = chain_key_id cr key" "anchor_mac_valid cr key a" "chained cr key (an_seq a) (an_hash a) ?L"
    using intact_chained [OF _ a _ i n] r by (auto simp: readable_def list_all_iff)
  obtain w where w: "walk_chain cr (db_reader db) key (Some (s, t)) n = Some (walk_end (db_reader db) (Some a) (Some (s, t)) w)"
    and hh: "wk_head_hash w = (case hash_at s ?L of Some x \<Rightarrow> Some x | None \<Rightarrow> if s = an_seq a then Some (an_hash a) else None)"
    using walk_chain_chained [OF a k n, of "Some (s, t)"] by auto
  obtain x where x: "wk_head_hash w = Some x" "hex_of x = t"
    using i w s by (auto simp: intact_walk_end)
  then have "hash_at s ?L = Some x \<or> hash_at s ?L = None \<and> s = an_seq a \<and> x = an_hash a"
    using hh by (auto split: option.splits if_splits)
  from rows_to_tip [OF k(3) s this] show ?thesis using x(2) by (auto simp: rows_to_def)
qed


section \<open>A backlog is sealed\<close>

lemma link_total:
  assumes "\<forall>k m. length (hmac256 cr k m) = 32" "length h = 32" "1 \<le> s" "s \<le> MAX_SEQ"
  shows "\<exists>x. link cr key h s r = Some x \<and> length x = 32"
  using assms by (simp add: link_def HASH_BYTES_def)

lemma seal_each_total:
  assumes mac: "\<forall>k m. length (hmac256 cr k m) = 32"
  shows "length h = 32 \<Longrightarrow> 0 \<le> s \<Longrightarrow> s + int (length rows) \<le> MAX_SEQ \<Longrightarrow> \<forall>r \<in> set rows. cr_id r \<noteq> None \<Longrightarrow>
    \<exists>seals s' h'. seal_each cr key s (Some h) rows = Some (seals, s', h') \<and> length seals = length rows"
proof (induction rows arbitrary: s h)
  case (Cons r rows)
  obtain x where x: "link cr key h (s + 1) r = Some x" "length x = 32"
    using link_total [OF mac, of h "s + 1" key r] Cons.prems by auto
  obtain i where "cr_id r = Some i" using Cons.prems(4) by auto
  moreover obtain seals s' h' where "seal_each cr key (s + 1) (Some x) rows = Some (seals, s', h')" "length seals = length rows"
    using Cons.IH [OF x(2), of "s + 1"] Cons.prems by auto
  ultimately show ?case using x by simp
qed simp

lemma sealed_or_unsealed: "length (sealed_rows db) + count_unsealed db = length (db_events db)"
proof -
  have "length (concat (map as_sealed es)) + length (filter (\<lambda>e. ev_seq e = None) es) = length es" for es
    by (induction es) (auto simp: as_sealed_def split: option.split)
  then show ?thesis by (simp add: sealed_rows_def count_unsealed_def)
qed

lemma length_claim: "length (claim_unsealed (\<lambda>_. False) db n) = min n (count_unsealed db)"
  by (simp add: claim_unsealed_def count_unsealed_def)

definition head_seq :: "audit_db \<Rightarrow> int" where
  "head_seq db = (case db_anchor db of None \<Rightarrow> 0 | Some a \<Rightarrow> an_head_seq a)"

definition sealing_pass :: "chain_crypto \<Rightarrow> ustring \<Rightarrow> nat \<Rightarrow> audit_db \<Rightarrow> audit_db" where
  "sealing_pass cr key batch db = fst (seal_pass cr key True (\<lambda>_. False) batch db)"

lemma tip_length:
  assumes mac: "\<forall>k m. length (hmac256 cr k m) = 32"
  shows "chained cr key s h xs \<Longrightarrow> length h = 32 \<Longrightarrow> length (snd (tip s h xs)) = 32"
proof (induction xs arbitrary: s h)
  case (Cons r xs)
  then show ?case using mac by (auto simp: expected_link_def link_def split: option.splits if_splits)
qed simp

lemma seal_from_total:
  assumes mac: "\<forall>k m. length (hmac256 cr k m) = 32" and inv: "chain_inv cr key db" and a: "db_anchor db = Some a"
    and room: "an_head_seq a + int (count_unsealed db) \<le> MAX_SEQ"
  shows "\<exists>r. seal_from cr key (\<lambda>_. False) batch db a = Some r"
proof -
  let ?L = "sealed_rows db" let ?rows = "claim_unsealed (\<lambda>_. False) db batch"
  have c: "chained cr key (an_seq a) (an_hash a) ?L" and t: "fst (tip (an_seq a) (an_hash a) ?L) = an_head_seq a"
      and valid: "anchor_mac_valid cr key a" and d: "distinct (ids (db_events db))" "None \<notin> set (ids (db_events db))"
    using inv a by (simp_all add: chain_inv_def)
  have a0: "0 \<le> an_seq a" "length (an_hash a) = 32" "an_seq a \<le> MAX_SEQ"
    using valid by (auto simp: anchor_mac_valid_def anchor_mac_def HASH_BYTES_def split: option.splits if_splits)
  define hh where "hh = snd (tip (an_seq a) (an_hash a) ?L)"
  have prior: "(case chain_head db of Some l \<Rightarrow> l | None \<Rightarrow> (an_seq a, Some (an_hash a))) = (an_head_seq a, Some hh)"
    using chained_last [OF c] t by (simp add: chain_head_def hh_def)
  have len: "length hh = 32"
    unfolding hh_def by (rule tip_length [OF mac c a0(2)])
  have rows: "\<forall>r \<in> set ?rows. cr_id r \<noteq> None"
  proof
    fix r assume "r \<in> set ?rows"
    then obtain e where "e \<in> set (db_events db)" "ev_row e = r"
      using claim_unsealed_rows [OF d(1), of "\<lambda>_. False" batch] by blast
    then have "cr_id r \<in> set (ids (db_events db))" by (auto simp: ids_def)
    then show "cr_id r \<noteq> None" using d(2) by metis
  qed
  have "0 \<le> an_head_seq a" using chained_tip [OF c] t a0(1) by simp
  moreover have "an_head_seq a + int (length ?rows) \<le> MAX_SEQ" using room by (simp add: length_claim)
  ultimately obtain seals sq h where e: "seal_each cr key (an_head_seq a) (Some hh) ?rows = Some (seals, sq, h)"
    using seal_each_total [OF mac len _ _ rows] by blast
  obtain new where "sq = fst (tip (an_head_seq a) hh new)" "chained cr key (an_head_seq a) hh new" "map sd_row new = ?rows"
    using seal_each_chained [OF e refl] by blast
  then have sq: "sq = an_head_seq a + int (length ?rows)" using chained_tip by (metis length_map)
  then have "\<exists>m. anchor_mac cr key (an_seq a) (an_hash a) (if sq > an_head_seq a then sq else an_head_seq a) = Some m"
    using a0 \<open>0 \<le> an_head_seq a\<close> \<open>an_head_seq a + int (length ?rows) \<le> MAX_SEQ\<close>
    by (auto simp: anchor_mac_def HASH_BYTES_def)
  then show ?thesis using e prior by (auto simp: seal_from_def Let_def set_anchor_head_def)
qed

lemma sealing_pass_progress:
  assumes mac: "\<forall>k m. length (hmac256 cr k m) = 32" and inv: "chain_inv cr key db"
    and room: "head_seq db + int (count_unsealed db) \<le> MAX_SEQ"
  shows "count_unsealed (sealing_pass cr key batch db) = count_unsealed db - min batch (count_unsealed db) \<and>
    head_seq (sealing_pass cr key batch db) + int (count_unsealed (sealing_pass cr key batch db)) \<le> MAX_SEQ"
proof -
  have from_anchor: "count_unsealed db2 = count_unsealed db1 - min batch (count_unsealed db1) \<and>
      head_seq db2 + int (count_unsealed db2) \<le> MAX_SEQ"
    if "chain_inv cr key db1" "db_anchor db1 = Some a" "an_head_seq a + int (count_unsealed db1) \<le> MAX_SEQ"
      "seal_from cr key (\<lambda>_. False) batch db1 a = Some (db2, r)" for db1 db2 a r
  proof -
    note h = that
    obtain new a' where n: "sealed_rows db2 = sealed_rows db1 @ new" "map sd_row new = claim_unsealed (\<lambda>_. False) db1 batch"
        "length (db_events db2) = length (db_events db1)" "db_anchor db2 = Some a'"
        "an_head_seq a' = an_head_seq a + int (length new)"
      using seal_from_effect [OF h(1,2,4)] by blast
    have "length new = min batch (count_unsealed db1)" using n(2) length_claim by (metis length_map)
    moreover have "count_unsealed db2 + length new = count_unsealed db1"
      using sealed_or_unsealed [of db1] sealed_or_unsealed [of db2] n(1,3) by simp
    ultimately show ?thesis using n(4,5) h(3) by (simp add: head_seq_def)
  qed
  show ?thesis
  proof (cases "db_anchor db")
    case (Some a)
    then have k: "an_key_id a = chain_key_id cr key" "anchor_mac_valid cr key a" using inv by (simp_all add: chain_inv_def)
    have rm: "an_head_seq a + int (count_unsealed db) \<le> MAX_SEQ" using room Some by (simp add: head_seq_def)
    obtain db2 r where s: "seal_from cr key (\<lambda>_. False) batch db a = Some (db2, r)"
      using seal_from_total [OF mac inv Some rm] by (metis surj_pair)
    then have done_1: "sealing_pass cr key batch db = db2"
      using k Some by (simp add: sealing_pass_def seal_pass_def seal_def)
    show ?thesis unfolding done_1 by (rule from_anchor [OF inv Some rm s])
  next
    case None
    let ?g = "genesis_hash cr key"
    have "length ?g = 32" using mac by (simp add: genesis_hash_def)
    then obtain m where m: "anchor_mac cr key 0 ?g 0 = Some m" by (simp add: anchor_mac_def HASH_BYTES_def MAX_SEQ_def)
    define a where "a = \<lparr>an_seq = 0, an_hash = ?g, an_key_id = chain_key_id cr key, an_head_seq = 0, an_mac = m\<rparr>"
    have g: "insert_genesis cr key db = Some (db\<lparr>db_anchor := Some a\<rparr>, a)"
      using m None by (simp add: insert_genesis_def a_def Let_def)
    have valid: "anchor_mac_valid cr key a" using m by (simp add: anchor_mac_valid_def a_def)
    have sealed: "sealed_rows (db\<lparr>db_anchor := x\<rparr>) = sealed_rows db" "count_unsealed (db\<lparr>db_anchor := x\<rparr>) = count_unsealed db" for x
      by (simp_all add: sealed_rows_def count_unsealed_def)
    have inv1: "chain_inv cr key (db\<lparr>db_anchor := Some a\<rparr>)"
      using inv None valid by (auto simp: chain_inv_def sealed) (simp_all add: a_def)
    have rm: "an_head_seq a + int (count_unsealed (db\<lparr>db_anchor := Some a\<rparr>)) \<le> MAX_SEQ"
      using room None by (simp add: head_seq_def a_def sealed)
    obtain db2 r where s: "seal_from cr key (\<lambda>_. False) batch (db\<lparr>db_anchor := Some a\<rparr>) a = Some (db2, r)"
      using seal_from_total [OF mac inv1 _ rm] by (metis audit_db.select_convs(2) audit_db.surjective audit_db.update_convs(2) surj_pair)
    have "chain_head db = None" using inv None by (simp add: chain_inv_def chain_head_def)
    then have done_1: "sealing_pass cr key batch db = db2"
      using s g valid None by (simp add: sealing_pass_def seal_pass_def seal_def) (simp add: a_def)
    show ?thesis unfolding done_1 by (rule from_anchor [OF inv1 _ rm s, unfolded sealed]) simp
  qed
qed

lemma sealing_pass_inv: "chain_inv cr key db \<Longrightarrow> chain_inv cr key (sealing_pass cr key batch db)"
  by (simp add: sealing_pass_def seal_pass_inv)

text \<open>C29: A backlog is always sealed: from any state the server reaches, and with room for the numbers, as many passes as
  there are unsealed rows, each of a batch of at least one and finding lock and rows free, leave no row unsealed.\<close>

theorem backlog_is_sealed:
  assumes mac: "\<forall>k m. length (hmac256 cr k m) = 32"
    and reached: "db = run (audit_step cr key) empty_db ops"
    and room: "head_seq db + int (count_unsealed db) \<le> MAX_SEQ" and batch: "0 < batch"
  shows "count_unsealed ((sealing_pass cr key batch ^^ count_unsealed db) db) = 0"
proof -
  have "count_unsealed ((sealing_pass cr key batch ^^ n) db) = 0"
    if "chain_inv cr key db" "head_seq db + int (count_unsealed db) \<le> MAX_SEQ" "count_unsealed db \<le> n" for n db
    using that
  proof (induction n arbitrary: db)
    case (Suc n)
    note p = sealing_pass_progress [OF mac Suc.prems(1,2), of batch]
    have "count_unsealed (sealing_pass cr key batch db) \<le> n" using p Suc.prems(3) batch by auto
    then show ?case
      using Suc.IH [OF sealing_pass_inv [OF Suc.prems(1), of batch] conjunct2 [OF p]]
      by (simp add: funpow_Suc_right del: funpow.simps)
  qed simp
  then show ?thesis using audit.inv_run [OF empty_db_inv] reached room by auto
qed

section \<open>The properties at work\<close>

definition toy_chain :: chain_crypto where
  "toy_chain = \<lparr>hash256 = (\<lambda>m. replicate 32 0), hmac256 = (\<lambda>k m. replicate 32 0)\<rparr>"

definition sample_row :: canonical_row where
  "sample_row = \<lparr>cr_id = Some ''1'', cr_at = Some ''2026-01-01T00:00:00.000000Z'', cr_actor_kind = None,
     cr_actor_user_id = None, cr_actor_email = None, cr_actor_token_id = None, cr_actor_workspace_id = None,
     cr_action = None, cr_target_kind = None, cr_target_id = None, cr_workspace_id = None, cr_team_id = None,
     cr_ip = None, cr_user_agent = None, cr_details = None\<rparr>"

definition sample_ops :: "audit_op list" where
  "sample_ops = [Op_insert sample_row, Op_seal True [] 10]"

definition sample_db :: audit_db where
  "sample_db = run (audit_step toy_chain []) empty_db sample_ops"

definition zero_hash :: bytes where
  "zero_hash = replicate 32 0"

lemma toy_mac: "hmac256 toy_chain k m = zero_hash" "length zero_hash = 32"
  by (simp_all add: toy_chain_def zero_hash_def)

lemma toy_link: "1 \<le> s \<Longrightarrow> s \<le> MAX_SEQ \<Longrightarrow> link toy_chain k zero_hash s r = Some zero_hash"
  by (simp add: link_def HASH_BYTES_def toy_mac)

lemma toy_anchor_mac: "0 \<le> s \<Longrightarrow> s \<le> MAX_SEQ \<Longrightarrow> 0 \<le> t \<Longrightarrow> t \<le> MAX_SEQ \<Longrightarrow> anchor_mac toy_chain k s zero_hash t = Some zero_hash"
  by (simp add: anchor_mac_def HASH_BYTES_def toy_mac)

lemma sample_db_value:
  "sample_db = \<lparr>db_events = [\<lparr>ev_row = sample_row, ev_seq = Some 1, ev_hash = Some zero_hash\<rparr>],
     db_anchor = Some \<lparr>an_seq = 0, an_hash = zero_hash, an_key_id = chain_key_id toy_chain [], an_head_seq = 1, an_mac = zero_hash\<rparr>,
     db_log = [(1, zero_hash)]\<rparr>"
  by (simp add: sample_db_def sample_ops_def empty_db_def insert_event_def ids_def sample_row_def seal_pass_def seal_def
      chain_head_def sealed_rows_def as_sealed_def insert_genesis_def genesis_hash_def toy_mac toy_anchor_mac MAX_SEQ_def
      anchor_mac_valid_def seal_from_def claim_unsealed_def toy_link Let_def set_anchor_head_def seal_rows_def seal_row_def)

lemma sample_rows: "sealed_rows sample_db = [\<lparr>sd_seq = 1, sd_hash = Some zero_hash, sd_row = sample_row\<rparr>]"
  by (simp add: sample_db_value sealed_rows_def as_sealed_def)

theorem chain_always_verifies_witness:
  "intact (walk_chain toy_chain (db_reader sample_db) [] None VERIFY_PAGE) \<and>
   intact (walk_chain toy_chain (db_reader sample_db) [] (Some (1, hex_of zero_hash)) VERIFY_PAGE)"
proof -
  have "(1, zero_hash) \<in> set (db_log sample_db)" by (simp add: sample_db_value)
  then show ?thesis
    using chain_always_verifies [of VERIFY_PAGE toy_chain "[]" sample_ops]
    by (auto simp: VERIFY_PAGE_def Let_def sample_db_def [symmetric])
qed


theorem backlog_is_sealed_witness:
  "count_unsealed ((sealing_pass toy_chain [] 10 ^^ 1) (run (audit_step toy_chain []) empty_db [Op_insert sample_row])) = 0"
proof -
  have "count_unsealed (run (audit_step toy_chain []) empty_db [Op_insert sample_row]) = 1"
    "head_seq (run (audit_step toy_chain []) empty_db [Op_insert sample_row]) = 0"
    by (simp_all add: empty_db_def sample_row_def ids_def insert_event_def count_unsealed_def head_seq_def)
  then show ?thesis
    using backlog_is_sealed [of toy_chain "run (audit_step toy_chain []) empty_db [Op_insert sample_row]" "[]" "[Op_insert sample_row]" 10]
    by (simp add: toy_mac MAX_SEQ_def del: run_simps)
qed

end
