(* ===== verification/Limiter.thy ===== *)
theory Limiter
  imports Prelude Complex_Main
begin

text \<open>
  The shared limiter of the server (\<^verbatim>\<open>operations/limiter.ts\<close>), whose token buckets are the rows of the
  table \<^verbatim>\<open>limiter_buckets\<close>, and the two limiters of \<^verbatim>\<open>identity/rate-limit.ts\<close>: the one in process
  memory and the one in the tenant's table. Times are milliseconds and token counts are exact rationals
  (the rounding of \<^verbatim>\<open>float8\<close> is not modelled). A table is the map from the row's key, the tenant and the
  bucket name, to its columns; a statement is a function of the table it finds.
\<close>

section \<open>The table of buckets\<close>

record bucket_size =
  bs_capacity :: rat
  bs_refill :: rat \<comment> \<open>tokens per millisecond\<close>

record charge_options =
  co_size :: bucket_size
  co_cost :: rat
  co_at :: "rat option" \<comment> \<open>a test's injected clock\<close>

record charge =
  ch_ok :: bool
  ch_tokens :: rat
  ch_retry_ms :: int

record bucket_row =
  br_tokens :: rat
  br_updated :: rat

type_synonym buckets = "(string \<times> string, bucket_row) jsmap"

datatype limiter_error = Range_error

definition clock_at :: "charge_options \<Rightarrow> rat \<Rightarrow> rat" where
  "clock_at o1 stmt = (case co_at o1 of Some a \<Rightarrow> a | None \<Rightarrow> stmt)"

definition refilled :: "bucket_size \<Rightarrow> rat \<Rightarrow> bucket_row \<Rightarrow> rat" where
  "refilled sz tm b = min (bs_capacity sz) (br_tokens b + max 0 (tm - br_updated b) * bs_refill sz)"

text \<open>
  The statement: the upsert runs on the row as it is once its lock is held, \<open>held\<close> reads the snapshot the
  statement started from. \<open>stmt\<close> is \<^verbatim>\<open>statement_timestamp()\<close>.
\<close>

definition charged_row :: "string \<Rightarrow> string \<Rightarrow> charge_options \<Rightarrow> rat \<Rightarrow> buckets \<Rightarrow> bucket_row option" where
  "charged_row t key o1 stmt tbl =
     (let tm = clock_at o1 stmt in
      case jsget tbl (t, key) of
        None \<Rightarrow> Some \<lparr>br_tokens = bs_capacity (co_size o1) - co_cost o1, br_updated = tm\<rparr>
      | Some b \<Rightarrow>
          if refilled (co_size o1) tm b \<ge> co_cost o1
          then Some \<lparr>br_tokens = refilled (co_size o1) tm b - co_cost o1, br_updated = tm\<rparr>
          else None)"

definition held_tokens :: "string \<Rightarrow> string \<Rightarrow> charge_options \<Rightarrow> rat \<Rightarrow> buckets \<Rightarrow> rat option" where
  "held_tokens t key o1 stmt snapshot =
     map_option (refilled (co_size o1) (clock_at o1 stmt)) (jsget snapshot (t, key))"

definition retry_after :: "rat \<Rightarrow> charge_options \<Rightarrow> int" where
  "retry_after tokens o1 = max 1 \<lceil>(co_cost o1 - tokens) / bs_refill (co_size o1)\<rceil>"

definition SWEEP_MIN_AGE_MS :: int where
  "SWEEP_MIN_AGE_MS = 60 * 60000"

text \<open>The module's \<^verbatim>\<open>longestRefillMs\<close> is the instance's state, an \<open>int\<close>.\<close>

definition register_bucket :: "bucket_size \<Rightarrow> int \<Rightarrow> int" where
  "register_bucket sz longest = max longest \<lceil>bs_capacity sz / bs_refill sz\<rceil>"

definition sweep_age_ms :: "int \<Rightarrow> int" where
  "sweep_age_ms longest = max SWEEP_MIN_AGE_MS longest"

definition sweep_buckets :: "string \<Rightarrow> int \<Rightarrow> rat \<Rightarrow> buckets \<Rightarrow> buckets" where
  "sweep_buckets t age stmt tbl =
     filter (\<lambda>((t', key), b). \<not> (t' = t \<and> br_updated b < stmt - of_int age)) tbl"

definition LIMITER_SWEEP_MS :: rat where
  "LIMITER_SWEEP_MS = 10 * 60000"

text \<open>
  A beat of the heartbeat: \<open>lst\<close> is the beat that swept last, \<open>units\<close> the tenants \<^verbatim>\<open>forEachTenant\<close> visits with
  the timestamp of each one's statement.
\<close>

definition limiter_sweep ::
    "rat \<Rightarrow> rat \<Rightarrow> (string \<times> rat) list \<Rightarrow> int \<Rightarrow> rat option \<times> buckets \<Rightarrow> rat option \<times> buckets" where
  "limiter_sweep every tm units longest s =
     (case s of (lst, tbl) \<Rightarrow>
       if (case lst of Some l \<Rightarrow> tm - l < every | None \<Rightarrow> False) then s
       else (Some tm, fold (\<lambda>(t, stmt). sweep_buckets t (sweep_age_ms longest) stmt) units tbl))"

definition params_of :: "charge_options \<Rightarrow> int \<Rightarrow> (limiter_error, int) result" where
  "params_of o1 longest =
     (if \<not> (co_cost o1 > 0 \<and> co_cost o1 \<le> bs_capacity (co_size o1)) then Inl Range_error
      else Inr (register_bucket (co_size o1) longest))"

definition charge_bucket ::
    "string \<Rightarrow> string \<Rightarrow> charge_options \<Rightarrow> rat \<Rightarrow> buckets \<Rightarrow> int \<times> buckets \<Rightarrow>
     (limiter_error, (int \<times> buckets) \<times> charge) result" where
  "charge_bucket t key o1 stmt snapshot s =
     (case s of (longest, tbl) \<Rightarrow>
       bind_result (params_of o1 longest) (\<lambda>longest'.
         case charged_row t key o1 stmt tbl of
           Some b \<Rightarrow> Inr ((longest', jsset tbl (t, key) b),
                          \<lparr>ch_ok = True, ch_tokens = br_tokens b, ch_retry_ms = 0\<rparr>)
         | None \<Rightarrow>
             (let tokens = (case held_tokens t key o1 stmt snapshot of Some h \<Rightarrow> h | None \<Rightarrow> 0)
              in Inr ((longest', tbl),
                      \<lparr>ch_ok = False, ch_tokens = tokens, ch_retry_ms = retry_after tokens o1\<rparr>))))"

definition peek_bucket ::
    "string \<Rightarrow> string \<Rightarrow> charge_options \<Rightarrow> rat \<Rightarrow> int \<times> buckets \<Rightarrow>
     (limiter_error, (int \<times> buckets) \<times> charge) result" where
  "peek_bucket t key o1 stmt s =
     (case s of (longest, tbl) \<Rightarrow>
       bind_result (params_of o1 longest) (\<lambda>longest'.
         let tokens = (case held_tokens t key o1 stmt tbl of Some h \<Rightarrow> h | None \<Rightarrow> bs_capacity (co_size o1)) in
         Inr ((longest', tbl),
              if tokens \<ge> co_cost o1 then \<lparr>ch_ok = True, ch_tokens = tokens, ch_retry_ms = 0\<rparr>
              else \<lparr>ch_ok = False, ch_tokens = tokens, ch_retry_ms = retry_after tokens o1\<rparr>)))"

section \<open>The limiter in memory\<close>

record decision =
  rd_allowed :: bool
  rd_retry :: int \<comment> \<open>whole seconds\<close>

definition PRUNE_ABOVE :: nat where
  "PRUNE_ABOVE = 10000"

text \<open>A \<^verbatim>\<open>Bucket\<close> has the two fields of a row of the table.\<close>

record rate_limiter =
  rl_buckets :: "(string, bucket_row) jsmap"
  rl_size :: bucket_size

definition new_rate_limiter :: "bucket_size \<Rightarrow> rate_limiter" where
  "new_rate_limiter sz = \<lparr>rl_buckets = [], rl_size = sz\<rparr>"

definition prune :: "rat \<Rightarrow> rate_limiter \<Rightarrow> rate_limiter" where
  "prune now rl =
     (if length (rl_buckets rl) \<le> PRUNE_ABOVE then rl
      else rl\<lparr>rl_buckets := filter (\<lambda>(k, b).
             \<not> (br_tokens b + (now - br_updated b) * bs_refill (rl_size rl) \<ge> bs_capacity (rl_size rl)))
             (rl_buckets rl)\<rparr>)"

definition refused_for :: "bucket_size \<Rightarrow> rat \<Rightarrow> decision" where
  "refused_for sz tokens =
     \<lparr>rd_allowed = False, rd_retry = max 1 \<lceil>(1 - tokens) / bs_refill sz / 1000\<rceil>\<rparr>"

definition allowed_now :: decision where
  "allowed_now = \<lparr>rd_allowed = True, rd_retry = 0\<rparr>"

text \<open>\<open>now\<close> is the clock as \<^verbatim>\<open>take\<close> reads it, \<open>later\<close> as \<^verbatim>\<open>prune\<close> reads it again.\<close>

definition take_memory :: "rat \<Rightarrow> rat \<Rightarrow> string \<Rightarrow> rate_limiter \<Rightarrow> rate_limiter \<times> decision" where
  "take_memory now later key rl =
     (let bucket = (case jsget (rl_buckets rl) key of Some b \<Rightarrow> b
                    | None \<Rightarrow> \<lparr>br_tokens = bs_capacity (rl_size rl), br_updated = now\<rparr>);
          tokens = refilled (rl_size rl) now bucket in
      if tokens \<ge> 1 then
        (prune later (rl\<lparr>rl_buckets := jsset (rl_buckets rl) key \<lparr>br_tokens = tokens - 1, br_updated = now\<rparr>\<rparr>),
         allowed_now)
      else
        (rl\<lparr>rl_buckets := jsset (rl_buckets rl) key \<lparr>br_tokens = tokens, br_updated = now\<rparr>\<rparr>,
         refused_for (rl_size rl) tokens))"

definition peek_memory :: "rat \<Rightarrow> string \<Rightarrow> rate_limiter \<Rightarrow> decision" where
  "peek_memory now key rl =
     (case jsget (rl_buckets rl) key of
        None \<Rightarrow> allowed_now
      | Some bucket \<Rightarrow>
          (let tokens = refilled (rl_size rl) now bucket in
           if tokens \<ge> 1 then allowed_now else refused_for (rl_size rl) tokens))"

section \<open>The limiter in the tenant's table\<close>

definition decision_of :: "charge \<Rightarrow> decision" where
  "decision_of c =
     (if ch_ok c then allowed_now
      else \<lparr>rd_allowed = False, rd_retry = max 1 \<lceil>of_int (ch_retry_ms c) / (1000 :: rat)\<rceil>\<rparr>)"

record tenant_limiter =
  tl_name :: string
  tl_size :: bucket_size
  tl_clock :: "rat option" \<comment> \<open>what the injected clock, when there is one, shows now\<close>

definition new_tenant_limiter :: "string \<Rightarrow> bucket_size \<Rightarrow> rat option \<Rightarrow> int \<Rightarrow> int \<times> tenant_limiter" where
  "new_tenant_limiter name sz clk longest =
     (register_bucket sz longest, \<lparr>tl_name = name, tl_size = sz, tl_clock = clk\<rparr>)"

definition bucket_name :: "tenant_limiter \<Rightarrow> string \<Rightarrow> string" where
  "bucket_name l key = tl_name l @ ''/'' @ key"

definition options_of :: "tenant_limiter \<Rightarrow> charge_options" where
  "options_of l = \<lparr>co_size = tl_size l, co_cost = 1, co_at = tl_clock l\<rparr>"

definition take_tenant ::
    "tenant_limiter \<Rightarrow> string \<Rightarrow> rat \<Rightarrow> string \<Rightarrow> int \<times> buckets \<Rightarrow>
     (limiter_error, (int \<times> buckets) \<times> decision) result" where
  "take_tenant l scope stmt key s =
     bind_result (charge_bucket scope (bucket_name l key) (options_of l) stmt (snd s) s)
       (\<lambda>(s', c). Inr (s', decision_of c))"

definition peek_tenant ::
    "tenant_limiter \<Rightarrow> string \<Rightarrow> rat \<Rightarrow> string \<Rightarrow> int \<times> buckets \<Rightarrow>
     (limiter_error, (int \<times> buckets) \<times> decision) result" where
  "peek_tenant l scope stmt key s =
     bind_result (peek_bucket scope (bucket_name l key) (options_of l) stmt s)
       (\<lambda>(s', c). Inr (s', decision_of c))"

text \<open>
  \<^verbatim>\<open>chargeKeys\<close>: every key that is there is charged, in order, even after a refusal. Each charge is a
  statement of its own, so each has its own timestamp.
\<close>

fun charge_keys ::
    "tenant_limiter \<Rightarrow> string \<Rightarrow> (rat \<times> string option) list \<Rightarrow> int \<Rightarrow> int \<times> buckets \<Rightarrow>
     (limiter_error, (int \<times> buckets) \<times> int) result" where
  "charge_keys l scope [] retry s = Inr (s, retry)"
| "charge_keys l scope ((stmt, None) # ks) retry s = charge_keys l scope ks retry s"
| "charge_keys l scope ((stmt, Some key) # ks) retry s =
     bind_result (take_tenant l scope stmt key s) (\<lambda>(s', d).
       charge_keys l scope ks (if rd_allowed d then retry else max retry (rd_retry d)) s')"

text \<open>The pre-handler: \<open>Too_many\<close> is the 429 with its \<^verbatim>\<open>Retry-After\<close>, \<open>Pass\<close> calls \<^verbatim>\<open>done\<close>, \<open>Fail\<close> calls it with the error. Every charge of
  one limiter has the same options, so it is the first that throws, before anything is charged.\<close>

datatype rate_answer = Pass | Too_many int | Fail limiter_error

definition rate_limit ::
    "tenant_limiter \<Rightarrow> string \<Rightarrow> (rat \<times> string option) list \<Rightarrow> int \<times> buckets \<Rightarrow> (int \<times> buckets) \<times> rate_answer" where
  "rate_limit l scope keys s =
     (case charge_keys l scope keys 0 s of
        Inr (s', retry) \<Rightarrow> (s', if retry > 0 then Too_many retry else Pass)
      | Inl e \<Rightarrow> (s, Fail e))"

section \<open>What a limiter promises: a level per key\<close>

text \<open>
  The token bucket itself, without rows, sweeps or prunes: each key has a level that is full at first, grows
  with time up to the capacity and falls by one with every attempt that is allowed.
\<close>

datatype 'x limit_op = Take string | Peek string | Upkeep 'x

text \<open>An operation with the time it reads, and the time by which it is over.\<close>

type_synonym 'x timed_op = "rat \<times> rat \<times> 'x limit_op"

definition fill :: "bucket_size \<Rightarrow> rat \<Rightarrow> rat \<Rightarrow> rat" where
  "fill sz d x = min (bs_capacity sz) (x + d * bs_refill sz)"

definition spec_answer :: "bucket_size \<Rightarrow> rat \<Rightarrow> decision" where
  "spec_answer sz x = (if x \<ge> 1 then allowed_now else refused_for sz x)"

fun spec_op :: "bucket_size \<Rightarrow> 'x limit_op \<Rightarrow> (string \<Rightarrow> rat) \<Rightarrow> (string \<Rightarrow> rat) \<times> decision option" where
  "spec_op sz (Take k) lv = (if lv k \<ge> 1 then lv(k := lv k - 1) else lv, Some (spec_answer sz (lv k)))"
| "spec_op sz (Peek k) lv = (lv, Some (spec_answer sz (lv k)))"
| "spec_op sz (Upkeep x) lv = (lv, None)"

definition spec_step ::
    "bucket_size \<Rightarrow> rat \<times> (string \<Rightarrow> rat) \<Rightarrow> 'x timed_op \<Rightarrow> (rat \<times> (string \<Rightarrow> rat)) \<times> decision option" where
  "spec_step sz s e =
     (case (s, e) of ((tm, lv), (now, later, p)) \<Rightarrow>
       (case spec_op sz p (\<lambda>k. fill sz (now - tm) (lv k)) of (lv', d) \<Rightarrow>
         ((later, \<lambda>k. fill sz (later - now) (lv' k)), d)))"

fun run_ops :: "('s \<Rightarrow> 'x timed_op \<Rightarrow> 's \<times> decision option) \<Rightarrow> 's \<Rightarrow> 'x timed_op list \<Rightarrow> 's \<times> decision option list" where
  "run_ops step s [] = (s, [])"
| "run_ops step s (e # es) =
     (case step s e of (s1, d) \<Rightarrow> case run_ops step s1 es of (s2, ds) \<Rightarrow> (s2, d # ds))"

fun in_order :: "rat \<Rightarrow> 'x timed_op list \<Rightarrow> bool" where
  "in_order tm [] = True"
| "in_order tm ((now, later, p) # es) = (tm \<le> now \<and> now \<le> later \<and> in_order later es)"

fun end_time :: "rat \<Rightarrow> 'x timed_op list \<Rightarrow> rat" where
  "end_time tm [] = tm"
| "end_time tm ((now, later, p) # es) = end_time later es"

text \<open>How many attempts at \<open>k\<close> the answers \<open>ds\<close> to the operations \<open>es\<close> allowed.\<close>

fun allowed_takes :: "string \<Rightarrow> 'x timed_op list \<Rightarrow> decision option list \<Rightarrow> nat" where
  "allowed_takes k ((now, later, Take k') # es) (Some d # ds) =
     (if k' = k \<and> rd_allowed d then 1 else 0) + allowed_takes k es ds"
| "allowed_takes k (e # es) (d # ds) = allowed_takes k es ds"
| "allowed_takes k es ds = 0"

definition size_ok :: "bucket_size \<Rightarrow> bool" where
  "size_ok sz \<longleftrightarrow> 1 \<le> bs_capacity sz \<and> 0 < bs_refill sz"

lemma fill_fill: "size_ok sz \<Longrightarrow> 0 \<le> d \<Longrightarrow> fill sz d (fill sz c x) = fill sz (c + d) x"
proof -
  assume "size_ok sz" "0 \<le> d"
  then have "0 \<le> d * bs_refill sz" by (simp add: size_ok_def)
  then show ?thesis unfolding fill_def ring_distribs by linarith
qed

lemma fill_le: "fill sz d x \<le> bs_capacity sz"
  by (simp add: fill_def)

lemma fill_ge: "size_ok sz \<Longrightarrow> 0 \<le> d \<Longrightarrow> x \<le> bs_capacity sz \<Longrightarrow> x \<le> fill sz d x"
  by (simp add: fill_def size_ok_def)

lemma fill_growth: "fill sz d x \<le> x + d * bs_refill sz"
  by (simp add: fill_def)

lemma fill_nonneg: "size_ok sz \<Longrightarrow> 0 \<le> d \<Longrightarrow> 0 \<le> x \<Longrightarrow> 0 \<le> fill sz d x"
  by (simp add: fill_def size_ok_def)

lemma fill_capacity [simp]: "size_ok sz \<Longrightarrow> 0 \<le> d \<Longrightarrow> fill sz d (bs_capacity sz) = bs_capacity sz"
  by (simp add: fill_def size_ok_def)

lemma fill_0 [simp]: "x \<le> bs_capacity sz \<Longrightarrow> fill sz 0 x = x"
  by (simp add: fill_def)

lemma spec_step_op:
  "spec_step sz (tm, lv) (now, later, p) =
     (case spec_op sz p (\<lambda>k. fill sz (now - tm) (lv k)) of (lv', d) \<Rightarrow>
        ((later, \<lambda>k. fill sz (later - now) (lv' k)), d))"
  by (simp add: spec_step_def)

text \<open>The law of the bucket: what is allowed was there or flowed in.\<close>

lemma spec_spends:
  assumes "size_ok sz" "in_order tm es" "run_ops (spec_step sz) (tm, lv) es = ((tm', lv'), ds)"
  shows "of_nat (allowed_takes k es ds) + lv' k \<le> lv k + (end_time tm es - tm) * bs_refill sz"
  using assms(2,3)
proof (induction es arbitrary: tm lv ds)
  case (Cons e es)
  obtain now later p where e: "e = (now, later, p)" by (cases e)
  define lv1 where "lv1 = (\<lambda>k. fill sz (now - tm) (lv k))"
  obtain lv2 d where op: "spec_op sz p lv1 = (lv2, d)" by (cases "spec_op sz p lv1")
  obtain ds' where run: "run_ops (spec_step sz) (later, \<lambda>k. fill sz (later - now) (lv2 k)) es = ((tm', lv'), ds')"
    and ds: "ds = d # ds'"
    using Cons.prems(2) op by (auto simp: e spec_step_op lv1_def split: prod.splits)
  have IH: "of_nat (allowed_takes k es ds') + lv' k
      \<le> fill sz (later - now) (lv2 k) + (end_time later es - later) * bs_refill sz"
    using Cons.IH [OF _ run] Cons.prems(1) by (simp add: e)
  have f1: "fill sz (later - now) (lv2 k) \<le> lv2 k + (later - now) * bs_refill sz" by (rule fill_growth)
  have f2: "lv1 k \<le> lv k + (now - tm) * bs_refill sz" unfolding lv1_def by (rule fill_growth)
  have spent: "of_nat (allowed_takes k (e # es) ds) + lv2 k \<le> of_nat (allowed_takes k es ds') + lv1 k"
    using op by (cases p) (auto simp: e ds spec_answer_def allowed_now_def refused_for_def)
  show ?case
    using IH f1 f2 spent by (simp add: e algebra_simps)
qed simp

text \<open>The contract of a limiter: its levels move as the bucket's, and its answers are the bucket's.\<close>

locale token_limiter =
  fixes step :: "'s \<Rightarrow> 'x timed_op \<Rightarrow> 's \<times> decision option"
    and inv :: "rat \<Rightarrow> 's \<Rightarrow> bool"
    and size_of :: "'s \<Rightarrow> bucket_size"
    and level :: "rat \<Rightarrow> 's \<Rightarrow> string \<Rightarrow> rat"
    and fits :: "'s \<Rightarrow> 'x limit_op \<Rightarrow> bool"
  assumes inv_size: "inv tm s \<Longrightarrow> size_ok (size_of s)"
    and level_nonneg: "inv tm s \<Longrightarrow> 0 \<le> level tm s k"
    and level_capacity: "inv tm s \<Longrightarrow> level tm s k \<le> bs_capacity (size_of s)"
    and step_keeps: "inv tm s \<Longrightarrow> tm \<le> now \<Longrightarrow> now \<le> later \<Longrightarrow> fits s p \<Longrightarrow>
      step s (now, later, p) = (s', d) \<Longrightarrow> inv later s' \<and> size_of s' = size_of s \<and> fits s' = fits s"
    and step_refines: "inv tm s \<Longrightarrow> tm \<le> now \<Longrightarrow> now \<le> later \<Longrightarrow> fits s p \<Longrightarrow>
      step s (now, later, p) = (s', d) \<Longrightarrow>
      spec_step (size_of s) (tm, level tm s) (now, later, p) = ((later, level later s'), d)"
begin

lemma run_refines:
  "inv tm s \<Longrightarrow> in_order tm es \<Longrightarrow> \<forall>(now, later, p) \<in> set es. fits s p \<Longrightarrow>
   run_ops step s es = (s', ds) \<Longrightarrow>
   run_ops (spec_step (size_of s)) (tm, level tm s) es = ((end_time tm es, level (end_time tm es) s'), ds)
   \<and> inv (end_time tm es) s' \<and> size_of s' = size_of s \<and> fits s' = fits s"
proof (induction es arbitrary: tm s ds)
  case (Cons e es)
  obtain now later p where e: "e = (now, later, p)" by (cases e)
  obtain s1 d where st: "step s (now, later, p) = (s1, d)" by (cases "step s (now, later, p)")
  obtain ds' where run: "run_ops step s1 es = (s', ds')" and ds: "ds = d # ds'"
    using Cons.prems(4) st by (auto simp: e split: prod.splits)
  have ord: "tm \<le> now" "now \<le> later" "in_order later es" and fit: "fits s p"
    using Cons.prems(2,3) by (auto simp: e)
  note k = step_keeps [OF Cons.prems(1) ord(1,2) fit st]
  note r = step_refines [OF Cons.prems(1) ord(1,2) fit st]
  have "\<forall>(now, later, p) \<in> set es. fits s1 p" using Cons.prems(3) k by (auto simp: e)
  from Cons.IH [OF _ ord(3) this run] k r show ?case by (simp add: e ds)
qed simp

lemma run_spends:
  assumes "inv tm s" "in_order tm es" "\<forall>(now, later, p) \<in> set es. fits s p" "run_ops step s es = (s', ds)"
  shows "of_nat (allowed_takes k es ds) \<le> level tm s k + (end_time tm es - tm) * bs_refill (size_of s)"
proof -
  note r = run_refines [OF assms]
  have "of_nat (allowed_takes k es ds) + level (end_time tm es) s' k
      \<le> level tm s k + (end_time tm es - tm) * bs_refill (size_of s)"
    using spec_spends [OF inv_size [OF assms(1)] assms(2)] r by blast
  moreover have "0 \<le> level (end_time tm es) s' k" using r level_nonneg by blast
  ultimately show ?thesis by linarith
qed

end

section \<open>Rows and levels\<close>

definition row_ok :: "bucket_size \<Rightarrow> rat \<Rightarrow> bucket_row option \<Rightarrow> bool" where
  "row_ok sz tm r = (case r of None \<Rightarrow> True
     | Some b \<Rightarrow> 0 \<le> br_tokens b \<and> br_tokens b \<le> bs_capacity sz \<and> br_updated b \<le> tm)"

text \<open>No row is a full bucket.\<close>

definition row_level :: "bucket_size \<Rightarrow> rat \<Rightarrow> bucket_row option \<Rightarrow> rat" where
  "row_level sz tm r = (case r of None \<Rightarrow> bs_capacity sz | Some b \<Rightarrow> refilled sz tm b)"

lemma row_level_None [simp]: "row_level sz tm None = bs_capacity sz"
  by (simp add: row_level_def)

lemma row_ok_None [simp]: "row_ok sz tm None"
  by (simp add: row_ok_def)

lemma row_level_Some: "br_updated b \<le> tm \<Longrightarrow> row_level sz tm (Some b) = fill sz (tm - br_updated b) (br_tokens b)"
  by (simp add: row_level_def refilled_def fill_def)

lemma row_ok_mono: "row_ok sz tm r \<Longrightarrow> tm \<le> s \<Longrightarrow> row_ok sz s r"
  by (auto simp: row_ok_def split: option.splits)

lemma row_level_le: "row_level sz tm r \<le> bs_capacity sz"
  by (simp add: row_level_def refilled_def split: option.split)

lemma row_level_nonneg: "size_ok sz \<Longrightarrow> row_ok sz tm r \<Longrightarrow> 0 \<le> row_level sz tm r"
  by (auto simp: row_ok_def row_level_Some fill_nonneg size_ok_def split: option.splits)

lemma row_level_later:
  "size_ok sz \<Longrightarrow> row_ok sz tm r \<Longrightarrow> tm \<le> s \<Longrightarrow> row_level sz s r = fill sz (s - tm) (row_level sz tm r)"
proof (cases r)
  case (Some b)
  assume a: "size_ok sz" "row_ok sz tm r" "tm \<le> s"
  then have "br_updated b \<le> tm" "br_updated b \<le> s" using Some by (auto simp: row_ok_def)
  with a show ?thesis using Some by (simp add: row_level_Some fill_fill)
qed simp

lemma row_level_refused:
  "size_ok sz \<Longrightarrow> row_level sz s (Some \<lparr>br_tokens = row_level sz now r, br_updated = now\<rparr>)
     = fill sz (s - now) (row_level sz now r)" if "now \<le> s"
  using that by (simp add: row_level_Some)

lemma row_level_spent:
  "now \<le> s \<Longrightarrow> row_level sz s (Some \<lparr>br_tokens = x, br_updated = now\<rparr>) = fill sz (s - now) x"
  by (simp add: row_level_Some)

lemma row_level_full:
  "size_ok sz \<Longrightarrow> row_ok sz tm (Some b) \<Longrightarrow> br_tokens b + (tm - br_updated b) * bs_refill sz \<ge> bs_capacity sz \<Longrightarrow>
   row_level sz tm (Some b) = bs_capacity sz"
  by (simp add: row_ok_def row_level_Some fill_def)

section \<open>The memory limiter is a token bucket\<close>

definition memory_step :: "rate_limiter \<Rightarrow> 'x timed_op \<Rightarrow> rate_limiter \<times> decision option" where
  "memory_step rl e = (case e of (now, later, p) \<Rightarrow>
     (case p of
        Take k \<Rightarrow> (case take_memory now later k rl of (rl', d) \<Rightarrow> (rl', Some d))
      | Peek k \<Rightarrow> (rl, Some (peek_memory now k rl))
      | Upkeep x \<Rightarrow> (rl, None)))"

definition memory_inv :: "rat \<Rightarrow> rate_limiter \<Rightarrow> bool" where
  "memory_inv tm rl \<longleftrightarrow> size_ok (rl_size rl) \<and> jsmap_ok (rl_buckets rl) \<and>
     (\<forall>k. row_ok (rl_size rl) tm (jsget (rl_buckets rl) k))"

definition memory_level :: "rat \<Rightarrow> rate_limiter \<Rightarrow> string \<Rightarrow> rat" where
  "memory_level tm rl k = row_level (rl_size rl) tm (jsget (rl_buckets rl) k)"

lemma prune_size [simp]: "rl_size (prune later rl) = rl_size rl"
  by (simp add: prune_def)

lemma prune_row:
  assumes "jsmap_ok (rl_buckets rl)"
  shows "jsget (rl_buckets (prune later rl)) k = jsget (rl_buckets rl) k \<or>
    jsget (rl_buckets (prune later rl)) k = None \<and> (\<exists>b. jsget (rl_buckets rl) k = Some b \<and>
      br_tokens b + (later - br_updated b) * bs_refill (rl_size rl) \<ge> bs_capacity (rl_size rl))"
  using assms by (auto simp: prune_def map_of_filter_distinct split: option.split)

lemma prune_keeps:
  assumes "memory_inv later rl"
  shows "memory_inv later (prune later rl) \<and> memory_level later (prune later rl) = memory_level later rl"
proof -
  note a = assms [unfolded memory_inv_def]
  have r: "row_ok (rl_size rl) later (jsget (rl_buckets (prune later rl)) k)
      \<and> row_level (rl_size rl) later (jsget (rl_buckets (prune later rl)) k)
        = row_level (rl_size rl) later (jsget (rl_buckets rl) k)" for k
    using prune_row [of rl later k] a row_level_full [of "rl_size rl" later] by (metis row_level_None row_ok_None)
  have "jsmap_ok (rl_buckets (prune later rl))" using a by (simp add: prune_def distinct_keys_filter)
  then show ?thesis using a r by (simp add: memory_inv_def memory_level_def fun_eq_iff)
qed

text \<open>What \<^verbatim>\<open>take\<close> reads is the level, and what it stores is the level less what it took.\<close>

lemma take_reads_level:
  "refilled (rl_size rl) now (case jsget (rl_buckets rl) k of Some b \<Rightarrow> b
     | None \<Rightarrow> \<lparr>br_tokens = bs_capacity (rl_size rl), br_updated = now\<rparr>) = memory_level now rl k"
  by (simp add: memory_level_def row_level_def refilled_def split: option.split)

lemma memory_store:
  fixes k :: string
  assumes "memory_inv now rl" "now \<le> later" "0 \<le> x" "x \<le> bs_capacity (rl_size rl)"
  defines "rl' \<equiv> rl\<lparr>rl_buckets := jsset (rl_buckets rl) k \<lparr>br_tokens = x, br_updated = now\<rparr>\<rparr>"
  shows "memory_inv later rl' \<and>
    memory_level later rl' = (\<lambda>j. fill (rl_size rl) (later - now) (((memory_level now rl)(k := x)) j))"
proof -
  note a = assms(1) [unfolded memory_inv_def]
  have "row_ok (rl_size rl) later (jsget (rl_buckets rl') j)" for j
    using a assms(2-4) row_ok_mono [of "rl_size rl" now _ later]
    by (auto simp: rl'_def jsmap_simps row_ok_def split: option.splits)
  moreover have "memory_level later rl' j = fill (rl_size rl) (later - now) (((memory_level now rl)(k := x)) j)" for j
    using a assms(2) by (simp add: rl'_def memory_level_def jsmap_simps row_level_spent row_level_later [of _ now _ later])
  ultimately show ?thesis using a by (simp add: memory_inv_def rl'_def jsmap_simps fun_eq_iff)
qed

lemma memory_inv_later: "memory_inv tm rl \<Longrightarrow> tm \<le> s \<Longrightarrow> memory_inv s rl"
  by (auto simp: memory_inv_def intro: row_ok_mono)

lemma memory_level_later:
  "memory_inv tm rl \<Longrightarrow> tm \<le> s \<Longrightarrow> memory_level s rl = (\<lambda>k. fill (rl_size rl) (s - tm) (memory_level tm rl k))"
  by (auto simp: memory_inv_def memory_level_def fun_eq_iff intro!: row_level_later)

lemma memory_level_bounds:
  "memory_inv tm rl \<Longrightarrow> 0 \<le> memory_level tm rl k \<and> memory_level tm rl k \<le> bs_capacity (rl_size rl)"
  by (simp add: memory_inv_def memory_level_def row_level_nonneg row_level_le)

lemma memory_take:
  assumes "memory_inv now rl" "now \<le> later" "take_memory now later k rl = (rl', d)"
  shows "memory_inv later rl' \<and> rl_size rl' = rl_size rl \<and> d = spec_answer (rl_size rl) (memory_level now rl k) \<and>
    memory_level later rl' = (\<lambda>j. fill (rl_size rl) (later - now)
      ((if memory_level now rl k \<ge> 1 then (memory_level now rl)(k := memory_level now rl k - 1)
        else memory_level now rl) j))"
proof -
  define x where "x = memory_level now rl k"
  have x: "0 \<le> x" "x \<le> bs_capacity (rl_size rl)" using memory_level_bounds [OF assms(1)] by (simp_all add: x_def)
  have t: "take_memory now later k rl =
     (if x \<ge> 1 then (prune later (rl\<lparr>rl_buckets := jsset (rl_buckets rl) k \<lparr>br_tokens = x - 1, br_updated = now\<rparr>\<rparr>), allowed_now)
      else (rl\<lparr>rl_buckets := jsset (rl_buckets rl) k \<lparr>br_tokens = x, br_updated = now\<rparr>\<rparr>, refused_for (rl_size rl) x))"
    unfolding take_memory_def Let_def take_reads_level x_def by (rule refl)
  show ?thesis
  proof (cases "x \<ge> 1")
    case True
    note st = memory_store [OF assms(1,2), of "x - 1" k]
    show ?thesis
      using True x t assms(3) st prune_keeps [of later "rl\<lparr>rl_buckets := jsset (rl_buckets rl) k \<lparr>br_tokens = x - 1, br_updated = now\<rparr>\<rparr>"]
      by (auto simp: spec_answer_def x_def [symmetric])
  next
    case False
    have "(memory_level now rl)(k := x) = memory_level now rl" by (simp add: x_def)
    then show ?thesis
      using False x t assms(3) memory_store [OF assms(1,2), of x k]
      by (auto simp: spec_answer_def x_def [symmetric])
  qed
qed

lemma memory_peek:
  "memory_inv now rl \<Longrightarrow> peek_memory now k rl = spec_answer (rl_size rl) (memory_level now rl k)"
  by (auto simp: peek_memory_def spec_answer_def memory_level_def row_level_def memory_inv_def size_ok_def
        Let_def split: option.split)

interpretation memory: token_limiter memory_step memory_inv rl_size memory_level "\<lambda>_ _. True"
proof
  fix tm s now later and p :: "'x limit_op" and s' d
  assume a: "memory_inv tm s" "tm \<le> now" "now \<le> later" "memory_step s (now, later, p) = (s', d)"
  have n: "memory_inv now s" using a(1,2) by (rule memory_inv_later)
  note ln = memory_level_later [OF a(1,2)] and ll = memory_level_later [OF n a(3)]
  show "memory_inv later s' \<and> rl_size s' = rl_size s \<and> (\<lambda>_ :: 'x limit_op. True) = (\<lambda>_. True)"
    using a(4) memory_take [OF n a(3)] memory_inv_later [OF n a(3)]
    by (cases p) (auto simp: memory_step_def split: prod.splits)
  show "spec_step (rl_size s) (tm, memory_level tm s) (now, later, p) = ((later, memory_level later s'), d)"
  proof (cases p)
    case (Take k)
    then show ?thesis using a(4) memory_take [OF n a(3), of k]
      by (auto simp: memory_step_def spec_step_op ln [symmetric] split: prod.splits)
  next
    case (Peek k)
    then have "s' = s" "d = Some (peek_memory now k s)" using a(4) by (auto simp: memory_step_def)
    then show ?thesis using Peek by (simp add: spec_step_op memory_peek [OF n] ln ll)
  next
    case (Upkeep x)
    then have "s' = s" "d = None" using a(4) by (auto simp: memory_step_def)
    then show ?thesis using Upkeep by (simp add: spec_step_op ln ll)
  qed
qed (simp_all add: memory_level_bounds, simp add: memory_inv_def)

section \<open>The table's limiter is the same token bucket\<close>

text \<open>
  The tenant's limiter beside the rest of what happens in the table: sweeps of any tenant, and charges of other
  limiters, other tenants and other sizes.
\<close>

datatype upkeep = Sweep_unit string | Charge_of string string charge_options | Register bucket_size

definition upkeep_db :: "upkeep \<Rightarrow> rat \<Rightarrow> int \<times> buckets \<Rightarrow> int \<times> buckets" where
  "upkeep_db u now db = (case u of
     Sweep_unit t \<Rightarrow> (fst db, sweep_buckets t (sweep_age_ms (fst db)) now (snd db))
   | Charge_of t key o1 \<Rightarrow> (case charge_bucket t key o1 now (snd db) db of Inr (db', c) \<Rightarrow> db' | Inl e \<Rightarrow> db)
   | Register sz \<Rightarrow> (register_bucket sz (fst db), snd db))"

record tenant_run =
  tr_limiter :: tenant_limiter
  tr_scope :: string
  tr_db :: "int \<times> buckets"

definition table_step :: "tenant_run \<Rightarrow> upkeep timed_op \<Rightarrow> tenant_run \<times> decision option" where
  "table_step tr e = (case e of (now, later, p) \<Rightarrow>
     (case p of
        Take k \<Rightarrow> (case take_tenant (tr_limiter tr) (tr_scope tr) now k (tr_db tr) of
                    Inr (db, d) \<Rightarrow> (tr\<lparr>tr_db := db\<rparr>, Some d) | Inl e \<Rightarrow> (tr, None))
      | Peek k \<Rightarrow> (case peek_tenant (tr_limiter tr) (tr_scope tr) now k (tr_db tr) of
                    Inr (db, d) \<Rightarrow> (tr\<lparr>tr_db := db\<rparr>, Some d) | Inl e \<Rightarrow> (tr, None))
      | Upkeep u \<Rightarrow> (tr\<lparr>tr_db := upkeep_db u now (tr_db tr)\<rparr>, None)))"

abbreviation tr_size :: "tenant_run \<Rightarrow> bucket_size" where
  "tr_size tr \<equiv> tl_size (tr_limiter tr)"

definition own_row :: "tenant_run \<Rightarrow> string \<Rightarrow> bucket_row option" where
  "own_row tr k = jsget (snd (tr_db tr)) (tr_scope tr, bucket_name (tr_limiter tr) k)"

definition table_inv :: "rat \<Rightarrow> tenant_run \<Rightarrow> bool" where
  "table_inv tm tr \<longleftrightarrow> size_ok (tr_size tr) \<and> tl_clock (tr_limiter tr) = None \<and> jsmap_ok (snd (tr_db tr)) \<and>
     \<lceil>bs_capacity (tr_size tr) / bs_refill (tr_size tr)\<rceil> \<le> fst (tr_db tr) \<and>
     (\<forall>k. row_ok (tr_size tr) tm (own_row tr k))"

definition table_level :: "rat \<Rightarrow> tenant_run \<Rightarrow> string \<Rightarrow> rat" where
  "table_level tm tr k = row_level (tr_size tr) tm (own_row tr k)"

text \<open>A charge of somebody else: another tenant's, or of a bucket whose name is another limiter's.\<close>

definition table_fits :: "tenant_run \<Rightarrow> upkeep limit_op \<Rightarrow> bool" where
  "table_fits tr p = (case p of
     Upkeep (Charge_of t key o1) \<Rightarrow>
       \<not> (t = tr_scope tr \<and> take (Suc (length (tl_name (tr_limiter tr)))) key = tl_name (tr_limiter tr) @ ''/'')
   | _ \<Rightarrow> True)"

lemma bucket_name_inject [simp]: "bucket_name l k = bucket_name l j \<longleftrightarrow> k = j"
  by (simp add: bucket_name_def)

lemma bucket_name_prefix [simp]: "take (Suc (length (tl_name l))) (bucket_name l k) = tl_name l @ ''/''"
  by (simp add: bucket_name_def)

lemma table_level_bounds:
  "table_inv tm tr \<Longrightarrow> 0 \<le> table_level tm tr k \<and> table_level tm tr k \<le> bs_capacity (tr_size tr)"
  by (simp add: table_inv_def table_level_def row_level_nonneg row_level_le)

lemma table_inv_later: "table_inv tm tr \<Longrightarrow> tm \<le> s \<Longrightarrow> table_inv s tr"
  by (auto simp: table_inv_def intro: row_ok_mono)

lemma table_level_later:
  "table_inv tm tr \<Longrightarrow> tm \<le> s \<Longrightarrow> table_level s tr = (\<lambda>k. fill (tr_size tr) (s - tm) (table_level tm tr k))"
  by (auto simp: table_inv_def table_level_def fun_eq_iff intro!: row_level_later)

subsection \<open>One charge\<close>

lemma charged_row_level:
  "co_cost o1 \<le> bs_capacity (co_size o1) \<Longrightarrow>
   charged_row t key o1 stmt tbl =
     (let x = row_level (co_size o1) (clock_at o1 stmt) (jsget tbl (t, key)) in
      if x \<ge> co_cost o1 then Some \<lparr>br_tokens = x - co_cost o1, br_updated = clock_at o1 stmt\<rparr> else None)"
  by (auto simp: charged_row_def row_level_def Let_def split: option.split)

lemma held_tokens_level:
  "held_tokens t key o1 stmt tbl =
     (if jshas tbl (t, key) then Some (row_level (co_size o1) (clock_at o1 stmt) (jsget tbl (t, key))) else None)"
  by (auto simp: held_tokens_def row_level_def)

text \<open>One charge, with the level of the bucket it finds and its own snapshot.\<close>

lemma charge_bucket_level:
  fixes t key :: string and tbl :: buckets and stmt :: rat
  assumes "0 < co_cost o1" "co_cost o1 \<le> bs_capacity (co_size o1)"
  defines "x \<equiv> row_level (co_size o1) (clock_at o1 stmt) (jsget tbl (t, key))"
  shows "charge_bucket t key o1 stmt tbl (longest, tbl) =
    Inr (if x \<ge> co_cost o1
         then ((register_bucket (co_size o1) longest,
                jsset tbl (t, key) \<lparr>br_tokens = x - co_cost o1, br_updated = clock_at o1 stmt\<rparr>),
               \<lparr>ch_ok = True, ch_tokens = x - co_cost o1, ch_retry_ms = 0\<rparr>)
         else ((register_bucket (co_size o1) longest, tbl),
               \<lparr>ch_ok = False, ch_tokens = x, ch_retry_ms = retry_after x o1\<rparr>))"
proof -
  have "jshas tbl (t, key)" if "\<not> x \<ge> co_cost o1"
    using that assms(2) by (cases "jsget tbl (t, key)") (auto simp: x_def)
  then show ?thesis
    using assms(1,2) charged_row_level [OF assms(2), of t key stmt tbl] held_tokens_level [of t key o1 stmt tbl]
    by (auto simp: charge_bucket_def params_of_def x_def [symmetric] Let_def)
qed

lemma ceiling_ceiling_div: "\<lceil>of_int \<lceil>x :: rat\<rceil> / (1000 :: rat)\<rceil> = \<lceil>x / 1000\<rceil>"
proof -
  have "\<lceil>of_int \<lceil>x\<rceil> / (1000 :: rat)\<rceil> \<le> n \<longleftrightarrow> \<lceil>x / (1000 :: rat)\<rceil> \<le> n" for n
  proof -
    have "\<lceil>of_int \<lceil>x\<rceil> / (1000 :: rat)\<rceil> \<le> n \<longleftrightarrow> of_int \<lceil>x\<rceil> \<le> (of_int (n * 1000) :: rat)"
      by (simp add: ceiling_le_iff divide_le_eq)
    also have "\<dots> \<longleftrightarrow> \<lceil>x\<rceil> \<le> n * 1000" by (rule of_int_le_iff)
    also have "\<dots> \<longleftrightarrow> \<lceil>x / (1000 :: rat)\<rceil> \<le> n"
      by (simp add: ceiling_le_iff divide_le_eq)
    finally show ?thesis .
  qed
  then show ?thesis by (meson order_antisym order_refl)
qed

lemma ceiling_thousandth_max: "max 1 \<lceil>of_int (max 1 n) / (1000 :: rat)\<rceil> = max 1 \<lceil>of_int n / (1000 :: rat)\<rceil>"
proof (cases "n \<le> 1")
  case True
  then have "\<lceil>of_int n / (1000 :: rat)\<rceil> \<le> 1" by (simp add: ceiling_le_iff)
  moreover have "\<lceil>1 / (1000 :: rat)\<rceil> = 1" by (simp add: ceiling_eq_iff)
  ultimately show ?thesis using True by (auto simp: max_def)
qed (simp add: max_def)

lemma seconds_of_retry:
  "co_cost o1 = 1 \<Longrightarrow> max 1 \<lceil>of_int (retry_after x o1) / (1000 :: rat)\<rceil> = rd_retry (refused_for (co_size o1) x)"
  by (simp add: retry_after_def refused_for_def ceiling_thousandth_max ceiling_ceiling_div)

lemma decision_of_spec:
  "decision_of (if x \<ge> 1 then \<lparr>ch_ok = True, ch_tokens = y, ch_retry_ms = 0\<rparr>
                else \<lparr>ch_ok = False, ch_tokens = x, ch_retry_ms = retry_after x (options_of l)\<rparr>)
   = spec_answer (tl_size l) x"
  using seconds_of_retry [of "options_of l" x]
  by (simp add: decision_of_def spec_answer_def options_of_def refused_for_def)

lemma options_of_sel [simp]:
  "co_size (options_of l) = tl_size l" "co_cost (options_of l) = 1"
  "tl_clock l = None \<Longrightarrow> clock_at (options_of l) stmt = stmt"
  by (simp_all add: options_of_def clock_at_def)

lemma take_tenant_level:
  fixes k :: string
  assumes "table_inv now tr"
  defines "x \<equiv> table_level now tr k" and "l \<equiv> tr_limiter tr"
  shows "take_tenant l (tr_scope tr) now k (tr_db tr) =
    Inr ((register_bucket (tl_size l) (fst (tr_db tr)),
          if x \<ge> 1 then jsset (snd (tr_db tr)) (tr_scope tr, bucket_name l k) \<lparr>br_tokens = x - 1, br_updated = now\<rparr>
          else snd (tr_db tr)), spec_answer (tl_size l) x)"
proof -
  obtain lg tbl where db: "tr_db tr = (lg, tbl)" by (cases "tr_db tr")
  have a: "0 < co_cost (options_of l)" "co_cost (options_of l) \<le> bs_capacity (co_size (options_of l))"
    "tl_clock l = None"
    using assms(1) by (simp_all add: table_inv_def size_ok_def l_def)
  have x: "row_level (co_size (options_of l)) (clock_at (options_of l) now) (jsget tbl (tr_scope tr, bucket_name l k)) = x"
    using a(3) by (simp add: x_def table_level_def own_row_def db l_def)
  note c = charge_bucket_level [OF a(1,2), where t = "tr_scope tr" and key = "bucket_name l k" and tbl = tbl
    and stmt = now and longest = lg, unfolded x]
  show ?thesis
    using a(3) decision_of_spec [of x _ l] by (auto simp: take_tenant_def db c)
qed

lemma peek_tenant_level:
  fixes k :: string
  assumes "table_inv now tr"
  defines "x \<equiv> table_level now tr k" and "l \<equiv> tr_limiter tr"
  shows "peek_tenant l (tr_scope tr) now k (tr_db tr) =
    Inr ((register_bucket (tl_size l) (fst (tr_db tr)), snd (tr_db tr)), spec_answer (tl_size l) x)"
proof -
  obtain lg tbl where db: "tr_db tr = (lg, tbl)" by (cases "tr_db tr")
  have a: "1 \<le> bs_capacity (tl_size l)" "tl_clock l = None"
    using assms(1) by (simp_all add: table_inv_def size_ok_def l_def)
  have x: "(case held_tokens (tr_scope tr) (bucket_name l k) (options_of l) now tbl of Some h \<Rightarrow> h
      | None \<Rightarrow> bs_capacity (co_size (options_of l))) = x"
    using a(2) by (auto simp: held_tokens_level x_def table_level_def own_row_def db l_def)
  show ?thesis
    using a x decision_of_spec [of x x l]
    by (auto simp: peek_tenant_def peek_bucket_def db params_of_def Let_def)
qed

subsection \<open>Sweeps and the charges of others\<close>

lemma register_bucket_ge: "longest \<le> register_bucket sz longest"
  by (simp add: register_bucket_def)

lemma sweep_row:
  "jsmap_ok tbl \<Longrightarrow> jsget (sweep_buckets t age now tbl) (t', k) =
     (case jsget tbl (t', k) of None \<Rightarrow> None
      | Some b \<Rightarrow> if t' = t \<and> br_updated b < now - of_int age then None else Some b)"
  by (auto simp: sweep_buckets_def map_of_filter_distinct split: option.split)

text \<open>A row a sweep removes is full, because the age is at least the limiter's refill from empty.\<close>

lemma swept_row_full:
  assumes "size_ok sz" "row_ok sz now (Some b)" "br_updated b < now - of_int age"
    and "\<lceil>bs_capacity sz / bs_refill sz\<rceil> \<le> age"
  shows "row_level sz now (Some b) = bs_capacity sz"
proof (rule row_level_full [OF assms(1,2)])
  have "bs_capacity sz / bs_refill sz \<le> of_int age" using assms(4) by (simp add: ceiling_le_iff)
  also have "\<dots> \<le> now - br_updated b" using assms(3) by simp
  finally have "bs_capacity sz \<le> (now - br_updated b) * bs_refill sz"
    using assms(1) by (simp add: size_ok_def pos_divide_le_eq)
  then show "bs_capacity sz \<le> br_tokens b + (now - br_updated b) * bs_refill sz"
    using assms(2) by (simp add: row_ok_def)
qed

lemma charge_bucket_db:
  assumes "charge_bucket t key o1 now tbl (lg, tbl) = Inr (db, c)" "jsmap_ok tbl"
  shows "lg \<le> fst db \<and> jsmap_ok (snd db) \<and> (\<forall>tk. tk \<noteq> (t, key) \<longrightarrow> jsget (snd db) tk = jsget tbl tk)"
  using assms register_bucket_ge
  by (auto simp: charge_bucket_def params_of_def bind_result_Inr_iff jsmap_simps Let_def
      split: option.splits if_splits)

definition upkept :: "tenant_run \<Rightarrow> upkeep \<Rightarrow> rat \<Rightarrow> tenant_run" where
  "upkept tr u now = tr\<lparr>tr_db := upkeep_db u now (tr_db tr)\<rparr>"

lemma upkept_row:
  assumes "table_inv now tr" "table_fits tr (Upkeep u)"
  shows "own_row (upkept tr u now) k = own_row tr k \<or>
    own_row (upkept tr u now) k = None \<and> table_level now tr k = bs_capacity (tr_size tr)"
proof -
  obtain lg tbl where db: "tr_db tr = (lg, tbl)" by (cases "tr_db tr")
  note a = assms(1) [unfolded table_inv_def db fst_conv snd_conv]
  show ?thesis
  proof (cases u)
    case (Sweep_unit t)
    have age: "\<lceil>bs_capacity (tr_size tr) / bs_refill (tr_size tr)\<rceil> \<le> sweep_age_ms lg"
      using a by (simp add: sweep_age_ms_def max.coboundedI2)
    show ?thesis
    proof (cases "own_row tr k")
      case (Some b)
      have ok: "row_ok (tr_size tr) now (Some b)" using a Some by (metis (no_types))
      show ?thesis
        using Sweep_unit a Some swept_row_full [OF _ ok _ age]
        by (auto simp: upkept_def upkeep_db_def own_row_def db sweep_row table_level_def)
    qed (use Sweep_unit a in \<open>simp add: upkept_def upkeep_db_def own_row_def db sweep_row\<close>)
  next
    case (Charge_of t key o1)
    show ?thesis
    proof (cases "charge_bucket t key o1 now tbl (lg, tbl)")
      case (Inr p)
      obtain db' c where p: "p = (db', c)" by (cases p)
      have "(tr_scope tr, bucket_name (tr_limiter tr) k) \<noteq> (t, key)"
        using assms(2) Charge_of by (auto simp: table_fits_def)
      then show ?thesis
        using charge_bucket_db [OF Inr [unfolded p]] a Charge_of Inr p
        by (auto simp: upkept_def upkeep_db_def own_row_def db)
    qed (use Charge_of in \<open>simp add: upkept_def upkeep_db_def own_row_def db\<close>)
  qed (simp add: upkept_def upkeep_db_def own_row_def)
qed

lemma upkept_db:
  assumes "table_inv now tr"
  shows "fst (tr_db tr) \<le> fst (tr_db (upkept tr u now)) \<and> jsmap_ok (snd (tr_db (upkept tr u now)))"
proof -
  obtain lg tbl where db: "tr_db tr = (lg, tbl)" by (cases "tr_db tr")
  have ok: "jsmap_ok tbl" using assms by (simp add: table_inv_def db)
  show ?thesis
  proof (cases u)
    case (Charge_of t key o1)
    then show ?thesis using charge_bucket_db [of t key o1 now tbl lg] ok
      by (auto simp: upkept_def upkeep_db_def db split: sum.split)
  qed (use ok register_bucket_ge in \<open>auto simp: upkept_def upkeep_db_def db sweep_buckets_def distinct_keys_filter\<close>)
qed

lemma upkept_keeps:
  assumes "table_inv now tr" "table_fits tr (Upkeep u)"
  shows "table_inv now (upkept tr u now) \<and> table_level now (upkept tr u now) = table_level now tr"
proof -
  have c: "tr_limiter (upkept tr u now) = tr_limiter tr" by (simp add: upkept_def)
  note a = assms(1) [unfolded table_inv_def]
  have "row_ok (tr_size tr) now (own_row (upkept tr u now) k)
      \<and> row_level (tr_size tr) now (own_row (upkept tr u now) k) = table_level now tr k" for k
    using upkept_row [OF assms, of k] a by (auto simp: table_level_def)
  then show ?thesis
    using a upkept_db [OF assms(1), of u] by (auto simp: table_inv_def table_level_def c fun_eq_iff)
qed

lemma table_store:
  fixes k :: string
  assumes "table_inv now tr" "0 \<le> x" "x \<le> bs_capacity (tr_size tr)" "fst (tr_db tr) \<le> lg"
  defines "tr' \<equiv> tr\<lparr>tr_db := (lg, jsset (snd (tr_db tr)) (tr_scope tr, bucket_name (tr_limiter tr) k)
                                  \<lparr>br_tokens = x, br_updated = now\<rparr>)\<rparr>"
  shows "table_inv now tr' \<and> table_level now tr' = (table_level now tr)(k := x)"
proof -
  note a = assms(1) [unfolded table_inv_def]
  have r: "own_row tr' j = (if j = k then Some \<lparr>br_tokens = x, br_updated = now\<rparr> else own_row tr j)" for j
    by (simp add: own_row_def tr'_def jsmap_simps)
  have c: "tr_limiter tr' = tr_limiter tr" "fst (tr_db tr') = lg" "jsmap_ok (snd (tr_db tr'))"
    using a by (simp_all add: tr'_def jsmap_simps)
  show ?thesis
    using a assms(2-4) by (auto simp: table_inv_def table_level_def c r row_ok_def row_level_spent fun_eq_iff)
qed

lemma table_register:
  "table_inv now tr \<Longrightarrow> fst (tr_db tr) \<le> lg \<Longrightarrow>
   table_inv now (tr\<lparr>tr_db := (lg, snd (tr_db tr))\<rparr>) \<and>
   table_level now (tr\<lparr>tr_db := (lg, snd (tr_db tr))\<rparr>) = table_level now tr"
  by (auto simp: table_inv_def table_level_def own_row_def fun_eq_iff)

text \<open>What each operation does to the levels, at the moment it reads.\<close>

lemma table_op:
  assumes "table_inv now tr" "table_fits tr p" "table_step tr (now, later, p) = (tr', d)"
  shows "table_inv now tr' \<and> tr_limiter tr' = tr_limiter tr \<and> tr_scope tr' = tr_scope tr \<and>
    spec_op (tr_size tr) p (table_level now tr) = (table_level now tr', d)"
proof (cases p)
  case (Take k)
  note b = table_level_bounds [OF assms(1), of k] and g = register_bucket_ge [of "fst (tr_db tr)" "tr_size tr"]
  note st = table_store [OF assms(1) _ _ g, of "table_level now tr k - 1" k] and rg = table_register [OF assms(1) g]
  show ?thesis
    using assms(3) Take b st rg
    by (auto simp: table_step_def take_tenant_level [OF assms(1)] split: if_splits)
next
  case (Peek k)
  note g = register_bucket_ge [of "fst (tr_db tr)" "tr_size tr"]
  show ?thesis
    using assms(3) Peek table_register [OF assms(1) g]
    by (auto simp: table_step_def peek_tenant_level [OF assms(1)])
next
  case (Upkeep u)
  then show ?thesis
    using assms(2,3) upkept_keeps [OF assms(1), of u] by (auto simp: table_step_def upkept_def)
qed

interpretation table: token_limiter table_step table_inv tr_size table_level table_fits
proof
  fix tm tr now later and p :: "upkeep limit_op" and tr' d
  assume a: "table_inv tm tr" "tm \<le> now" "now \<le> later" "table_fits tr p" "table_step tr (now, later, p) = (tr', d)"
  have n: "table_inv now tr" using a(1,2) by (rule table_inv_later)
  note t = table_op [OF n a(4,5)]
  have n': "table_inv now tr'" using t by blast
  show "table_inv later tr' \<and> tr_size tr' = tr_size tr \<and> table_fits tr' = table_fits tr"
    using t table_inv_later [OF n' a(3)] by (auto simp: table_fits_def fun_eq_iff split: limit_op.split upkeep.split)
  show "spec_step (tr_size tr) (tm, table_level tm tr) (now, later, p) = ((later, table_level later tr'), d)"
    using t by (simp add: spec_step_op table_level_later [OF a(1,2), symmetric] table_level_later [OF n' a(3)])
qed (simp_all add: table_level_bounds, simp add: table_inv_def)

section \<open>Properties\<close>

text \<open>A limiter as it is built, over a table that has no row of it.\<close>

definition start_run :: "string \<Rightarrow> bucket_size \<Rightarrow> string \<Rightarrow> int \<Rightarrow> buckets \<Rightarrow> tenant_run" where
  "start_run name sz scope lg tbl =
     (case new_tenant_limiter name sz None lg of (lg', l) \<Rightarrow>
       \<lparr>tr_limiter = l, tr_scope = scope, tr_db = (lg', tbl)\<rparr>)"

definition no_rows_of :: "string \<Rightarrow> string \<Rightarrow> buckets \<Rightarrow> bool" where
  "no_rows_of name scope tbl \<longleftrightarrow>
     list_all (\<lambda>((t, key), b). \<not> (t = scope \<and> take (Suc (length name)) key = name @ ''/'')) tbl"

lemma start_run_row:
  assumes "no_rows_of name scope tbl"
  shows "own_row (start_run name sz scope lg tbl) k = None"
proof -
  let ?l = "\<lparr>tl_name = name, tl_size = sz, tl_clock = None\<rparr>"
  have "(scope, bucket_name ?l k) \<notin> fst ` set tbl"
    using assms bucket_name_prefix [of ?l k] by (fastforce simp: no_rows_of_def list_all_iff)
  then show ?thesis
    by (simp add: own_row_def start_run_def new_tenant_limiter_def map_of_eq_None_iff)
qed

lemma start_run_ok:
  assumes "size_ok sz" "jsmap_ok tbl" "no_rows_of name scope tbl"
  shows "table_inv tm (start_run name sz scope lg tbl) \<and> tr_size (start_run name sz scope lg tbl) = sz \<and>
    table_level tm (start_run name sz scope lg tbl) = (\<lambda>k. bs_capacity sz)"
  using assms start_run_row [OF assms(3), of sz lg]
  by (auto simp: table_inv_def table_level_def fun_eq_iff start_run_def new_tenant_limiter_def register_bucket_def)

lemma new_memory_ok:
  "size_ok sz \<Longrightarrow> memory_inv tm (new_rate_limiter sz) \<and> rl_size (new_rate_limiter sz) = sz \<and>
   memory_level tm (new_rate_limiter sz) = (\<lambda>k. bs_capacity sz)"
  by (simp add: memory_inv_def memory_level_def new_rate_limiter_def fun_eq_iff)


definition ex_size :: bucket_size where
  "ex_size = \<lparr>bs_capacity = 1, bs_refill = 1 / 1000\<rparr>"

definition ex_ops :: "upkeep timed_op list" where
  "ex_ops = [(0, 0, Take ''a''), (10, 10, Upkeep (Charge_of ''t2'' ''n/a'' \<lparr>co_size = ex_size, co_cost = 1, co_at = None\<rparr>)),
             (20, 20, Take ''a''), (4000000, 4000000, Upkeep (Sweep_unit ''t'')), (4000000, 4000001, Take ''a'')]"

lemma ex_ops_fit:
  "list_all (\<lambda>(now, later, p). table_fits (start_run ''n'' ex_size ''t'' 0 []) p) ex_ops \<and> in_order 0 ex_ops
   \<and> size_ok ex_size \<and> no_rows_of ''n'' ''t'' []"
  by (simp add: ex_ops_def table_fits_def start_run_def new_tenant_limiter_def ex_size_def size_ok_def no_rows_of_def)




text \<open>What a refused charge says of the future: its retry time is at least a millisecond; a charge of the same cost
  made that many milliseconds later, or later still, is taken if nobody spent the bucket in between; and
  one made a millisecond or more before that moment is refused.
\<close>

theorem retry_time_is_exact:
  assumes "row_ok (co_size o1) now (jsget tbl (t, key))" "0 < co_cost o1" "co_cost o1 \<le> bs_capacity (co_size o1)"
    and "0 < bs_refill (co_size o1)" "co_at o1 = None"
    and "charge_bucket t key o1 now tbl (lg, tbl) = Inr (s, c)" "\<not> ch_ok c"
  shows "ch_retry_ms c \<ge> 1
    \<and> (now + of_int (ch_retry_ms c) \<le> tm \<longrightarrow>
        (\<exists>s' c'. charge_bucket t key o1 tm (snd s) s = Inr (s', c') \<and> ch_ok c'))
    \<and> (now \<le> tm \<and> tm \<le> now + of_int (ch_retry_ms c - 1) \<longrightarrow>
        (\<exists>c'. charge_bucket t key o1 tm (snd s) s = Inr (s, c') \<and> \<not> ch_ok c'))"
proof -
  define x where "x = row_level (co_size o1) now (jsget tbl (t, key))"
  define r where "r = bs_refill (co_size o1)"
  have clk: "clock_at o1 m = m" for m by (simp add: clock_at_def assms(5))
  have ch: "s = (register_bucket (co_size o1) lg, tbl)" "c = \<lparr>ch_ok = False, ch_tokens = x, ch_retry_ms = retry_after x o1\<rparr>"
    and low: "x < co_cost o1"
    using assms(6,7) charge_bucket_level [OF assms(2,3), of t key now tbl lg] by (auto simp: clk x_def split: if_splits)
  have rr: "register_bucket (co_size o1) (register_bucket (co_size o1) lg) = register_bucket (co_size o1) lg"
    by (simp add: register_bucket_def)
  obtain b where b: "jsget tbl (t, key) = Some b"
    using low assms(3) by (cases "jsget tbl (t, key)") (auto simp: x_def)
  have up: "br_updated b \<le> now" using assms(1) b by (simp add: row_ok_def)
  have lv: "row_level (co_size o1) m (jsget tbl (t, key)) = min (bs_capacity (co_size o1)) (x + (m - now) * r)"
    if "now \<le> m" for m
  proof -
    have "x < bs_capacity (co_size o1)" using low assms(3) by simp
    then have "x = br_tokens b + (now - br_updated b) * r"
      using up by (simp add: x_def b row_level_Some fill_def r_def min_def split: if_splits)
    then show ?thesis using that up by (simp add: b row_level_Some fill_def r_def algebra_simps)
  qed
  have ceil: "co_cost o1 \<le> x + of_int n * r \<longleftrightarrow> \<lceil>(co_cost o1 - x) / r\<rceil> \<le> n" for n
    using assms(4) by (simp add: ceiling_le_iff pos_divide_le_eq r_def [symmetric] algebra_simps)
  have retry: "retry_after x o1 = max 1 \<lceil>(co_cost o1 - x) / r\<rceil>" by (simp add: retry_after_def r_def)
  have pos: "0 < (co_cost o1 - x) / r" using low assms(4) by (simp add: r_def)
  then have one: "\<lceil>(co_cost o1 - x) / r\<rceil> \<ge> 1" by simp
  have taken: "\<exists>s' c'. charge_bucket t key o1 tm (snd s) s = Inr (s', c') \<and> ch_ok c'"
    if "now + of_int (retry_after x o1) \<le> tm"
  proof -
    have "co_cost o1 \<le> x + of_int (retry_after x o1) * r" by (simp add: ceil retry)
    also have "\<dots> \<le> x + (tm - now) * r" using that assms(4) by (simp add: r_def)
    finally have e: "co_cost o1 \<le> x + (tm - now) * r" .
    have "(0 :: rat) \<le> of_int (retry_after x o1)" unfolding retry using one by (simp only: of_int_0_le_iff)
    then have "now \<le> tm" using that by linarith
    then have "co_cost o1 \<le> row_level (co_size o1) tm (jsget tbl (t, key))"
      using lv [of tm] e assms(3) by simp
    then show ?thesis using charge_bucket_level [OF assms(2,3), of t key tm tbl] by (simp add: ch clk)
  qed
  have refused: "\<exists>c'. charge_bucket t key o1 tm (snd s) s = Inr (s, c') \<and> \<not> ch_ok c'"
    if "now \<le> tm" "tm \<le> now + of_int (retry_after x o1 - 1)"
  proof -
    have "x + (tm - now) * r \<le> x + of_int (retry_after x o1 - 1) * r" using that(2) assms(4) by (simp add: r_def)
    also have "\<dots> < co_cost o1" using ceil [of "retry_after x o1 - 1"] one by (auto simp: retry max_def not_le [symmetric])
    finally have "\<not> co_cost o1 \<le> row_level (co_size o1) tm (jsget tbl (t, key))"
      using lv [OF that(1)] by (simp add: min_def)
    then show ?thesis using charge_bucket_level [OF assms(2,3), of t key tm tbl] by (simp add: ch clk rr)
  qed
  show ?thesis using taken refused by (auto simp: ch retry)
qed

definition ex_row_tbl :: buckets where
  "ex_row_tbl = [((''t'', ''k''), \<lparr>br_tokens = 0, br_updated = 0\<rparr>)]"

definition ex_options :: charge_options where
  "ex_options = \<lparr>co_size = ex_size, co_cost = 1, co_at = None\<rparr>"

lemma ex_charge:
  "charge_bucket ''t'' ''k'' ex_options 1 ex_row_tbl (0, ex_row_tbl)
   = Inr ((1000, ex_row_tbl), \<lparr>ch_ok = False, ch_tokens = 1 / 1000, ch_retry_ms = 999\<rparr>)"
  by (simp add: charge_bucket_def ex_options_def ex_size_def params_of_def charged_row_def held_tokens_def
        ex_row_tbl_def refilled_def clock_at_def register_bucket_def retry_after_def)

lemma retry_time_is_exact_witness:
  "(\<exists>s' c'. charge_bucket ''t'' ''k'' ex_options 1000 ex_row_tbl (1000, ex_row_tbl) = Inr (s', c') \<and> ch_ok c')
   \<and> (\<exists>c'. charge_bucket ''t'' ''k'' ex_options 999 ex_row_tbl (1000, ex_row_tbl) = Inr ((1000, ex_row_tbl), c') \<and> \<not> ch_ok c')"
proof -
  have h: "row_ok (co_size ex_options) 1 (jsget ex_row_tbl (''t'', ''k''))" "0 < co_cost ex_options"
    "co_cost ex_options \<le> bs_capacity (co_size ex_options)" "0 < bs_refill (co_size ex_options)" "co_at ex_options = None"
    by (simp_all add: ex_row_tbl_def ex_options_def ex_size_def row_ok_def)
  note r = retry_time_is_exact [OF h ex_charge, simplified]
  show ?thesis using r [of 1000] r [of 999] by simp
qed

text \<open>
  Timestamps that do run backwards: a statement that got its timestamp first and the row's lock second puts
  the bucket's last spend back, and the time between the two refills it twice.
\<close>

lemma late_lock_refills_twice:
  "(let o1 = \<lparr>co_size = \<lparr>bs_capacity = 2, bs_refill = 1 / 1000\<rparr>, co_cost = 1, co_at = None\<rparr>;
        charge_at = (\<lambda>now s. case charge_bucket ''t'' ''k'' o1 now (snd s) s of Inr (s', c) \<Rightarrow> (s', ch_ok c) | Inl e \<Rightarrow> (s, False));
        (s1, b1) = charge_at 0 (0, []); (s2, b2) = charge_at 1000 s1;
        (s3, b3) = charge_at 0 s2; (s4, b4) = charge_at 1000 s3
    in [b1, b2, b3, b4]) = [True, True, True, True]"
  by (simp add: charge_bucket_def params_of_def charged_row_def refilled_def clock_at_def register_bucket_def)

end
