(* ===== verification/Teams.thy ===== *)
theory Teams
  imports Text Machine
begin

text \<open>
  Teams, memberships, workspaces and grants of the server (\<^verbatim>\<open>packages/server/src/teams/\<close>): the tables with the
  statements of \<^verbatim>\<open>repo.ts\<close> and the keys and foreign keys of their migrations, the rule of \<^verbatim>\<open>roles.ts\<close> that turns
  them into a role with its guards, and the handlers under \<^verbatim>\<open>routes/\<close>. A handler is split where the code is:
  the guard reads the database first and the handler's transaction runs on whatever the database is by then,
  so the guard's answer is an argument of the handler. The tables are one tenant's. The columns that hold a
  time are left out: no decision reads them. \<open>lc\<close> is the database's \<^verbatim>\<open>lower\<close>, \<open>ck\<close> the key its collation sorts by.
\<close>

section \<open>Strings\<close>

text \<open>\<^verbatim>\<open>toLowerCase\<close> on code units below 256.\<close>

definition js_lower :: "string \<Rightarrow> string" where
  "js_lower s = map (\<lambda>c. let n = of_char c :: nat in
     if 65 \<le> n \<and> n \<le> 90 \<or> 192 \<le> n \<and> n \<le> 222 \<and> n \<noteq> 215 then char_of (n + 32) else c) s"

definition email_lower :: "string \<Rightarrow> string" where
  "email_lower email = js_lower (js_trim email)"

section \<open>Roles\<close>

datatype team_role = Team_member | Team_admin

datatype workspace_role = Viewer | Editor | Ws_admin

datatype default_role = Default_none | Default_viewer | Default_editor

datatype role_source = From_server_admin | From_team_admin | From_grant | From_default

datatype effective = No_role | Has_role workspace_role role_source

record role_facts =
  rf_disabled :: bool
  rf_server_admin :: bool
  rf_team_role :: "team_role option"
  rf_grant :: "workspace_role option"
  rf_default :: default_role

definition resolve_role :: "role_facts \<Rightarrow> effective" where
  "resolve_role f =
     (if rf_disabled f then No_role
      else if rf_server_admin f then Has_role Ws_admin From_server_admin
      else if rf_team_role f = Some Team_admin then Has_role Ws_admin From_team_admin
      else if rf_team_role f = None then No_role
      else (case rf_grant f of
          Some r \<Rightarrow> Has_role r From_grant
        | None \<Rightarrow> (case rf_default f of
              Default_none \<Rightarrow> No_role
            | Default_viewer \<Rightarrow> Has_role Viewer From_default
            | Default_editor \<Rightarrow> Has_role Editor From_default)))"

fun rank :: "workspace_role \<Rightarrow> nat" where
  "rank Viewer = 1"
| "rank Editor = 2"
| "rank Ws_admin = 3"

definition at_least :: "workspace_role \<Rightarrow> workspace_role \<Rightarrow> bool" where
  "at_least r least = (rank r \<ge> rank least)"

section \<open>Tables\<close>

record user_row =
  us_email :: string
  us_lower :: string
  us_display :: string
  us_disabled :: bool
  us_server_admin :: bool

record workspace_row =
  ws_name :: string
  ws_team :: string
  ws_default :: default_role
  ws_desktop :: bool
  ws_session_logs :: bool
  ws_features_off :: "string list"
  ws_created_by :: "string option"

record scim_group_row =
  sg_display :: string
  sg_external :: "string option"
  sg_team :: "string option"

datatype actor = By_user string | By_ci | By_scim | By_system

datatype audit =
    Team_created string string
  | Team_renamed string string string
  | Team_deleted string "string option"
  | Member_added string string team_role
  | Member_invited string string team_role string
  | Member_provisioned string string string
  | Member_role_changed string string team_role team_role
  | Member_removed string string team_role bool
  | Member_deprovisioned string string team_role string
  | Workspace_created string string string default_role
  | Workspace_renamed string string string
  | Default_role_changed string default_role default_role
  | Desktop_recording_changed string bool bool
  | Session_logs_changed string bool bool
  | Features_changed string "string list" "string list"
  | Workspace_deleted string "string option" "string option"
  | Grant_set string string workspace_role "string option"
  | Grant_removed string string workspace_role
  | Group_linked string string string
  | Group_unlinked string string string
  | Group_created string string nat
  | Group_updated string "string option" string "string list" nat nat
  | Group_deleted string "string option" string

text \<open>\<open>tb_repos\<close> are the workspaces whose repository is on disk.\<close>

record tables =
  tb_users :: "(string, user_row) jsmap"
  tb_teams :: "(string, string) jsmap"
  tb_members :: "(string \<times> string, team_role) jsmap"
  tb_workspaces :: "(string, workspace_row) jsmap"
  tb_grants :: "(string \<times> string, workspace_role) jsmap"
  tb_invites :: "(string, string \<times> team_role) jsmap"
  tb_groups :: "(string, scim_group_row) jsmap"
  tb_group_members :: "(string \<times> string) list"
  tb_provisioned :: "(string \<times> string \<times> string) list"
  tb_audits :: "(actor \<times> audit) list"
  tb_repos :: "string list"

datatype problem =
    Unauthenticated | Identity_forbidden | Ci_forbidden
  | Team_not_found | Workspace_not_found | Teams_forbidden
  | Name_taken | Name_invalid | Not_empty | User_unknown | Already_member | Member_not_found | Last_admin
  | Workspace_exists | Workspace_name_taken | Not_a_member | Feature_required
  | Scim_group_not_found | Scim_no_user string | Scim_uniqueness
  | Repo_exists | Repo_failed | Commit_failed | Internal_error
  | Unique_violation string | Foreign_violation string

definition MAX_TEAMS_NAME_LENGTH :: nat where
  "MAX_TEAMS_NAME_LENGTH = 80"

definition clean_name :: "string \<Rightarrow> (problem, string) result" where
  "clean_name raw =
     (let name = js_trim raw in
      if length name = 0 \<or> length name > MAX_TEAMS_NAME_LENGTH then Inl Name_invalid else Inr name)"

definition record_audit :: "actor \<Rightarrow> audit \<Rightarrow> tables \<Rightarrow> tables" where
  "record_audit who a tb = tb\<lparr>tb_audits := tb_audits tb @ [(who, a)]\<rparr>"

section \<open>Statements\<close>

subsection \<open>Teams and members\<close>

definition insert_team :: "(string \<Rightarrow> string) \<Rightarrow> string \<Rightarrow> string \<Rightarrow> tables \<Rightarrow> (problem, tables) result" where
  "insert_team lc tid name tb =
     (if jshas (tb_teams tb) tid then Inl (Unique_violation ''teams_pkey'')
      else if list_ex (\<lambda>(t, n). lc n = lc name) (tb_teams tb) then Inl (Unique_violation ''teams_name_lower'')
      else Inr (tb\<lparr>tb_teams := jsset (tb_teams tb) tid name\<rparr>))"

text \<open>An update that meets no row answers no row, and the caller reads the first one.\<close>

definition rename_team :: "(string \<Rightarrow> string) \<Rightarrow> string \<Rightarrow> string \<Rightarrow> tables \<Rightarrow> (problem, tables) result" where
  "rename_team lc tid name tb =
     (if \<not> jshas (tb_teams tb) tid then Inl Internal_error
      else if list_ex (\<lambda>(t, n). t \<noteq> tid \<and> lc n = lc name) (tb_teams tb) then Inl (Unique_violation ''teams_name_lower'')
      else Inr (tb\<lparr>tb_teams := jsset (tb_teams tb) tid name\<rparr>))"

definition team_has_workspaces :: "string \<Rightarrow> tables \<Rightarrow> bool" where
  "team_has_workspaces tid tb = list_ex (\<lambda>(w, row). ws_team row = tid) (tb_workspaces tb)"

text \<open>
  The keys that reference the team: workspaces restrict, members and invitations go with it, a member's provisioned
  rows go with the member, and a linked group is unlinked.
\<close>

definition delete_team :: "string \<Rightarrow> tables \<Rightarrow> (problem, tables) result" where
  "delete_team tid tb =
     (if team_has_workspaces tid tb then Inl (Foreign_violation ''workspaces_team_id_fkey'')
      else Inr (tb\<lparr>tb_teams := jsdelete (tb_teams tb) tid,
                   tb_members := filter (\<lambda>((t, u), r). t \<noteq> tid) (tb_members tb),
                   tb_invites := filter (\<lambda>(i, (t, r)). t \<noteq> tid) (tb_invites tb),
                   tb_groups := map (\<lambda>(g, row). (g, if sg_team row = Some tid then row\<lparr>sg_team := None\<rparr> else row))
                                  (tb_groups tb),
                   tb_provisioned := filter (\<lambda>(t, u, g). t \<noteq> tid) (tb_provisioned tb)\<rparr>))"

definition all_teams :: "(string \<Rightarrow> string) \<Rightarrow> (string \<Rightarrow> string) \<Rightarrow> tables \<Rightarrow> (string \<times> string) list" where
  "all_teams lc ck tb = sort_key (\<lambda>(t, n). ck (lc n)) (tb_teams tb)"

definition teams_of_user ::
    "(string \<Rightarrow> string) \<Rightarrow> (string \<Rightarrow> string) \<Rightarrow> string \<Rightarrow> tables \<Rightarrow> (string \<times> string \<times> team_role) list" where
  "teams_of_user lc ck uid tb =
     sort_key (\<lambda>(t, n, r). ck (lc n))
       (List.map_filter (\<lambda>(t, n). map_option (\<lambda>r. (t, n, r)) (jsget (tb_members tb) (t, uid))) (tb_teams tb))"

definition member_role :: "tables \<Rightarrow> string \<Rightarrow> string \<Rightarrow> team_role option" where
  "member_role tb tid uid = jsget (tb_members tb) (tid, uid)"

text \<open>\<open>False\<close> when the user is on the team already.\<close>

definition insert_member ::
    "string \<Rightarrow> string \<Rightarrow> team_role \<Rightarrow> tables \<Rightarrow> (problem, tables \<times> bool) result" where
  "insert_member tid uid role tb =
     (if member_role tb tid uid \<noteq> None then Inr (tb, False)
      else if \<not> jshas (tb_teams tb) tid then Inl (Foreign_violation ''team_members_team_id_fkey'')
      else if \<not> jshas (tb_users tb) uid then Inl (Foreign_violation ''team_members_user_id_fkey'')
      else Inr (tb\<lparr>tb_members := jsset (tb_members tb) (tid, uid) role\<rparr>, True))"

definition set_member_role :: "string \<Rightarrow> string \<Rightarrow> team_role \<Rightarrow> tables \<Rightarrow> tables" where
  "set_member_role tid uid role tb =
     (if member_role tb tid uid = None then tb
      else tb\<lparr>tb_members := jsset (tb_members tb) (tid, uid) role\<rparr>)"

definition delete_member :: "string \<Rightarrow> string \<Rightarrow> tables \<Rightarrow> tables" where
  "delete_member tid uid tb =
     tb\<lparr>tb_members := jsdelete (tb_members tb) (tid, uid),
        tb_provisioned := filter (\<lambda>(t, u, g). \<not> (t = tid \<and> u = uid)) (tb_provisioned tb)\<rparr>"

definition count_admins :: "string \<Rightarrow> tables \<Rightarrow> nat" where
  "count_admins tid tb = length (filter (\<lambda>((t, u), r). t = tid \<and> r = Team_admin) (tb_members tb))"

definition delete_grants_in_team :: "string \<Rightarrow> string \<Rightarrow> tables \<Rightarrow> tables" where
  "delete_grants_in_team tid uid tb =
     tb\<lparr>tb_grants := filter (\<lambda>((w, u), r). \<not> (u = uid \<and>
          map_option ws_team (jsget (tb_workspaces tb) w) = Some tid)) (tb_grants tb)\<rparr>"

definition list_members ::
    "(string \<Rightarrow> string) \<Rightarrow> (string \<Rightarrow> string) \<Rightarrow> string \<Rightarrow> tables \<Rightarrow> (string \<times> user_row \<times> team_role) list" where
  "list_members lc ck tid tb =
     sort_key (\<lambda>(u, row, r). ck (lc (us_email row)))
       (List.map_filter (\<lambda>((t, u), r). if t = tid then map_option (\<lambda>row. (u, row, r)) (jsget (tb_users tb) u) else None)
          (tb_members tb))"

definition find_user_by_email :: "string \<Rightarrow> tables \<Rightarrow> string option" where
  "find_user_by_email lower tb = map_option fst (List.find (\<lambda>(u, row). us_lower row = lower) (tb_users tb))"

subsection \<open>Team invitations\<close>

definition insert_team_invitation :: "string \<Rightarrow> string \<Rightarrow> team_role \<Rightarrow> tables \<Rightarrow> (problem, tables) result" where
  "insert_team_invitation iid tid role tb =
     (if jshas (tb_invites tb) iid then Inl (Unique_violation ''team_invitations_pkey'')
      else if \<not> jshas (tb_teams tb) tid then Inl (Foreign_violation ''team_invitations_team_id_fkey'')
      else Inr (tb\<lparr>tb_invites := jsset (tb_invites tb) iid (tid, role)\<rparr>))"

definition team_invitation_of :: "string \<Rightarrow> tables \<Rightarrow> (string \<times> team_role) option" where
  "team_invitation_of iid tb = jsget (tb_invites tb) iid"

subsection \<open>Workspaces and grants\<close>

definition insert_workspace ::
    "(string \<Rightarrow> string) \<Rightarrow> string \<Rightarrow> string \<Rightarrow> string \<Rightarrow> default_role \<Rightarrow> string option \<Rightarrow> tables \<Rightarrow> (problem, tables) result" where
  "insert_workspace lc wid name tid dflt by tb =
     (if jshas (tb_workspaces tb) wid then Inl (Unique_violation ''workspaces_pkey'')
      else if list_ex (\<lambda>(w, row). ws_team row = tid \<and> lc (ws_name row) = lc name) (tb_workspaces tb)
      then Inl (Unique_violation ''workspaces_team_name_lower'')
      else if \<not> jshas (tb_teams tb) tid then Inl (Foreign_violation ''workspaces_team_id_fkey'')
      else Inr (tb\<lparr>tb_workspaces := jsset (tb_workspaces tb) wid
                    \<lparr>ws_name = name, ws_team = tid, ws_default = dflt, ws_desktop = False, ws_session_logs = False,
                     ws_features_off = [], ws_created_by = by\<rparr>\<rparr>))"

record workspace_patch =
  wp_name :: "string option"
  wp_default :: "default_role option"
  wp_desktop :: "bool option"
  wp_session_logs :: "bool option"
  wp_features_off :: "string list option"

definition coalesce :: "'a option \<Rightarrow> 'a \<Rightarrow> 'a" where
  "coalesce a b = (case a of Some x \<Rightarrow> x | None \<Rightarrow> b)"

definition normalize_disabled_features :: "string list \<Rightarrow> string list" where
  "normalize_disabled_features ids = sort (jsuniq ids)"

definition patched :: "workspace_patch \<Rightarrow> workspace_row \<Rightarrow> workspace_row" where
  "patched p row = row\<lparr>
     ws_name := coalesce (wp_name p) (ws_name row),
     ws_default := coalesce (wp_default p) (ws_default row),
     ws_desktop := coalesce (wp_desktop p) (ws_desktop row),
     ws_session_logs := coalesce (wp_session_logs p) (ws_session_logs row),
     ws_features_off := coalesce (map_option normalize_disabled_features (wp_features_off p)) (ws_features_off row)\<rparr>"

definition update_workspace ::
    "(string \<Rightarrow> string) \<Rightarrow> string \<Rightarrow> workspace_patch \<Rightarrow> tables \<Rightarrow> (problem, tables) result" where
  "update_workspace lc wid p tb =
     (case jsget (tb_workspaces tb) wid of
        None \<Rightarrow> Inr tb
      | Some row \<Rightarrow>
          if list_ex (\<lambda>(w, r). w \<noteq> wid \<and> ws_team r = ws_team row \<and> lc (ws_name r) = lc (ws_name (patched p row)))
               (tb_workspaces tb)
          then Inl (Unique_violation ''workspaces_team_name_lower'')
          else Inr (tb\<lparr>tb_workspaces := jsset (tb_workspaces tb) wid (patched p row)\<rparr>))"

definition delete_workspace :: "string \<Rightarrow> tables \<Rightarrow> tables" where
  "delete_workspace wid tb =
     tb\<lparr>tb_workspaces := jsdelete (tb_workspaces tb) wid,
        tb_grants := filter (\<lambda>((w, u), r). w \<noteq> wid) (tb_grants tb)\<rparr>"

text \<open>What \<^verbatim>\<open>resolveRole\<close> needs, from the joined rows; \<^verbatim>\<open>factsOf\<close> turns its nulls into absent values.\<close>

definition workspace_facts :: "string \<Rightarrow> string \<Rightarrow> tables \<Rightarrow> role_facts option" where
  "workspace_facts uid wid tb =
     (case (jsget (tb_workspaces tb) wid, jsget (tb_users tb) uid) of
        (Some w, Some u) \<Rightarrow> Some \<lparr>rf_disabled = us_disabled u, rf_server_admin = us_server_admin u,
                               rf_team_role = member_role tb (ws_team w) uid,
                               rf_grant = jsget (tb_grants tb) (wid, uid), rf_default = ws_default w\<rparr>
      | _ \<Rightarrow> None)"

definition effective_role :: "tables \<Rightarrow> string \<Rightarrow> string \<Rightarrow> effective" where
  "effective_role tb uid wid =
     (case workspace_facts uid wid tb of None \<Rightarrow> No_role | Some f \<Rightarrow> resolve_role f)"

definition visible_workspaces ::
    "(string \<Rightarrow> string) \<Rightarrow> (string \<Rightarrow> string) \<Rightarrow> string \<Rightarrow> bool \<Rightarrow> tables \<Rightarrow>
     (string \<times> workspace_row \<times> team_role option \<times> workspace_role option) list" where
  "visible_workspaces lc ck uid server_admin tb =
     map (\<lambda>(w, row). (w, row, member_role tb (ws_team row) uid, jsget (tb_grants tb) (w, uid)))
       (sort_key (\<lambda>(w, row). ck (lc (coalesce (jsget (tb_teams tb) (ws_team row)) [])))
         (sort_key (\<lambda>(w, row). ck (lc (ws_name row)))
           (filter (\<lambda>(w, row). jshas (tb_teams tb) (ws_team row) \<and>
                      (server_admin \<or> member_role tb (ws_team row) uid \<noteq> None)) (tb_workspaces tb))))"

record access_row =
  ar_user :: string
  ar_email :: string
  ar_display :: string
  ar_facts :: role_facts

definition access_rows :: "(string \<Rightarrow> string) \<Rightarrow> (string \<Rightarrow> string) \<Rightarrow> string \<Rightarrow> tables \<Rightarrow> access_row list" where
  "access_rows lc ck wid tb =
     (case jsget (tb_workspaces tb) wid of
        None \<Rightarrow> []
      | Some w \<Rightarrow>
          sort_key (\<lambda>a. ck (lc (ar_email a)))
            (List.map_filter (\<lambda>((t, u), r).
               if t \<noteq> ws_team w then None
               else map_option (\<lambda>row. \<lparr>ar_user = u, ar_email = us_email row, ar_display = us_display row,
                      ar_facts = \<lparr>rf_disabled = us_disabled row, rf_server_admin = us_server_admin row,
                                  rf_team_role = Some r, rf_grant = jsget (tb_grants tb) (wid, u),
                                  rf_default = ws_default w\<rparr>\<rparr>) (jsget (tb_users tb) u))
               (tb_members tb)))"

definition is_team_member_of_workspace :: "string \<Rightarrow> string \<Rightarrow> tables \<Rightarrow> bool" where
  "is_team_member_of_workspace wid uid tb =
     (case jsget (tb_workspaces tb) wid of None \<Rightarrow> False | Some w \<Rightarrow> member_role tb (ws_team w) uid \<noteq> None)"

definition upsert_grant :: "string \<Rightarrow> string \<Rightarrow> workspace_role \<Rightarrow> tables \<Rightarrow> (problem, tables) result" where
  "upsert_grant wid uid role tb =
     (if \<not> jshas (tb_workspaces tb) wid then Inl (Foreign_violation ''workspace_grants_workspace_id_fkey'')
      else if \<not> jshas (tb_users tb) uid then Inl (Foreign_violation ''workspace_grants_user_id_fkey'')
      else Inr (tb\<lparr>tb_grants := jsset (tb_grants tb) (wid, uid) role\<rparr>))"

definition delete_grant :: "string \<Rightarrow> string \<Rightarrow> tables \<Rightarrow> tables \<times> workspace_role option" where
  "delete_grant wid uid tb =
     (tb\<lparr>tb_grants := jsdelete (tb_grants tb) (wid, uid)\<rparr>, jsget (tb_grants tb) (wid, uid))"

section \<open>Guards\<close>

record caller =
  cl_id :: string
  cl_server_admin :: bool

text \<open>Who sent the request: nobody, a CI token of one workspace, or a user with the flags their token was read with.\<close>

datatype principal = Anonymous | Ci_caller string | User_caller caller

definition require_user :: "principal \<Rightarrow> (problem, caller) result" where
  "require_user p = (case p of User_caller c \<Rightarrow> Inr c | _ \<Rightarrow> Inl Unauthenticated)"

definition require_server_admin :: "principal \<Rightarrow> (problem, caller) result" where
  "require_server_admin p =
     (case p of User_caller c \<Rightarrow> if cl_server_admin c then Inr c else Inl Identity_forbidden | _ \<Rightarrow> Inl Unauthenticated)"

definition require_workspace_role ::
    "tables \<Rightarrow> principal \<Rightarrow> string \<Rightarrow> workspace_role \<Rightarrow> (problem, workspace_role \<times> role_source) result" where
  "require_workspace_role tb p wid least =
     (case p of
        Ci_caller w \<Rightarrow> if least \<noteq> Viewer \<or> w \<noteq> wid then Inl Ci_forbidden else Inr (Viewer, From_grant)
      | Anonymous \<Rightarrow> Inl Unauthenticated
      | User_caller c \<Rightarrow> (case effective_role tb (cl_id c) wid of
            No_role \<Rightarrow> Inl Workspace_not_found
          | Has_role r src \<Rightarrow> if \<not> at_least r least then Inl Teams_forbidden else Inr (r, src)))"

definition require_team_role :: "tables \<Rightarrow> principal \<Rightarrow> string \<Rightarrow> team_role \<Rightarrow> (problem, team_role) result" where
  "require_team_role tb p tid least =
     (case p of
        User_caller c \<Rightarrow>
          (let role = (if \<not> jshas (tb_teams tb) tid then None
                       else if cl_server_admin c then Some Team_admin else member_role tb tid (cl_id c)) in
           case role of
             None \<Rightarrow> Inl Team_not_found
           | Some r \<Rightarrow> if least = Team_admin \<and> r \<noteq> Team_admin then Inl Teams_forbidden else Inr r)
      | _ \<Rightarrow> Inl Unauthenticated)"

section \<open>Handlers\<close>

text \<open>
  What a handler leaves: the tables, the access changes it announced, and the problem it answered with, if any. A
  problem inside the transaction rolls it back; after the commit it does not.
\<close>

record access_change =
  an_team :: "string option"
  an_workspace :: "string option"
  an_user :: "string option"

type_synonym handled = "tables \<times> access_change list \<times> problem option"

abbreviation on_team :: "string \<Rightarrow> string \<Rightarrow> access_change" where
  "on_team tid uid \<equiv> \<lparr>an_team = Some tid, an_workspace = None, an_user = Some uid\<rparr>"

abbreviation on_workspace :: "string \<Rightarrow> access_change" where
  "on_workspace wid \<equiv> \<lparr>an_team = None, an_workspace = Some wid, an_user = None\<rparr>"

definition commit :: "tables \<Rightarrow> access_change list \<Rightarrow> (problem, tables) result \<Rightarrow> handled" where
  "commit tb ns r = (case r of Inr tb' \<Rightarrow> (tb', ns, None) | Inl p \<Rightarrow> (tb, [], Some p))"

definition name_taken_or :: "problem \<Rightarrow> problem" where
  "name_taken_or p = (if p = Unique_violation ''teams_name_lower'' then Name_taken else p)"

definition conflict_or :: "problem \<Rightarrow> problem" where
  "conflict_or p =
     (if p = Unique_violation ''workspaces_pkey'' then Workspace_exists
      else if p = Unique_violation ''workspaces_team_name_lower'' then Workspace_name_taken
      else if p = Repo_exists then Workspace_exists
      else p)"

fun catch :: "(problem \<Rightarrow> problem) \<Rightarrow> (problem, 'a) result \<Rightarrow> (problem, 'a) result" where
  "catch f (Inl p) = Inl (f p)"
| "catch f (Inr x) = Inr x"

subsection \<open>Teams\<close>

definition create_team :: "(string \<Rightarrow> string) \<Rightarrow> caller \<Rightarrow> string \<Rightarrow> string \<Rightarrow> tables \<Rightarrow> handled" where
  "create_team lc c tid raw tb =
     commit tb [] (bind_result (clean_name raw) (\<lambda>name.
       catch name_taken_or
         (bind_result (insert_team lc tid name tb) (\<lambda>tb1.
          bind_result (insert_member tid (cl_id c) Team_admin tb1) (\<lambda>(tb2, new).
          Inr (record_audit (By_user (cl_id c)) (Team_created tid name) tb2))))))"

definition rename_team_to :: "(string \<Rightarrow> string) \<Rightarrow> caller \<Rightarrow> string \<Rightarrow> string \<Rightarrow> tables \<Rightarrow> handled" where
  "rename_team_to lc c tid raw tb =
     commit tb [] (bind_result (clean_name raw) (\<lambda>name.
       catch name_taken_or
         (case jsget (tb_teams tb) tid of
            None \<Rightarrow> Inl Team_not_found
          | Some previous \<Rightarrow> bind_result (rename_team lc tid name tb) (\<lambda>tb1.
              Inr (if previous \<noteq> name then record_audit (By_user (cl_id c)) (Team_renamed tid name previous) tb1
                   else tb1)))))"

definition remove_team :: "caller \<Rightarrow> string \<Rightarrow> tables \<Rightarrow> handled" where
  "remove_team c tid tb =
     commit tb [] (catch (\<lambda>p. case p of Foreign_violation k \<Rightarrow> Not_empty | _ \<Rightarrow> p)
       (if \<not> jshas (tb_teams tb) tid then Inl Team_not_found
        else if team_has_workspaces tid tb then Inl Not_empty
        else bind_result (delete_team tid tb) (\<lambda>tb1.
          Inr (record_audit (By_user (cl_id c)) (Team_deleted tid (jsget (tb_teams tb) tid)) tb1))))"

subsection \<open>Members\<close>

definition add_member :: "caller \<Rightarrow> string \<Rightarrow> string \<Rightarrow> team_role \<Rightarrow> tables \<Rightarrow> handled" where
  "add_member c tid email role tb =
     (case find_user_by_email (email_lower email) tb of
        None \<Rightarrow> (tb, [], Some User_unknown)
      | Some uid \<Rightarrow>
          commit tb [on_team tid uid]
            (catch (\<lambda>p. if p = Foreign_violation ''team_members_team_id_fkey'' then Team_not_found else p)
              (bind_result (insert_member tid uid role tb) (\<lambda>(tb1, new).
                if \<not> new then Inl Already_member
                else Inr (record_audit (By_user (cl_id c)) (Member_added tid uid role) tb1)))))"

definition change_member_role :: "caller \<Rightarrow> string \<Rightarrow> string \<Rightarrow> team_role \<Rightarrow> tables \<Rightarrow> handled" where
  "change_member_role c tid uid role tb =
     commit tb [on_team tid uid]
       (case member_role tb tid uid of
          None \<Rightarrow> Inl Member_not_found
        | Some current \<Rightarrow>
            if current = Team_admin \<and> role \<noteq> Team_admin \<and> count_admins tid tb \<le> 1 then Inl Last_admin
            else let tb1 = set_member_role tid uid role tb in
              Inr (if current \<noteq> role then record_audit (By_user (cl_id c)) (Member_role_changed tid uid role current) tb1
                   else tb1))"

definition remove_member :: "caller \<Rightarrow> team_role \<Rightarrow> string \<Rightarrow> string \<Rightarrow> tables \<Rightarrow> handled" where
  "remove_member c access tid uid tb =
     (if access \<noteq> Team_admin \<and> uid \<noteq> cl_id c then (tb, [], Some Teams_forbidden)
      else commit tb [on_team tid uid]
        (case member_role tb tid uid of
           None \<Rightarrow> Inl Member_not_found
         | Some current \<Rightarrow>
             if current = Team_admin \<and> count_admins tid tb \<le> 1 then Inl Last_admin
             else Inr (record_audit (By_user (cl_id c)) (Member_removed tid uid current (uid = cl_id c))
                         (delete_member tid uid (delete_grants_in_team tid uid tb)))))"

text \<open>The hook of an accepted invitation, inside identity's transaction. An invitation of no team adds nothing.\<close>

definition add_invited_member :: "string \<Rightarrow> string \<Rightarrow> tables \<Rightarrow> (problem, tables) result" where
  "add_invited_member iid uid tb =
     (case team_invitation_of iid tb of
        None \<Rightarrow> Inr tb
      | Some (tid, role) \<Rightarrow>
          bind_result (insert_member tid uid role tb) (\<lambda>(tb1, new).
            Inr (record_audit (if jshas (tb_users tb1) uid then By_user uid else By_system)
                   (Member_invited tid uid role iid) tb1)))"

subsection \<open>Workspaces\<close>

text \<open>Where building the repository, or the commit after it, or moving a repository away can fail.\<close>

datatype fault = No_fault | Create_fails | Commit_fails bool | Remove_fails

definition create_workspace_tx ::
    "(string \<Rightarrow> string) \<Rightarrow> caller \<Rightarrow> string \<Rightarrow> string \<Rightarrow> string \<Rightarrow> default_role option \<Rightarrow> fault \<Rightarrow> tables \<Rightarrow>
     (problem, tables) result" where
  "create_workspace_tx lc c tid wid raw dflt fault tb =
     bind_result (clean_name raw) (\<lambda>name.
     bind_result (insert_workspace lc wid name tid (coalesce dflt Default_viewer) (Some (cl_id c)) tb) (\<lambda>tb1.
     bind_result (if member_role tb1 tid (cl_id c) \<noteq> None then upsert_grant wid (cl_id c) Ws_admin tb1 else Inr tb1)
       (\<lambda>tb2.
     let tb3 = record_audit (By_user (cl_id c)) (Workspace_created wid tid name (coalesce dflt Default_viewer)) tb2 in
     if wid \<in> set (tb_repos tb3) then Inl Repo_exists
     else if fault = Create_fails then Inl Repo_failed
     else Inr (tb3\<lparr>tb_repos := tb_repos tb3 @ [wid]\<rparr>))))"

definition create_workspace ::
    "(string \<Rightarrow> string) \<Rightarrow> caller \<Rightarrow> string \<Rightarrow> string \<Rightarrow> string \<Rightarrow> default_role option \<Rightarrow> fault \<Rightarrow> tables \<Rightarrow> handled" where
  "create_workspace lc c tid wid raw dflt fault tb =
     (case create_workspace_tx lc c tid wid raw dflt fault tb of
        Inl p \<Rightarrow> (tb, [], Some (if p = Foreign_violation ''workspaces_team_id_fkey'' then Team_not_found else conflict_or p))
      | Inr tb4 \<Rightarrow>
          (case fault of
             Commit_fails moved \<Rightarrow> (if moved then tb else tb\<lparr>tb_repos := tb_repos tb @ [wid]\<rparr>, [], Some Commit_failed)
           | _ \<Rightarrow> (tb4, [], if effective_role tb4 (cl_id c) wid = No_role then Some Workspace_not_found else None)))"

definition patch_audits :: "string \<Rightarrow> workspace_patch \<Rightarrow> workspace_row \<Rightarrow> audit list" where
  "patch_audits wid p previous =
     (case wp_name p of Some n \<Rightarrow> if n \<noteq> ws_name previous then [Workspace_renamed wid n (ws_name previous)] else [] | None \<Rightarrow> [])
     @ (case wp_default p of Some d \<Rightarrow> if d \<noteq> ws_default previous then [Default_role_changed wid d (ws_default previous)] else []
          | None \<Rightarrow> [])
     @ (case wp_desktop p of Some b \<Rightarrow> if b \<noteq> ws_desktop previous then [Desktop_recording_changed wid b (ws_desktop previous)] else []
          | None \<Rightarrow> [])
     @ (case wp_session_logs p of Some b \<Rightarrow>
            if b \<noteq> ws_session_logs previous then [Session_logs_changed wid b (ws_session_logs previous)] else []
          | None \<Rightarrow> [])
     @ (case map_option normalize_disabled_features (wp_features_off p) of Some l \<Rightarrow>
            if l \<noteq> ws_features_off previous then [Features_changed wid l (ws_features_off previous)] else []
          | None \<Rightarrow> [])"

definition patch_workspace :: "(string \<Rightarrow> string) \<Rightarrow> caller \<Rightarrow> string \<Rightarrow> workspace_patch \<Rightarrow> bool \<Rightarrow> tables \<Rightarrow> handled" where
  "patch_workspace lc c wid body licensed tb =
     (case (case wp_name body of None \<Rightarrow> Inr None | Some raw \<Rightarrow> bind_result (clean_name raw) (\<lambda>n. Inr (Some n))) of
        Inl p \<Rightarrow> (tb, [], Some p)
      | Inr name \<Rightarrow>
          if wp_session_logs body = Some True \<and> \<not> licensed then (tb, [], Some Feature_required)
          else let p = body\<lparr>wp_name := name\<rparr> in
            commit tb (if wp_default p \<noteq> None \<or> wp_desktop p \<noteq> None \<or> wp_session_logs p \<noteq> None \<or> wp_features_off p \<noteq> None
                       then [on_workspace wid] else [])
              (catch conflict_or
                (case jsget (tb_workspaces tb) wid of
                   None \<Rightarrow> Inl Workspace_not_found
                 | Some previous \<Rightarrow>
                     bind_result (update_workspace lc wid p tb) (\<lambda>tb1.
                       Inr (fold (record_audit (By_user (cl_id c))) (patch_audits wid p previous) tb1)))))"

definition remove_workspace :: "caller \<Rightarrow> string \<Rightarrow> fault \<Rightarrow> tables \<Rightarrow> handled" where
  "remove_workspace c wid fault tb =
     (let ws = jsget (tb_workspaces tb) wid;
          tb1 = record_audit (By_user (cl_id c)) (Workspace_deleted wid (map_option ws_team ws) (map_option ws_name ws))
                  (delete_workspace wid tb) in
      if wid \<notin> set (tb_repos tb1) then (tb1, [on_workspace wid], None)
      else if fault = Remove_fails then (tb1, [on_workspace wid], Some Repo_failed)
      else (tb1\<lparr>tb_repos := jsremove (tb_repos tb1) wid\<rparr>, [on_workspace wid], None))"

text \<open>\<^verbatim>\<open>GET /workspaces\<close>: what the caller may see, with the role they have on it.\<close>

definition get_workspaces ::
    "(string \<Rightarrow> string) \<Rightarrow> (string \<Rightarrow> string) \<Rightarrow> caller \<Rightarrow> tables \<Rightarrow> (string \<times> workspace_row \<times> workspace_role \<times> role_source) list" where
  "get_workspaces lc ck c tb =
     List.map_filter (\<lambda>(w, row, tr, g).
       case resolve_role \<lparr>rf_disabled = False, rf_server_admin = cl_server_admin c, rf_team_role = tr, rf_grant = g,
                          rf_default = ws_default row\<rparr> of
         No_role \<Rightarrow> None | Has_role r src \<Rightarrow> Some (w, row, r, src))
       (visible_workspaces lc ck (cl_id c) (cl_server_admin c) tb)"

subsection \<open>Access\<close>

record access_entry =
  ae_user :: string
  ae_email :: string
  ae_display :: string
  ae_team_role :: "team_role option"
  ae_disabled :: bool
  ae_effective :: "workspace_role option"
  ae_source :: "role_source option"
  ae_grant :: "workspace_role option"

definition to_access_entry :: "access_row \<Rightarrow> access_entry" where
  "to_access_entry a =
     (let found = resolve_role (ar_facts a) in
      \<lparr>ae_user = ar_user a, ae_email = ar_email a, ae_display = ar_display a, ae_team_role = rf_team_role (ar_facts a), ae_disabled = rf_disabled (ar_facts a),
       ae_effective = (case found of No_role \<Rightarrow> None | Has_role r src \<Rightarrow> Some r),
       ae_source = (case found of No_role \<Rightarrow> None | Has_role r src \<Rightarrow> Some src),
       ae_grant = rf_grant (ar_facts a)\<rparr>)"

definition set_access :: "caller \<Rightarrow> string \<Rightarrow> string \<Rightarrow> workspace_role \<Rightarrow> tables \<Rightarrow> handled" where
  "set_access c wid uid role tb =
     commit tb [on_workspace wid]
       (if \<not> is_team_member_of_workspace wid uid tb then Inl Not_a_member
        else bind_result (upsert_grant wid uid role tb) (\<lambda>tb1.
          Inr (record_audit (By_user (cl_id c))
                 (Grant_set wid uid role (map_option ws_team (jsget (tb_workspaces tb1) wid))) tb1)))"

definition delete_access :: "caller \<Rightarrow> string \<Rightarrow> string \<Rightarrow> tables \<Rightarrow> handled" where
  "delete_access c wid uid tb =
     commit tb [on_workspace wid]
       (case delete_grant wid uid tb of (tb1, removed) \<Rightarrow>
          Inr (case removed of Some r \<Rightarrow> record_audit (By_user (cl_id c)) (Grant_removed wid uid r) tb1 | None \<Rightarrow> tb1))"

section \<open>Requests\<close>

text \<open>The requests that change something, with the ids the server mints for them and the faults they meet.\<close>

datatype request =
    Create_team string string
  | Rename_team string string
  | Remove_team string
  | Add_member string string team_role
  | Change_role string string team_role
  | Remove_member string string
  | Invite string string team_role
  | Create_workspace string string string "default_role option" fault
  | Patch_workspace string workspace_patch bool
  | Remove_workspace string fault
  | Set_access string string workspace_role
  | Delete_access string string

text \<open>The guard of each route, answering the caller and, on a team's routes, their role there.\<close>

definition guard :: "tables \<Rightarrow> principal \<Rightarrow> request \<Rightarrow> (problem, caller \<times> team_role) result" where
  "guard tb p rq =
     (let team = (\<lambda>tid least. bind_result (require_team_role tb p tid least) (\<lambda>r.
                    bind_result (require_user p) (\<lambda>c. Inr (c, r))));
          workspace = (\<lambda>wid. bind_result (require_workspace_role tb p wid Ws_admin) (\<lambda>r.
                    bind_result (require_user p) (\<lambda>c. Inr (c, Team_member))));
          server = bind_result (require_server_admin p) (\<lambda>c. Inr (c, Team_member)) in
      case rq of
        Create_team tid name \<Rightarrow> server
      | Rename_team tid name \<Rightarrow> team tid Team_admin
      | Remove_team tid \<Rightarrow> server
      | Add_member tid email role \<Rightarrow> team tid Team_admin
      | Change_role tid uid role \<Rightarrow> team tid Team_admin
      | Remove_member tid uid \<Rightarrow> team tid Team_member
      | Invite tid iid role \<Rightarrow> team tid Team_admin
      | Create_workspace tid wid name dflt fault \<Rightarrow> team tid Team_member
      | Patch_workspace wid body licensed \<Rightarrow> workspace wid
      | Remove_workspace wid fault \<Rightarrow> workspace wid
      | Set_access wid uid role \<Rightarrow> workspace wid
      | Delete_access wid uid \<Rightarrow> workspace wid)"

definition handle :: "(string \<Rightarrow> string) \<Rightarrow> caller \<Rightarrow> team_role \<Rightarrow> request \<Rightarrow> tables \<Rightarrow> handled" where
  "handle lc c access rq tb =
     (case rq of
        Create_team tid name \<Rightarrow> create_team lc c tid name tb
      | Rename_team tid name \<Rightarrow> rename_team_to lc c tid name tb
      | Remove_team tid \<Rightarrow> remove_team c tid tb
      | Add_member tid email role \<Rightarrow> add_member c tid email role tb
      | Change_role tid uid role \<Rightarrow> change_member_role c tid uid role tb
      | Remove_member tid uid \<Rightarrow> remove_member c access tid uid tb
      | Invite tid iid role \<Rightarrow> commit tb [] (insert_team_invitation iid tid role tb)
      | Create_workspace tid wid name dflt fault \<Rightarrow> create_workspace lc c tid wid name dflt fault tb
      | Patch_workspace wid body licensed \<Rightarrow> patch_workspace lc c wid body licensed tb
      | Remove_workspace wid fault \<Rightarrow> remove_workspace c wid fault tb
      | Set_access wid uid role \<Rightarrow> set_access c wid uid role tb
      | Delete_access wid uid \<Rightarrow> delete_access c wid uid tb)"

text \<open>A request served with nothing in between.\<close>

definition serve :: "(string \<Rightarrow> string) \<Rightarrow> principal \<Rightarrow> request \<Rightarrow> tables \<Rightarrow> handled" where
  "serve lc p rq tb =
     (case guard tb p rq of Inl e \<Rightarrow> (tb, [], Some e) | Inr (c, access) \<Rightarrow> handle lc c access rq tb)"

section \<open>What the tables keep\<close>

definition keys_ok :: "tables \<Rightarrow> bool" where
  "keys_ok tb \<longleftrightarrow> jsmap_ok (tb_users tb) \<and> jsmap_ok (tb_teams tb) \<and> jsmap_ok (tb_members tb) \<and>
     jsmap_ok (tb_workspaces tb) \<and> jsmap_ok (tb_grants tb) \<and> jsmap_ok (tb_invites tb) \<and> jsmap_ok (tb_groups tb)"

text \<open>Every reference names a row that is there.\<close>

definition refs_ok :: "tables \<Rightarrow> bool" where
  "refs_ok tb \<longleftrightarrow>
     (\<forall>t u. member_role tb t u \<noteq> None \<longrightarrow> jshas (tb_teams tb) t \<and> jshas (tb_users tb) u) \<and>
     (\<forall>w row. jsget (tb_workspaces tb) w = Some row \<longrightarrow> jshas (tb_teams tb) (ws_team row)) \<and>
     (\<forall>g row t. jsget (tb_groups tb) g = Some row \<longrightarrow> sg_team row = Some t \<longrightarrow> jshas (tb_teams tb) t)"

text \<open>A grant belongs to a member of the workspace's team.\<close>

definition grants_ok :: "tables \<Rightarrow> bool" where
  "grants_ok tb \<longleftrightarrow> (\<forall>w u. jshas (tb_grants tb) (w, u) \<longrightarrow> is_team_member_of_workspace w u tb)"

text \<open>What provisioning recorded is a membership of the team that the group is linked to, and the group holds the user.\<close>

definition provisioned_ok :: "tables \<Rightarrow> bool" where
  "provisioned_ok tb \<longleftrightarrow> (\<forall>(t, u, g) \<in> set (tb_provisioned tb).
     member_role tb t u \<noteq> None \<and> (g, u) \<in> set (tb_group_members tb) \<and>
     (\<exists>row. jsget (tb_groups tb) g = Some row \<and> sg_team row = Some t))"

definition names_ok :: "(string \<Rightarrow> string) \<Rightarrow> tables \<Rightarrow> bool" where
  "names_ok lc tb \<longleftrightarrow>
     (\<forall>t t' n n'. jsget (tb_teams tb) t = Some n \<longrightarrow> jsget (tb_teams tb) t' = Some n' \<longrightarrow> lc n = lc n' \<longrightarrow> t = t') \<and>
     (\<forall>w w' r r'. jsget (tb_workspaces tb) w = Some r \<longrightarrow> jsget (tb_workspaces tb) w' = Some r' \<longrightarrow>
        ws_team r = ws_team r' \<longrightarrow> lc (ws_name r) = lc (ws_name r') \<longrightarrow> w = w')"

definition base_ok :: "(string \<Rightarrow> string) \<Rightarrow> tables \<Rightarrow> bool" where
  "base_ok lc tb \<longleftrightarrow> keys_ok tb \<and> refs_ok tb \<and> grants_ok tb \<and> provisioned_ok tb \<and> names_ok lc tb"

definition admins_ok :: "tables \<Rightarrow> bool" where
  "admins_ok tb \<longleftrightarrow> (\<forall>t. jshas (tb_teams tb) t \<longrightarrow> (\<exists>u. member_role tb t u = Some Team_admin))"

definition repos_ok :: "tables \<Rightarrow> bool" where
  "repos_ok tb \<longleftrightarrow> (\<forall>w. jshas (tb_workspaces tb) w \<longrightarrow> w \<in> set (tb_repos tb))"

definition tables_ok :: "(string \<Rightarrow> string) \<Rightarrow> tables \<Rightarrow> bool" where
  "tables_ok lc tb \<longleftrightarrow> base_ok lc tb \<and> admins_ok tb \<and> repos_ok tb"

lemmas ok_defs = keys_ok_def refs_ok_def grants_ok_def provisioned_ok_def names_ok_def base_ok_def

lemma audit_fields [simp]:
  "tb_users (record_audit who a tb) = tb_users tb" "tb_teams (record_audit who a tb) = tb_teams tb"
  "tb_members (record_audit who a tb) = tb_members tb" "tb_workspaces (record_audit who a tb) = tb_workspaces tb"
  "tb_grants (record_audit who a tb) = tb_grants tb" "tb_invites (record_audit who a tb) = tb_invites tb"
  "tb_groups (record_audit who a tb) = tb_groups tb" "tb_group_members (record_audit who a tb) = tb_group_members tb"
  "tb_provisioned (record_audit who a tb) = tb_provisioned tb" "tb_repos (record_audit who a tb) = tb_repos tb"
  by (simp_all add: record_audit_def)

lemma is_team_member_iff:
  "is_team_member_of_workspace w u tb \<longleftrightarrow> (\<exists>row. jsget (tb_workspaces tb) w = Some row \<and> member_role tb (ws_team row) u \<noteq> None)"
  by (auto simp: is_team_member_of_workspace_def split: option.splits)

text \<open>Each part reads a few of the tables only.\<close>

lemma untouched_role [simp]:
  "member_role (tb\<lparr>tb_teams := x\<rparr>) = member_role tb" "member_role (tb\<lparr>tb_workspaces := y\<rparr>) = member_role tb"
  "member_role (tb\<lparr>tb_grants := z\<rparr>) = member_role tb" "member_role (tb\<lparr>tb_groups := v\<rparr>) = member_role tb"
  "member_role (tb\<lparr>tb_invites := i\<rparr>) = member_role tb" "member_role (tb\<lparr>tb_group_members := g\<rparr>) = member_role tb"
  "member_role (tb\<lparr>tb_provisioned := p\<rparr>) = member_role tb" "member_role (tb\<lparr>tb_users := us\<rparr>) = member_role tb"
  "member_role (tb\<lparr>tb_repos := r\<rparr>) = member_role tb"
  by (simp_all add: member_role_def fun_eq_iff)

lemma untouched_parts [simp]:
  "grants_ok (tb\<lparr>tb_teams := x\<rparr>) = grants_ok tb" "grants_ok (tb\<lparr>tb_groups := v\<rparr>) = grants_ok tb"
  "grants_ok (tb\<lparr>tb_invites := i\<rparr>) = grants_ok tb" "grants_ok (tb\<lparr>tb_group_members := g\<rparr>) = grants_ok tb"
  "grants_ok (tb\<lparr>tb_provisioned := p\<rparr>) = grants_ok tb" "grants_ok (tb\<lparr>tb_users := us\<rparr>) = grants_ok tb"
  "provisioned_ok (tb\<lparr>tb_teams := x\<rparr>) = provisioned_ok tb" "provisioned_ok (tb\<lparr>tb_workspaces := y\<rparr>) = provisioned_ok tb"
  "provisioned_ok (tb\<lparr>tb_grants := z\<rparr>) = provisioned_ok tb" "provisioned_ok (tb\<lparr>tb_invites := i\<rparr>) = provisioned_ok tb"
  "provisioned_ok (tb\<lparr>tb_users := us\<rparr>) = provisioned_ok tb"
  "names_ok lc (tb\<lparr>tb_members := m\<rparr>) = names_ok lc tb" "names_ok lc (tb\<lparr>tb_grants := z\<rparr>) = names_ok lc tb"
  "names_ok lc (tb\<lparr>tb_groups := v\<rparr>) = names_ok lc tb" "names_ok lc (tb\<lparr>tb_invites := i\<rparr>) = names_ok lc tb"
  "names_ok lc (tb\<lparr>tb_group_members := g\<rparr>) = names_ok lc tb" "names_ok lc (tb\<lparr>tb_provisioned := p\<rparr>) = names_ok lc tb"
  "names_ok lc (tb\<lparr>tb_users := us\<rparr>) = names_ok lc tb"
  "refs_ok (tb\<lparr>tb_grants := z\<rparr>) = refs_ok tb" "refs_ok (tb\<lparr>tb_invites := i\<rparr>) = refs_ok tb"
  "refs_ok (tb\<lparr>tb_group_members := g\<rparr>) = refs_ok tb" "refs_ok (tb\<lparr>tb_provisioned := p\<rparr>) = refs_ok tb"
  by (simp_all add: grants_ok_def provisioned_ok_def names_ok_def refs_ok_def is_team_member_iff)

lemma member_role_set [simp]:
  "member_role (tb\<lparr>tb_members := jsset (tb_members tb) (t, u) r\<rparr>) t' u' = (if t' = t \<and> u' = u then Some r else member_role tb t' u')"
  by (simp add: member_role_def jsget_jsset)

lemmas base_parts = base_ok_def keys_ok_def jsmap_ok_jsset jsmap_ok_jsdelete distinct_keys_filter

text \<open>What the invariant reads of the tables, so that updates of the other columns do not matter.\<close>

lemma base_ok_cong:
  "tb_users tb = tb_users tb' \<Longrightarrow> tb_teams tb = tb_teams tb' \<Longrightarrow> tb_members tb = tb_members tb' \<Longrightarrow>
   tb_workspaces tb = tb_workspaces tb' \<Longrightarrow> tb_grants tb = tb_grants tb' \<Longrightarrow> tb_invites tb = tb_invites tb' \<Longrightarrow>
   tb_groups tb = tb_groups tb' \<Longrightarrow> tb_group_members tb = tb_group_members tb' \<Longrightarrow>
   tb_provisioned tb = tb_provisioned tb' \<Longrightarrow> base_ok lc tb = base_ok lc tb'"
  by (simp add: ok_defs member_role_def is_team_member_iff)

lemma base_ok_audit [simp]: "base_ok lc (record_audit who a tb) = base_ok lc tb"
  by (rule base_ok_cong) simp_all

lemma base_ok_repos [simp]: "base_ok lc (tb\<lparr>tb_repos := rs\<rparr>) = base_ok lc tb"
  by (rule base_ok_cong) simp_all

lemma admins_ok_audit [simp]: "admins_ok (record_audit who a tb) = admins_ok tb"
  by (simp add: admins_ok_def member_role_def)

lemma repos_ok_audit [simp]: "repos_ok (record_audit who a tb) = repos_ok tb"
  by (simp add: repos_ok_def)

lemma member_role_audit [simp]: "member_role (record_audit who a tb) = member_role tb"
  by (simp add: member_role_def fun_eq_iff)

subsection \<open>Statement by statement\<close>

lemma insert_team_cases:
  "insert_team lc tid name tb = Inr tb' \<Longrightarrow>
   tb' = tb\<lparr>tb_teams := jsset (tb_teams tb) tid name\<rparr> \<and> \<not> jshas (tb_teams tb) tid \<and>
   (\<forall>t n. jsget (tb_teams tb) t = Some n \<longrightarrow> lc n \<noteq> lc name)"
  by (auto simp: insert_team_def list_ex_iff split: if_splits dest!: map_of_SomeD)

lemma rename_team_cases:
  "rename_team lc tid name tb = Inr tb' \<Longrightarrow>
   tb' = tb\<lparr>tb_teams := jsset (tb_teams tb) tid name\<rparr> \<and> jshas (tb_teams tb) tid \<and>
   (\<forall>t n. jsget (tb_teams tb) t = Some n \<longrightarrow> t \<noteq> tid \<longrightarrow> lc n \<noteq> lc name)"
  by (auto simp: rename_team_def list_ex_iff split: if_splits dest!: map_of_SomeD)

lemma put_team_ok:
  assumes "base_ok lc tb" "\<forall>t n. jsget (tb_teams tb) t = Some n \<longrightarrow> t \<noteq> tid \<longrightarrow> lc n \<noteq> lc name"
  shows "base_ok lc (tb\<lparr>tb_teams := jsset (tb_teams tb) tid name\<rparr>)"
proof -
  have "names_ok lc (tb\<lparr>tb_teams := jsset (tb_teams tb) tid name\<rparr>)"
    using assms(1) assms(2) [THEN spec, THEN spec, THEN mp, THEN mp, THEN not_sym] assms(2)
    by (auto simp: base_ok_def names_ok_def jsget_jsset split: if_splits)
  moreover have "refs_ok (tb\<lparr>tb_teams := jsset (tb_teams tb) tid name\<rparr>)"
    using assms(1) by (auto simp: base_ok_def refs_ok_def jsget_jsset)
  ultimately show ?thesis using assms(1) by (simp add: base_parts)
qed

lemma insert_member_cases:
  "insert_member tid uid role tb = Inr (tb', new) \<Longrightarrow>
   (if new then tb' = tb\<lparr>tb_members := jsset (tb_members tb) (tid, uid) role\<rparr> \<and> member_role tb tid uid = None \<and>
      jshas (tb_teams tb) tid \<and> jshas (tb_users tb) uid
    else tb' = tb \<and> member_role tb tid uid \<noteq> None)"
  by (auto simp: insert_member_def split: if_splits)

lemma put_member_ok:
  assumes "base_ok lc tb" "jshas (tb_teams tb) tid" "jshas (tb_users tb) uid"
  shows "base_ok lc (tb\<lparr>tb_members := jsset (tb_members tb) (tid, uid) role\<rparr>)" (is "base_ok lc ?t")
proof -
  have "refs_ok ?t" using assms by (auto simp: base_ok_def refs_ok_def)
  moreover have "grants_ok ?t" using assms(1) by (fastforce simp: base_ok_def grants_ok_def is_team_member_iff)
  moreover have "provisioned_ok ?t" using assms(1) by (auto simp: base_ok_def provisioned_ok_def)
  ultimately show ?thesis using assms(1) by (simp add: base_parts)
qed

lemma insert_member_ok: "base_ok lc tb \<Longrightarrow> insert_member tid uid role tb = Inr (tb', new) \<Longrightarrow> base_ok lc tb'"
  using insert_member_cases [of tid uid role tb tb' new] put_member_ok [of lc tb tid uid role] by (auto split: if_splits)

lemma set_member_role_ok: "base_ok lc tb \<Longrightarrow> base_ok lc (set_member_role tid uid role tb)"
proof -
  assume b: "base_ok lc tb"
  then have "jshas (tb_teams tb) tid \<and> jshas (tb_users tb) uid" if "member_role tb tid uid \<noteq> None"
    using that unfolding base_ok_def refs_ok_def by blast
  then show ?thesis using b put_member_ok by (simp add: set_member_role_def)
qed

text \<open>A member leaves: the grants in the team's workspaces go first, then the membership with what provisioned it.\<close>

definition leave :: "string \<Rightarrow> string \<Rightarrow> tables \<Rightarrow> tables" where
  "leave tid uid tb = delete_member tid uid (delete_grants_in_team tid uid tb)"

lemma leave_fields [simp]:
  "tb_users (leave tid uid tb) = tb_users tb" "tb_teams (leave tid uid tb) = tb_teams tb"
  "tb_workspaces (leave tid uid tb) = tb_workspaces tb" "tb_invites (leave tid uid tb) = tb_invites tb"
  "tb_groups (leave tid uid tb) = tb_groups tb" "tb_group_members (leave tid uid tb) = tb_group_members tb"
  "tb_repos (leave tid uid tb) = tb_repos tb" "tb_audits (leave tid uid tb) = tb_audits tb"
  "tb_provisioned (leave tid uid tb) = filter (\<lambda>(t, u, g). \<not> (t = tid \<and> u = uid)) (tb_provisioned tb)"
  by (simp_all add: leave_def delete_member_def delete_grants_in_team_def)

lemma member_role_leave: "member_role (leave tid uid tb) t u = (if t = tid \<and> u = uid then None else member_role tb t u)"
  by (simp add: leave_def delete_member_def delete_grants_in_team_def member_role_def jsget_jsdelete)

lemma grant_leave:
  "jsmap_ok (tb_grants tb) \<Longrightarrow> jsget (tb_grants (leave tid uid tb)) (w, u) =
     (if u = uid \<and> map_option ws_team (jsget (tb_workspaces tb) w) = Some tid then None else jsget (tb_grants tb) (w, u))"
  by (auto simp: leave_def delete_member_def delete_grants_in_team_def map_of_filter_distinct split: option.split)

lemma leave_keys: "keys_ok tb \<Longrightarrow> keys_ok (leave tid uid tb)"
  by (simp add: keys_ok_def) (simp add: leave_def delete_member_def delete_grants_in_team_def jsmap_ok_jsdelete distinct_keys_filter)

lemma refs_okD:
  "base_ok lc tb \<Longrightarrow> member_role tb t u \<noteq> None \<Longrightarrow> jshas (tb_teams tb) t \<and> jshas (tb_users tb) u"
  unfolding base_ok_def refs_ok_def by blast

lemma grants_okI:
  "(\<And>w u. jshas (tb_grants tb) (w, u) \<Longrightarrow>
     \<exists>row. jsget (tb_workspaces tb) w = Some row \<and> member_role tb (ws_team row) u \<noteq> None) \<Longrightarrow> grants_ok tb"
  unfolding grants_ok_def is_team_member_iff by blast

lemma grants_okD:
  "grants_ok tb \<Longrightarrow> jshas (tb_grants tb) (w, u) \<Longrightarrow>
   \<exists>row. jsget (tb_workspaces tb) w = Some row \<and> member_role tb (ws_team row) u \<noteq> None"
  unfolding grants_ok_def is_team_member_iff by blast

lemma leave_ok:
  assumes "base_ok lc tb"
  shows "base_ok lc (leave tid uid tb)"
proof -
  note a = assms [unfolded base_ok_def]
  have g: "jsmap_ok (tb_grants tb)" using a by (simp add: keys_ok_def)
  have "refs_ok (leave tid uid tb)" using a by (auto simp: refs_ok_def member_role_leave)
  moreover have "grants_ok (leave tid uid tb)"
  proof (rule grants_okI)
    fix w u assume j: "jshas (tb_grants (leave tid uid tb)) (w, u)"
    then have "jshas (tb_grants tb) (w, u)" by (simp add: grant_leave [OF g] split: if_splits)
    then obtain row where "jsget (tb_workspaces tb) w = Some row" "member_role tb (ws_team row) u \<noteq> None"
      using a grants_okD by blast
    then show "\<exists>row. jsget (tb_workspaces (leave tid uid tb)) w = Some row \<and> member_role (leave tid uid tb) (ws_team row) u \<noteq> None"
      using j by (auto simp: grant_leave [OF g] member_role_leave split: if_splits)
  qed
  moreover have "provisioned_ok (leave tid uid tb)" using a by (auto simp: provisioned_ok_def member_role_leave)
  moreover have "names_ok lc (leave tid uid tb)" using a by (simp add: names_ok_def)
  ultimately show ?thesis using a leave_keys by (simp add: base_ok_def)
qed

text \<open>An admin who is not the last leaves another behind.\<close>

lemma another_admin:
  assumes "keys_ok tb" "\<not> count_admins tid tb \<le> 1"
  shows "\<exists>u. u \<noteq> uid \<and> member_role tb tid u = Some Team_admin"
proof (rule ccontr)
  assume none: "\<nexists>u. u \<noteq> uid \<and> member_role tb tid u = Some Team_admin"
  have k: "jsmap_ok (tb_members tb)" using assms(1) by (simp add: keys_ok_def)
  have "count_admins tid tb \<le> 1" unfolding count_admins_def
  proof (rule length_filter_one_key [OF k, where j = "(tid, uid)"])
    fix k v assume a: "(k, v) \<in> set (tb_members tb)" "(\<lambda>((t, u), r). t = tid \<and> r = Team_admin) (k, v)"
    obtain t u where k': "k = (t, u)" by (cases k)
    have "member_role tb tid u = Some Team_admin"
      using a k k' by (auto simp: member_role_def)
    then show "k = (tid, uid)" using none a k' by auto
  qed
  with assms(2) show False by simp
qed

lemma delete_team_ok:
  assumes "base_ok lc tb" "delete_team tid tb = Inr tb'"
  shows "base_ok lc tb'"
proof -
  note a = assms(1) [unfolded base_ok_def]
  have no_ws: "\<forall>w row. jsget (tb_workspaces tb) w = Some row \<longrightarrow> ws_team row \<noteq> tid"
    using assms(2) by (auto simp: delete_team_def team_has_workspaces_def list_ex_iff split: if_splits dest!: map_of_SomeD)
  have f: "tb_users tb' = tb_users tb" "tb_teams tb' = jsdelete (tb_teams tb) tid" "tb_workspaces tb' = tb_workspaces tb"
      "tb_grants tb' = tb_grants tb" "tb_group_members tb' = tb_group_members tb" "tb_repos tb' = tb_repos tb"
      "tb_members tb' = filter (\<lambda>((t, u), r). t \<noteq> tid) (tb_members tb)"
      "tb_invites tb' = filter (\<lambda>(i, (t, r)). t \<noteq> tid) (tb_invites tb)"
      "tb_provisioned tb' = filter (\<lambda>(t, u, g). t \<noteq> tid) (tb_provisioned tb)"
      "tb_groups tb' = map (\<lambda>(g, row). (g, if sg_team row = Some tid then row\<lparr>sg_team := None\<rparr> else row)) (tb_groups tb)"
    using assms(2) by (auto simp: delete_team_def split: if_splits)
  have mr: "member_role tb' t u = (if t = tid then None else member_role tb t u)" for t u
    using a by (auto simp: member_role_def f keys_ok_def map_of_filter_distinct split: option.split)
  have gr: "jsget (tb_groups tb') g = map_option (\<lambda>row. if sg_team row = Some tid then row\<lparr>sg_team := None\<rparr> else row)
      (jsget (tb_groups tb) g)" for g
    by (simp add: f map_of_map)
  have linked: "jsget (tb_groups tb) g \<noteq> None \<and> t \<noteq> tid \<and> (\<exists>z. jsget (tb_groups tb) g = Some z \<and> sg_team z = Some t)"
    if row: "jsget (tb_groups tb') g = Some row" "sg_team row = Some t" for g row t
  proof (cases "jsget (tb_groups tb) g")
    case (Some z)
    then show ?thesis using row gr [of g] by (cases "sg_team z = Some tid") auto
  qed (use row gr [of g] in simp)
  have "jskeys (tb_groups tb') = jskeys (tb_groups tb)" by (auto simp: f(10))
  then have "keys_ok tb'" using a by (simp add: keys_ok_def f(1-9) jsmap_ok_jsdelete distinct_keys_filter)
  moreover have "refs_ok tb'"
    using a no_ws linked unfolding refs_ok_def by (simp add: mr f(1-9) jsget_jsdelete) blast
  moreover have "grants_ok tb'"
    using a no_ws by (fastforce simp: grants_ok_def is_team_member_iff mr f(1-9))
  moreover have "provisioned_ok tb'"
    using a by (fastforce simp: provisioned_ok_def mr gr f(1-9))
  moreover have "names_ok lc tb'"
    using a by (auto simp: names_ok_def f(1-9) jsget_jsdelete split: if_splits)
  ultimately show ?thesis by (simp add: base_ok_def)
qed

lemma put_workspace_names:
  assumes "names_ok lc tb"
    and "\<And>w r. jsget (tb_workspaces tb) w = Some r \<Longrightarrow> w \<noteq> wid \<Longrightarrow> ws_team r = ws_team row \<Longrightarrow>
           lc (ws_name r) = lc (ws_name row) \<Longrightarrow> False"
  shows "names_ok lc (tb\<lparr>tb_workspaces := jsset (tb_workspaces tb) wid row\<rparr>)"
proof -
  have "w = w'" if "jsget (jsset (tb_workspaces tb) wid row) w = Some r" "jsget (jsset (tb_workspaces tb) wid row) w' = Some r'"
      "ws_team r = ws_team r'" "lc (ws_name r) = lc (ws_name r')" for w w' r r'
  proof (cases "w = wid"; cases "w' = wid")
    assume "w = wid" "w' \<noteq> wid"
    then show ?thesis using that assms(2) [of w' r'] by (simp add: jsget_jsset)
  next
    assume "w \<noteq> wid" "w' = wid"
    then show ?thesis using that assms(2) [of w r] by (simp add: jsget_jsset)
  next
    assume "w \<noteq> wid" "w' \<noteq> wid"
    then show ?thesis using that assms(1) unfolding names_ok_def by (simp add: jsget_jsset)
  qed simp
  then show ?thesis using assms(1) unfolding names_ok_def by simp
qed

lemma insert_workspace_ok:
  assumes "base_ok lc tb" "insert_workspace lc wid name tid dflt by tb = Inr tb'"
  shows "base_ok lc tb' \<and> \<not> jshas (tb_workspaces tb) wid \<and>
    (\<exists>row. ws_team row = tid \<and> tb' = tb\<lparr>tb_workspaces := jsset (tb_workspaces tb) wid row\<rparr>)"
proof -
  note a = assms(1) [unfolded base_ok_def]
  define row where "row = \<lparr>ws_name = name, ws_team = tid, ws_default = dflt, ws_desktop = False, ws_session_logs = False,
                     ws_features_off = [], ws_created_by = by\<rparr>"
  have t: "tb' = tb\<lparr>tb_workspaces := jsset (tb_workspaces tb) wid row\<rparr>" and new: "\<not> jshas (tb_workspaces tb) wid"
    and team: "jshas (tb_teams tb) tid"
    and fresh: "\<forall>w r. jsget (tb_workspaces tb) w = Some r \<longrightarrow> \<not> (ws_team r = ws_team row \<and> lc (ws_name r) = lc (ws_name row))"
    using assms(2) by (auto simp: insert_workspace_def row_def list_ex_iff split: if_splits dest!: map_of_SomeD)
  have "refs_ok tb'" using a team by (auto simp: t refs_ok_def jsget_jsset row_def)
  moreover have "grants_ok tb'"
  proof (rule grants_okI)
    fix w u assume "jshas (tb_grants tb') (w, u)"
    then obtain r where "jsget (tb_workspaces tb) w = Some r" "member_role tb (ws_team r) u \<noteq> None"
      using a grants_okD [of tb w u] by (auto simp: t)
    then show "\<exists>r. jsget (tb_workspaces tb') w = Some r \<and> member_role tb' (ws_team r) u \<noteq> None"
      using new by (auto simp: t jsget_jsset)
  qed
  moreover have "names_ok lc tb'" unfolding t using a fresh by (intro put_workspace_names) auto
  ultimately have "base_ok lc tb'" using a by (simp add: t base_parts)
  moreover have "ws_team row = tid" by (simp add: row_def)
  ultimately show ?thesis using new t by blast
qed

lemma update_workspace_ok:
  assumes "base_ok lc tb" "update_workspace lc wid p tb = Inr tb'"
  shows "base_ok lc tb' \<and> (\<forall>row. jsget (tb_workspaces tb) wid = Some row \<longrightarrow>
      tb' = tb\<lparr>tb_workspaces := jsset (tb_workspaces tb) wid (patched p row)\<rparr>)"
proof (cases "jsget (tb_workspaces tb) wid")
  case None
  then show ?thesis using assms by (simp add: update_workspace_def)
next
  case (Some row)
  note a = assms(1) [unfolded base_ok_def]
  have t: "tb' = tb\<lparr>tb_workspaces := jsset (tb_workspaces tb) wid (patched p row)\<rparr>"
    and fresh: "\<forall>w r. jsget (tb_workspaces tb) w = Some r \<longrightarrow> w \<noteq> wid \<longrightarrow>
        \<not> (ws_team r = ws_team row \<and> lc (ws_name r) = lc (ws_name (patched p row)))"
    using assms(2) by (auto simp: update_workspace_def Some list_ex_iff split: if_splits dest!: map_of_SomeD)
  have team: "ws_team (patched p row) = ws_team row" by (simp add: patched_def)
  have "refs_ok tb'" using a Some by (auto simp: t refs_ok_def jsget_jsset team)
  moreover have "grants_ok tb'"
  proof (rule grants_okI)
    fix w u assume "jshas (tb_grants tb') (w, u)"
    then obtain r where "jsget (tb_workspaces tb) w = Some r" "member_role tb (ws_team r) u \<noteq> None"
      using a grants_okD [of tb w u] by (auto simp: t)
    then show "\<exists>r. jsget (tb_workspaces tb') w = Some r \<and> member_role tb' (ws_team r) u \<noteq> None"
      using Some by (auto simp: t jsget_jsset team)
  qed
  moreover have "names_ok lc tb'" unfolding t using a fresh by (intro put_workspace_names) (auto simp: team)
  ultimately have "base_ok lc tb'" using a by (simp add: t base_parts)
  then show ?thesis using t Some by simp
qed

lemma upsert_grant_ok:
  assumes "base_ok lc tb" "upsert_grant wid uid role tb = Inr tb'" "is_team_member_of_workspace wid uid tb"
  shows "base_ok lc tb' \<and> tb' = tb\<lparr>tb_grants := jsset (tb_grants tb) (wid, uid) role\<rparr>"
proof -
  have t: "tb' = tb\<lparr>tb_grants := jsset (tb_grants tb) (wid, uid) role\<rparr>"
    using assms(2) by (auto simp: upsert_grant_def split: if_splits)
  have "grants_ok tb'" using assms(1,3) by (auto simp: t base_ok_def grants_ok_def is_team_member_iff jsget_jsset)
  then show ?thesis using assms(1) t by (simp add: base_parts)
qed

lemma delete_workspace_ok:
  assumes "base_ok lc tb"
  shows "base_ok lc (delete_workspace wid tb)"
proof -
  note a = assms [unfolded base_ok_def]
  have g: "jsmap_ok (tb_grants tb)" using a by (simp add: keys_ok_def)
  have "refs_ok (delete_workspace wid tb)" using a by (auto simp: delete_workspace_def refs_ok_def jsget_jsdelete)
  moreover have "grants_ok (delete_workspace wid tb)"
    using a by (auto simp: delete_workspace_def grants_ok_def is_team_member_iff jsget_jsdelete
        map_of_filter_distinct [OF g] split: option.splits if_splits)
  moreover have "names_ok lc (delete_workspace wid tb)"
    using a by (auto simp: delete_workspace_def names_ok_def jsget_jsdelete)
  ultimately show ?thesis using a by (simp add: delete_workspace_def base_parts)
qed

lemma delete_grant_ok: "base_ok lc tb \<Longrightarrow> base_ok lc (fst (delete_grant wid uid tb))"
proof -
  assume a: "base_ok lc tb"
  then have "grants_ok (fst (delete_grant wid uid tb))"
    by (auto simp: delete_grant_def base_ok_def grants_ok_def is_team_member_iff jsget_jsdelete split: if_splits)
  then show ?thesis using a by (simp add: delete_grant_def base_parts)
qed

lemma insert_team_invitation_ok: "base_ok lc tb \<Longrightarrow> insert_team_invitation iid tid role tb = Inr tb' \<Longrightarrow> base_ok lc tb'"
  by (auto simp: insert_team_invitation_def base_parts split: if_splits)

subsection \<open>Handler by handler\<close>

text \<open>Admins stay when the teams do and nobody stops being one.\<close>

lemma admins_ok_keep:
  "admins_ok tb \<Longrightarrow> (\<And>t. jshas (tb_teams tb') t \<Longrightarrow> jshas (tb_teams tb) t) \<Longrightarrow>
   (\<And>t u. jshas (tb_teams tb') t \<Longrightarrow> member_role tb t u = Some Team_admin \<Longrightarrow> member_role tb' t u = Some Team_admin) \<Longrightarrow>
   admins_ok tb'"
  unfolding admins_ok_def by blast

lemma repos_ok_keep:
  "repos_ok tb \<Longrightarrow> (\<And>w. jshas (tb_workspaces tb') w \<Longrightarrow> jshas (tb_workspaces tb) w) \<Longrightarrow> tb_repos tb' = tb_repos tb \<Longrightarrow>
   repos_ok tb'"
  by (auto simp: repos_ok_def)

lemma commit_tables: "fst (commit tb ns r) = (case r of Inr tb' \<Rightarrow> tb' | Inl p \<Rightarrow> tb)"
  by (simp add: commit_def split: sum.split)

lemma catch_Inr [simp]: "catch f r = Inr x \<longleftrightarrow> r = Inr x"
  by (cases r) auto

text \<open>A handler keeps the invariant when its transaction, if it commits, does.\<close>

lemma commit_ok:
  "tables_ok lc tb \<Longrightarrow> (\<And>tb'. r = Inr tb' \<Longrightarrow> tables_ok lc tb') \<Longrightarrow> tables_ok lc (fst (commit tb ns r))"
  by (auto simp: commit_tables split: sum.split)

lemma tables_ok_audit [simp]: "tables_ok lc (record_audit who a tb) = tables_ok lc tb"
  by (simp add: tables_ok_def)

lemma create_team_ok: "tables_ok lc tb \<Longrightarrow> tables_ok lc (fst (create_team lc c tid raw tb))"
  unfolding create_team_def
proof (rule commit_ok, assumption, goal_cases)
  case (1 tb')
  then obtain name tb1 tb2 new where ins: "insert_team lc tid name tb = Inr tb1"
    and mem: "insert_member tid (cl_id c) Team_admin tb1 = Inr (tb2, new)"
    and tb': "tb' = record_audit (By_user (cl_id c)) (Team_created tid name) tb2"
    by (auto simp: bind_result_Inr_iff)
  have b: "base_ok lc tb" "admins_ok tb" "repos_ok tb" using 1(1) by (simp_all add: tables_ok_def)
  note t1 = insert_team_cases [OF ins]
  have b1: "base_ok lc tb1" using put_team_ok [OF b(1), of tid name] t1 by auto
  have none: "member_role tb1 tid (cl_id c) = None" using refs_okD [OF b(1), of tid "cl_id c"] t1
    by (cases "member_role tb tid (cl_id c)") auto
  have t2: "tb2 = tb1\<lparr>tb_members := jsset (tb_members tb1) (tid, cl_id c) Team_admin\<rparr>"
    using insert_member_cases [OF mem] none by (auto split: if_splits)
  have "admins_ok tb2" using b(2) t1 by (auto simp: admins_ok_def t2 jsget_jsset member_role_def)
  moreover have "repos_ok tb2" using b(3) t1 t2 by (simp add: repos_ok_def)
  ultimately show ?case using insert_member_ok [OF b1 mem] tb' by (simp add: tables_ok_def)
qed

lemma rename_team_to_ok: "tables_ok lc tb \<Longrightarrow> tables_ok lc (fst (rename_team_to lc c tid raw tb))"
  unfolding rename_team_to_def
proof (rule commit_ok, assumption, goal_cases)
  case (1 tb')
  then obtain name previous tb1 where r: "rename_team lc tid name tb = Inr tb1"
    and tb': "tb' = (if previous \<noteq> name then record_audit (By_user (cl_id c)) (Team_renamed tid name previous) tb1 else tb1)"
    by (auto simp: bind_result_Inr_iff split: option.splits)
  note t1 = rename_team_cases [OF r]
  have "base_ok lc tb1" using put_team_ok [of lc tb tid name] t1 1(1) by (simp add: tables_ok_def)
  moreover have "admins_ok tb1" using 1(1) t1 by (auto simp: tables_ok_def admins_ok_def jsget_jsset)
  moreover have "repos_ok tb1" using 1(1) t1 by (simp add: tables_ok_def repos_ok_def)
  ultimately show ?case using tb' by (simp add: tables_ok_def)
qed

lemma remove_team_ok: "tables_ok lc tb \<Longrightarrow> tables_ok lc (fst (remove_team c tid tb))"
  unfolding remove_team_def
proof (rule commit_ok, assumption, goal_cases)
  case (1 tb')
  then obtain tb1 where d: "delete_team tid tb = Inr tb1"
    and tb': "tb' = record_audit (By_user (cl_id c)) (Team_deleted tid (jsget (tb_teams tb) tid)) tb1"
    by (auto simp: bind_result_Inr_iff split: if_splits)
  have b: "base_ok lc tb" "admins_ok tb" "repos_ok tb" "jsmap_ok (tb_members tb)"
    using 1(1) by (simp_all add: tables_ok_def base_ok_def keys_ok_def)
  have f: "tb_teams tb1 = jsdelete (tb_teams tb) tid" "tb_workspaces tb1 = tb_workspaces tb" "tb_repos tb1 = tb_repos tb"
    "tb_members tb1 = filter (\<lambda>((t, u), r). t \<noteq> tid) (tb_members tb)"
    using d by (auto simp: delete_team_def split: if_splits)
  have "admins_ok tb1"
    using b(2) by (auto intro!: admins_ok_keep [of tb] simp: f jsget_jsdelete member_role_def map_of_filter_distinct [OF b(4)]
        split: if_splits)
  moreover have "repos_ok tb1" using b(3) by (simp add: repos_ok_def f)
  ultimately show ?case using delete_team_ok [OF b(1) d] tb' by (simp add: tables_ok_def)
qed

lemma insert_member_tables_ok:
  assumes "tables_ok lc tb" "insert_member tid uid role tb = Inr (tb1, new)"
  shows "tables_ok lc tb1"
proof -
  note c = insert_member_cases [OF assms(2)]
  have "admins_ok tb1"
    using assms(1) c by (auto simp: tables_ok_def intro!: admins_ok_keep [of tb] split: if_splits)
  moreover have "repos_ok tb1" using assms(1) c by (auto simp: tables_ok_def repos_ok_def split: if_splits)
  ultimately show ?thesis using insert_member_ok [of lc tb] assms by (simp add: tables_ok_def)
qed

lemma add_member_ok: "tables_ok lc tb \<Longrightarrow> tables_ok lc (fst (add_member c tid email role tb))"
  unfolding add_member_def
  by (auto split: option.split intro!: commit_ok simp: bind_result_Inr_iff
      dest: insert_member_tables_ok split: if_splits)

lemma change_member_role_ok: "tables_ok lc tb \<Longrightarrow> tables_ok lc (fst (change_member_role c tid uid role tb))"
  unfolding change_member_role_def
proof (rule commit_ok, assumption, goal_cases)
  case (1 tb')
  then obtain current where cur: "member_role tb tid uid = Some current"
    and ok: "\<not> (current = Team_admin \<and> role \<noteq> Team_admin \<and> count_admins tid tb \<le> 1)"
    and tb': "tb' = (let tb1 = set_member_role tid uid role tb in
      if current \<noteq> role then record_audit (By_user (cl_id c)) (Member_role_changed tid uid role current) tb1 else tb1)"
    by (auto simp: Let_def split: option.splits if_splits)
  have b: "base_ok lc tb" "admins_ok tb" "repos_ok tb" "keys_ok tb"
    using 1(1) by (simp_all add: tables_ok_def base_ok_def)
  let ?t = "set_member_role tid uid role tb"
  have t: "?t = tb\<lparr>tb_members := jsset (tb_members tb) (tid, uid) role\<rparr>" by (simp add: set_member_role_def cur)
  have "admins_ok ?t" unfolding admins_ok_def
  proof (intro allI impI)
    fix t assume "jshas (tb_teams ?t) t"
    then obtain a where a: "member_role tb t a = Some Team_admin" using b(2) by (auto simp: admins_ok_def t)
    show "\<exists>u. member_role ?t t u = Some Team_admin"
    proof (cases "t = tid \<and> current = Team_admin \<and> role \<noteq> Team_admin")
      case True
      then obtain u where "u \<noteq> uid" "member_role tb tid u = Some Team_admin" using another_admin [OF b(4)] ok by blast
      then show ?thesis using True by (auto simp: t)
    next
      case False
      then show ?thesis using a cur by (auto simp: t intro!: exI [of _ a])
    qed
  qed
  moreover have "repos_ok ?t" using b(3) by (simp add: repos_ok_def t)
  ultimately show ?case using set_member_role_ok [OF b(1)] tb' by (simp add: tables_ok_def Let_def)
qed

text \<open>Leaving keeps the invariant unless the last admin leaves.\<close>

lemma leave_tables_ok:
  assumes "tables_ok lc tb" "member_role tb tid uid = Some Team_admin \<longrightarrow> \<not> count_admins tid tb \<le> 1"
  shows "tables_ok lc (leave tid uid tb)"
proof -
  have b: "base_ok lc tb" "admins_ok tb" "repos_ok tb" "keys_ok tb"
    using assms(1) by (simp_all add: tables_ok_def base_ok_def)
  have "admins_ok (leave tid uid tb)" unfolding admins_ok_def
  proof (intro allI impI)
    fix t assume "jshas (tb_teams (leave tid uid tb)) t"
    then obtain a where a: "member_role tb t a = Some Team_admin" using b(2) by (auto simp: admins_ok_def)
    show "\<exists>u. member_role (leave tid uid tb) t u = Some Team_admin"
    proof (cases "t = tid \<and> a = uid")
      case True
      then obtain u where "u \<noteq> uid" "member_role tb tid u = Some Team_admin"
        using another_admin [OF b(4)] assms(2) a by blast
      then show ?thesis using True by (auto simp: member_role_leave)
    next
      case False
      then show ?thesis using a by (intro exI [of _ a]) (auto simp: member_role_leave)
    qed
  qed
  moreover have "repos_ok (leave tid uid tb)" using b(3) by (simp add: repos_ok_def)
  ultimately show ?thesis using leave_ok [OF b(1)] by (simp add: tables_ok_def)
qed

lemma remove_member_ok: "tables_ok lc tb \<Longrightarrow> tables_ok lc (fst (remove_member c access tid uid tb))"
  using leave_tables_ok [of lc tb tid uid]
  by (auto simp: remove_member_def leave_def intro!: commit_ok split: option.splits if_splits)

lemma create_workspace_tx_cases:
  assumes "create_workspace_tx lc c tid wid raw dflt fault tb = Inr tb4"
  obtains name tb1 tb2 where
    "insert_workspace lc wid name tid (coalesce dflt Default_viewer) (Some (cl_id c)) tb = Inr tb1"
    "(if member_role tb1 tid (cl_id c) \<noteq> None then upsert_grant wid (cl_id c) Ws_admin tb1 else Inr tb1) = Inr tb2"
    "tb4 = (record_audit (By_user (cl_id c)) (Workspace_created wid tid name (coalesce dflt Default_viewer)) tb2)
        \<lparr>tb_repos := tb_repos tb2 @ [wid]\<rparr>"
proof -
  note goal = that
  obtain name tb1 tb2 where h: "insert_workspace lc wid name tid (coalesce dflt Default_viewer) (Some (cl_id c)) tb = Inr tb1"
    "(if member_role tb1 tid (cl_id c) \<noteq> None then upsert_grant wid (cl_id c) Ws_admin tb1 else Inr tb1) = Inr tb2"
    and fin: "(let tb3 = record_audit (By_user (cl_id c)) (Workspace_created wid tid name (coalesce dflt Default_viewer)) tb2 in
       if wid \<in> set (tb_repos tb3) then Inl Repo_exists
       else if fault = Create_fails then Inl Repo_failed
       else Inr (tb3\<lparr>tb_repos := tb_repos tb3 @ [wid]\<rparr>)) = Inr tb4"
    using assms unfolding create_workspace_tx_def bind_result_Inr_iff by blast
  show ?thesis by (rule goal [OF h]) (use fin in \<open>simp add: Let_def split: if_split_asm\<close>)
qed

lemma create_workspace_tables:
  "fst (create_workspace lc c tid wid raw dflt fault tb) =
     (case create_workspace_tx lc c tid wid raw dflt fault tb of Inl p \<Rightarrow> tb
      | Inr tb4 \<Rightarrow> (case fault of Commit_fails moved \<Rightarrow> if moved then tb else tb\<lparr>tb_repos := tb_repos tb @ [wid]\<rparr> | _ \<Rightarrow> tb4))"
  unfolding create_workspace_def by (auto split: sum.split fault.split)

lemma create_workspace_ok: "tables_ok lc tb \<Longrightarrow> tables_ok lc (fst (create_workspace lc c tid wid raw dflt fault tb))"
proof -
  assume ok: "tables_ok lc tb"
  then have b: "base_ok lc tb" "admins_ok tb" "repos_ok tb" by (simp_all add: tables_ok_def)
  have built: "tables_ok lc tb4" if "create_workspace_tx lc c tid wid raw dflt fault tb = Inr tb4" for tb4
    using that
  proof (cases rule: create_workspace_tx_cases)
    case (1 name tb1 tb2)
    obtain row where row: "ws_team row = tid" "tb1 = tb\<lparr>tb_workspaces := jsset (tb_workspaces tb) wid row\<rparr>"
      and b1: "base_ok lc tb1" using insert_workspace_ok [OF b(1) 1(1)] by blast
    have g: "base_ok lc tb2 \<and> tb_teams tb2 = tb_teams tb1 \<and> tb_members tb2 = tb_members tb1 \<and>
        tb_workspaces tb2 = tb_workspaces tb1 \<and> tb_repos tb2 = tb_repos tb1"
    proof (cases "member_role tb1 tid (cl_id c) \<noteq> None")
      case True
      then have "is_team_member_of_workspace wid (cl_id c) tb1"
        using row by (auto simp: is_team_member_iff jsget_jsset)
      then show ?thesis using upsert_grant_ok [OF b1] True 1(2) by fastforce
    qed (use 1(2) b1 in simp)
    have "admins_ok tb2" using b(2) g row(2) by (simp add: admins_ok_def member_role_def)
    moreover have "\<forall>w. jshas (tb_workspaces tb2) w \<longrightarrow> w = wid \<or> w \<in> set (tb_repos tb2)"
      using b(3) g row(2) by (auto simp: repos_ok_def jsget_jsset)
    ultimately show ?thesis using g by (auto simp: 1(3) tables_ok_def admins_ok_def repos_ok_def)
  qed
  have "tables_ok lc (tb\<lparr>tb_repos := tb_repos tb @ [wid]\<rparr>)"
    using b by (auto simp: tables_ok_def admins_ok_def repos_ok_def)
  then show ?thesis using ok built by (auto simp: create_workspace_tables split: sum.split fault.split)
qed

lemma fold_audit_ok [simp]: "tables_ok lc (fold (record_audit who) as tb) = tables_ok lc tb"
  by (induction as arbitrary: tb) simp_all

lemma patch_workspace_ok: "tables_ok lc tb \<Longrightarrow> tables_ok lc (fst (patch_workspace lc c wid body licensed tb))"
proof -
  assume ok: "tables_ok lc tb"
  have upd: "tables_ok lc tb1" if "update_workspace lc wid p tb = Inr tb1" for p tb1
  proof -
    have b: "base_ok lc tb" "admins_ok tb" "repos_ok tb" using ok by (simp_all add: tables_ok_def)
    note u = update_workspace_ok [OF b(1) that]
    show ?thesis
    proof (cases "jsget (tb_workspaces tb) wid")
      case None
      then show ?thesis using that ok by (simp add: update_workspace_def)
    next
      case (Some row)
      then show ?thesis using u b by (auto simp: tables_ok_def admins_ok_def repos_ok_def jsget_jsset)
    qed
  qed
  show ?thesis
    using ok upd unfolding patch_workspace_def
    by (auto simp: Let_def bind_result_Inr_iff intro!: commit_ok split: sum.split option.splits)
qed

lemma admins_ok_repos: "admins_ok (tb\<lparr>tb_repos := rs\<rparr>) = admins_ok tb"
  by (simp add: admins_ok_def member_role_def)

lemma remove_workspace_ok:
  assumes ok: "tables_ok lc tb"
  shows "tables_ok lc (fst (remove_workspace c wid fault tb))"
proof -
  have b: "base_ok lc (delete_workspace wid tb)" using ok by (simp add: tables_ok_def delete_workspace_ok)
  have a: "admins_ok (delete_workspace wid tb)"
    using ok by (simp add: tables_ok_def admins_ok_def delete_workspace_def)
  have r: "repos_ok (delete_workspace wid tb)"
    using ok by (auto simp: tables_ok_def repos_ok_def delete_workspace_def jsget_jsdelete)
  have gone: "tables_ok lc (record_audit who act tb'\<lparr>tb_repos := jsremove (tb_repos tb') wid\<rparr>)"
    if "tables_ok lc tb'" "\<not> jshas (tb_workspaces tb') wid" for tb' who act
    using that by (auto simp: tables_ok_def admins_ok_repos repos_ok_def)
  have "\<not> jshas (tb_workspaces (delete_workspace wid tb)) wid"
    by (simp add: delete_workspace_def jsget_jsdelete)
  moreover have "tables_ok lc (delete_workspace wid tb)" using a b r by (simp add: tables_ok_def)
  ultimately show ?thesis by (simp add: remove_workspace_def Let_def gone)
qed

lemma set_access_ok: "tables_ok lc tb \<Longrightarrow> tables_ok lc (fst (set_access c wid uid role tb))"
  unfolding set_access_def
proof (rule commit_ok, assumption, goal_cases)
  case (1 tb')
  then obtain tb1 where m: "is_team_member_of_workspace wid uid tb" and u: "upsert_grant wid uid role tb = Inr tb1"
    and tb': "tb' = record_audit (By_user (cl_id c))
        (Grant_set wid uid role (map_option ws_team (jsget (tb_workspaces tb1) wid))) tb1"
    by (auto simp: bind_result_Inr_iff split: if_splits)
  have b: "base_ok lc tb" "admins_ok tb" "repos_ok tb" using 1(1) by (simp_all add: tables_ok_def)
  show ?case using upsert_grant_ok [OF b(1) u m] b tb' by (auto simp: tables_ok_def admins_ok_def repos_ok_def)
qed

lemma delete_access_ok: "tables_ok lc tb \<Longrightarrow> tables_ok lc (fst (delete_access c wid uid tb))"
proof -
  assume ok: "tables_ok lc tb"
  then have "tables_ok lc (fst (delete_grant wid uid tb))"
    using delete_grant_ok by (auto simp: tables_ok_def admins_ok_def repos_ok_def delete_grant_def)
  then show ?thesis by (auto simp: delete_access_def commit_tables split: prod.split option.split)
qed

lemma invite_ok: "tables_ok lc tb \<Longrightarrow> tables_ok lc (fst (commit tb [] (insert_team_invitation iid tid role tb)))"
proof (rule commit_ok, assumption)
  fix tb' assume ok: "tables_ok lc tb" and i: "insert_team_invitation iid tid role tb = Inr tb'"
  have "admins_ok tb'" "repos_ok tb'"
    using ok i by (auto simp: insert_team_invitation_def tables_ok_def admins_ok_def repos_ok_def split: if_splits)
  then show "tables_ok lc tb'" using insert_team_invitation_ok [OF _ i] ok by (simp add: tables_ok_def)
qed

lemma add_invited_member_ok: "tables_ok lc tb \<Longrightarrow> add_invited_member iid uid tb = Inr tb' \<Longrightarrow> tables_ok lc tb'"
  using insert_member_tables_ok [of lc tb]
  by (auto simp: add_invited_member_def bind_result_Inr_iff split: option.splits if_splits)

lemmas handler_oks = create_team_ok rename_team_to_ok remove_team_ok add_member_ok change_member_role_ok remove_member_ok
  create_workspace_ok patch_workspace_ok remove_workspace_ok set_access_ok delete_access_ok invite_ok

lemma handle_ok: "tables_ok lc tb \<Longrightarrow> tables_ok lc (fst (handle lc c access rq tb))"
  by (cases rq) (simp_all add: handle_def handler_oks)

lemma serve_ok: "tables_ok lc tb \<Longrightarrow> tables_ok lc (fst (serve lc p rq tb))"
  by (auto simp: serve_def handle_ok split: sum.split)

section \<open>What each request can change\<close>

lemma statement_members:
  "insert_team lc tid name tb = Inr tb1 \<Longrightarrow> tb_members tb1 = tb_members tb"
  "rename_team lc tid name tb = Inr tb1 \<Longrightarrow> tb_members tb1 = tb_members tb"
  "insert_workspace lc wid name tid dflt by tb = Inr tb1 \<Longrightarrow> tb_members tb1 = tb_members tb"
  "update_workspace lc wid p tb = Inr tb1 \<Longrightarrow> tb_members tb1 = tb_members tb"
  "upsert_grant wid uid role tb = Inr tb1 \<Longrightarrow> tb_members tb1 = tb_members tb"
  "insert_team_invitation iid tid trole tb = Inr tb1 \<Longrightarrow> tb_members tb1 = tb_members tb"
  by (auto simp: insert_team_def rename_team_def insert_workspace_def update_workspace_def upsert_grant_def
      insert_team_invitation_def split: if_splits option.splits)

lemma statement_workspaces:
  "insert_team lc tid name tb = Inr tb1 \<Longrightarrow> tb_workspaces tb1 = tb_workspaces tb \<and> tb_grants tb1 = tb_grants tb"
  "rename_team lc tid name tb = Inr tb1 \<Longrightarrow> tb_workspaces tb1 = tb_workspaces tb \<and> tb_grants tb1 = tb_grants tb"
  "delete_team tid tb = Inr tb1 \<Longrightarrow> tb_workspaces tb1 = tb_workspaces tb \<and> tb_grants tb1 = tb_grants tb"
  "insert_member tid uid trole tb = Inr (tb1, new) \<Longrightarrow> tb_workspaces tb1 = tb_workspaces tb \<and> tb_grants tb1 = tb_grants tb"
  "insert_team_invitation iid tid trole tb = Inr tb1 \<Longrightarrow> tb_workspaces tb1 = tb_workspaces tb \<and> tb_grants tb1 = tb_grants tb"
  "insert_workspace lc wid name tid dflt by tb = Inr tb1 \<Longrightarrow> tb_grants tb1 = tb_grants tb"
  "update_workspace lc wid p tb = Inr tb1 \<Longrightarrow> tb_grants tb1 = tb_grants tb"
  "upsert_grant wid uid role tb = Inr tb1 \<Longrightarrow> tb_workspaces tb1 = tb_workspaces tb"
  by (auto simp: insert_team_def rename_team_def delete_team_def insert_member_def insert_team_invitation_def
      insert_workspace_def update_workspace_def upsert_grant_def split: if_splits option.splits)

lemma audits_fields [simp]:
  "tb_members (fold (record_audit who) as tb) = tb_members tb"
  "tb_workspaces (fold (record_audit who) as tb) = tb_workspaces tb"
  "tb_grants (fold (record_audit who) as tb) = tb_grants tb"
  by (induction as arbitrary: tb) simp_all

text \<open>The tables a handler leaves: those of before, or those its transaction built.\<close>

lemma commit_field:
  "(\<And>tb'. r = Inr tb' \<Longrightarrow> F tb' = F tb) \<Longrightarrow> F (fst (commit tb ns r)) = F tb"
  by (simp add: commit_tables split: sum.split)

lemma create_team_fields:
  "tb_workspaces (fst (create_team lc c tid raw tb)) = tb_workspaces tb" (is ?W)
  "tb_grants (fst (create_team lc c tid raw tb)) = tb_grants tb" (is ?G)
proof -
  show ?W unfolding create_team_def
    by (rule commit_field) (auto simp: bind_result_Inr_iff dest!: statement_workspaces)
  show ?G unfolding create_team_def
    by (rule commit_field) (auto simp: bind_result_Inr_iff dest!: statement_workspaces)
qed

lemma rename_team_to_fields:
  "tb_members (fst (rename_team_to lc c tid raw tb)) = tb_members tb" (is ?M)
  "tb_workspaces (fst (rename_team_to lc c tid raw tb)) = tb_workspaces tb" (is ?W)
  "tb_grants (fst (rename_team_to lc c tid raw tb)) = tb_grants tb" (is ?G)
proof -
  have step: "tb_members tb' = tb_members tb \<and> tb_workspaces tb' = tb_workspaces tb \<and> tb_grants tb' = tb_grants tb"
    if body: "catch f (case jsget (tb_teams tb) tid of None \<Rightarrow> Inl Team_not_found
          | Some previous \<Rightarrow> bind_result (rename_team lc tid name tb) (\<lambda>tb1.
              Inr (if previous \<noteq> name then record_audit who (act previous) tb1 else tb1))) = Inr tb'"
    for f name who act tb'
  proof -
    obtain previous tb1 where "rename_team lc tid name tb = Inr tb1"
        "tb' = (if previous \<noteq> name then record_audit who (act previous) tb1 else tb1)"
      using body by (auto simp: bind_result_Inr_iff split: option.splits)
    then show ?thesis using statement_members(2) [of lc tid name tb tb1] statement_workspaces(2) [of lc tid name tb tb1] by simp
  qed
  show ?M ?W ?G unfolding rename_team_to_def
    by (rule commit_field, use step in \<open>force simp: bind_result_Inr_iff\<close>)+
qed

lemma remove_team_fields:
  "tb_workspaces (fst (remove_team c tid tb)) = tb_workspaces tb" (is ?W)
  "tb_grants (fst (remove_team c tid tb)) = tb_grants tb" (is ?G)
proof -
  show ?W unfolding remove_team_def
    by (rule commit_field) (auto simp: bind_result_Inr_iff dest!: statement_workspaces split: if_splits)
  show ?G unfolding remove_team_def
    by (rule commit_field) (auto simp: bind_result_Inr_iff dest!: statement_workspaces split: if_splits)
qed

lemma add_member_fields:
  "tb_workspaces (fst (add_member c tid email role tb)) = tb_workspaces tb"
  "tb_grants (fst (add_member c tid email role tb)) = tb_grants tb"
  "t \<noteq> tid \<Longrightarrow> member_role (fst (add_member c tid email role tb)) t u = member_role tb t u"
  by (auto simp: add_member_def bind_result_Inr_iff commit_tables catch_Inr
      dest!: statement_workspaces insert_member_cases split: option.split sum.split if_splits)

lemma change_member_role_fields:
  "tb_workspaces (fst (change_member_role c tid uid role tb)) = tb_workspaces tb"
  "tb_grants (fst (change_member_role c tid uid role tb)) = tb_grants tb"
  "t \<noteq> tid \<Longrightarrow> member_role (fst (change_member_role c tid uid role tb)) t u = member_role tb t u"
  by (auto simp: change_member_role_def commit_tables set_member_role_def Let_def split: option.split if_splits)

lemma remove_member_fields:
  "tb_workspaces (fst (remove_member c access tid uid tb)) = tb_workspaces tb"
  "member_role (fst (remove_member c access tid uid tb)) t u \<noteq> member_role tb t u \<Longrightarrow>
     t = tid \<and> u = uid \<and> (access = Team_admin \<or> uid = cl_id c) \<and>
     member_role (fst (remove_member c access tid uid tb)) t u = None"
  by (auto simp: remove_member_def commit_tables leave_def [symmetric] member_role_leave split: option.split if_splits)

lemma remove_member_grants:
  "jsmap_ok (tb_grants tb) \<Longrightarrow>
   jsget (tb_grants (fst (remove_member c access tid uid tb))) (w, u) \<noteq> jsget (tb_grants tb) (w, u) \<Longrightarrow>
   u = uid \<and> (\<exists>row. jsget (tb_workspaces tb) w = Some row \<and> ws_team row = tid) \<and>
   member_role tb tid uid \<noteq> None \<and> member_role (fst (remove_member c access tid uid tb)) tid uid = None"
  by (auto simp: remove_member_def commit_tables leave_def [symmetric] member_role_leave grant_leave
      split: option.split if_splits)

lemma insert_workspace_cases:
  assumes "insert_workspace lc wid name tid dflt by tb = Inr tb1"
  shows "\<not> jshas (tb_workspaces tb) wid \<and>
    (\<exists>row. ws_team row = tid \<and> tb1 = tb\<lparr>tb_workspaces := jsset (tb_workspaces tb) wid row\<rparr>)"
proof -
  define row where "row = \<lparr>ws_name = name, ws_team = tid, ws_default = dflt, ws_desktop = False, ws_session_logs = False,
                     ws_features_off = [], ws_created_by = by\<rparr>"
  have "\<not> jshas (tb_workspaces tb) wid \<and> tb1 = tb\<lparr>tb_workspaces := jsset (tb_workspaces tb) wid row\<rparr>"
    using assms by (auto simp: insert_workspace_def row_def split: if_splits)
  moreover have "ws_team row = tid" by (simp add: row_def)
  ultimately show ?thesis by blast
qed

lemma create_workspace_fields:
  "tb_members (fst (create_workspace lc c tid wid raw dflt fault tb)) = tb_members tb" (is ?M)
  "jsget (tb_workspaces (fst (create_workspace lc c tid wid raw dflt fault tb))) w \<noteq> jsget (tb_workspaces tb) w \<Longrightarrow>
     w = wid \<and> \<not> jshas (tb_workspaces tb) wid \<and>
     (\<exists>row. ws_team row = tid \<and> jsget (tb_workspaces (fst (create_workspace lc c tid wid raw dflt fault tb))) w = Some row)"
    (is "?W \<Longrightarrow> _")
  "jsget (tb_grants (fst (create_workspace lc c tid wid raw dflt fault tb))) (w, u) \<noteq> jsget (tb_grants tb) (w, u) \<Longrightarrow>
     w = wid \<and> \<not> jshas (tb_workspaces tb) wid \<and> u = cl_id c" (is "?G \<Longrightarrow> _")
proof -
  let ?after = "fst (create_workspace lc c tid wid raw dflt fault tb)"
  have tx: "tb_members tb4 = tb_members tb \<and> \<not> jshas (tb_workspaces tb) wid \<and>
     (\<exists>row. ws_team row = tid \<and> tb_workspaces tb4 = jsset (tb_workspaces tb) wid row) \<and>
     (tb_grants tb4 = tb_grants tb \<or> (\<exists>r. tb_grants tb4 = jsset (tb_grants tb) (wid, cl_id c) r))"
    if "create_workspace_tx lc c tid wid raw dflt fault tb = Inr tb4" for tb4
    using that
  proof (cases rule: create_workspace_tx_cases)
    case (1 name tb1 tb2)
    have ins: "tb_members tb1 = tb_members tb \<and> tb_grants tb1 = tb_grants tb \<and> \<not> jshas (tb_workspaces tb) wid \<and>
        (\<exists>row. ws_team row = tid \<and> tb_workspaces tb1 = jsset (tb_workspaces tb) wid row)"
      using insert_workspace_cases [OF 1(1)] by auto
    have "tb_members tb2 = tb_members tb1 \<and> tb_workspaces tb2 = tb_workspaces tb1 \<and>
        (tb_grants tb2 = tb_grants tb1 \<or> (\<exists>r. tb_grants tb2 = jsset (tb_grants tb1) (wid, cl_id c) r))"
      using 1(2) by (auto simp: upsert_grant_def split: if_splits)
    then show ?thesis using ins by (simp add: 1(3))
  qed
  have "tb_members ?after = tb_members tb \<and>
    (tb_workspaces ?after = tb_workspaces tb \<and> tb_grants ?after = tb_grants tb \<or>
     \<not> jshas (tb_workspaces tb) wid \<and>
     (\<exists>row. ws_team row = tid \<and> tb_workspaces ?after = jsset (tb_workspaces tb) wid row) \<and>
     (tb_grants ?after = tb_grants tb \<or> (\<exists>r. tb_grants ?after = jsset (tb_grants tb) (wid, cl_id c) r)))"
    using tx by (auto simp: create_workspace_tables split: sum.split fault.split)
  then show ?M "?W \<Longrightarrow> w = wid \<and> \<not> jshas (tb_workspaces tb) wid \<and> (\<exists>row. ws_team row = tid \<and> jsget (tb_workspaces ?after) w = Some row)"
      "?G \<Longrightarrow> w = wid \<and> \<not> jshas (tb_workspaces tb) wid \<and> u = cl_id c"
    by (auto simp: jsget_jsset split: if_splits)
qed

lemma patch_workspace_fields:
  "tb_members (fst (patch_workspace lc c wid body licensed tb)) = tb_members tb"
  "tb_grants (fst (patch_workspace lc c wid body licensed tb)) = tb_grants tb"
  "w \<noteq> wid \<Longrightarrow> jsget (tb_workspaces (fst (patch_workspace lc c wid body licensed tb))) w = jsget (tb_workspaces tb) w"
  by (auto simp: patch_workspace_def Let_def commit_tables bind_result_Inr_iff update_workspace_def jsget_jsset
      split: sum.split option.splits if_splits)

lemma remove_workspace_fields:
  "tb_members (fst (remove_workspace c wid fault tb)) = tb_members tb"
  "w \<noteq> wid \<Longrightarrow> jsget (tb_workspaces (fst (remove_workspace c wid fault tb))) w = jsget (tb_workspaces tb) w"
  "jsmap_ok (tb_grants tb) \<Longrightarrow> w \<noteq> wid \<Longrightarrow>
     jsget (tb_grants (fst (remove_workspace c wid fault tb))) (w, u) = jsget (tb_grants tb) (w, u)"
  by (auto simp: remove_workspace_def Let_def delete_workspace_def jsget_jsdelete map_of_filter_distinct split: option.split)

lemma set_access_fields:
  "tb_members (fst (set_access c wid uid role tb)) = tb_members tb"
  "tb_workspaces (fst (set_access c wid uid role tb)) = tb_workspaces tb"
  "w \<noteq> wid \<Longrightarrow> jsget (tb_grants (fst (set_access c wid uid role tb))) (w, u) = jsget (tb_grants tb) (w, u)"
  by (auto simp: set_access_def commit_tables bind_result_Inr_iff upsert_grant_def jsget_jsset split: sum.split if_splits)

lemma delete_access_fields:
  "tb_members (fst (delete_access c wid uid tb)) = tb_members tb"
  "tb_workspaces (fst (delete_access c wid uid tb)) = tb_workspaces tb"
  "w \<noteq> wid \<Longrightarrow> jsget (tb_grants (fst (delete_access c wid uid tb))) (w, u) = jsget (tb_grants tb) (w, u)"
  by (auto simp: delete_access_def commit_tables delete_grant_def jsget_jsdelete split: option.split)

lemma invite_fields:
  "tb_members (fst (commit tb [] (insert_team_invitation iid tid role tb))) = tb_members tb"
  "tb_workspaces (fst (commit tb [] (insert_team_invitation iid tid role tb))) = tb_workspaces tb"
  "tb_grants (fst (commit tb [] (insert_team_invitation iid tid role tb))) = tb_grants tb"
  by (auto simp: commit_tables insert_team_invitation_def split: sum.split if_splits)

section \<open>What the guards ask\<close>

lemma at_least_admin [simp]: "at_least r Ws_admin \<longleftrightarrow> r = Ws_admin"
  by (cases r) (simp_all add: at_least_def)

definition acts_as :: "tables \<Rightarrow> caller \<Rightarrow> string \<Rightarrow> team_role \<Rightarrow> bool" where
  "acts_as tb c tid access \<longleftrightarrow>
     (if cl_server_admin c then access = Team_admin else member_role tb tid (cl_id c) = Some access)"

definition administers :: "tables \<Rightarrow> caller \<Rightarrow> string \<Rightarrow> bool" where
  "administers tb c wid \<longleftrightarrow> (\<exists>src. effective_role tb (cl_id c) wid = Has_role Ws_admin src)"

lemma require_team_role_cases:
  "require_team_role tb p tid least = Inr access \<Longrightarrow>
   \<exists>c. p = User_caller c \<and> acts_as tb c tid access \<and> (least = Team_admin \<longrightarrow> access = Team_admin)"
  by (auto simp: require_team_role_def acts_as_def Let_def split: principal.splits if_splits option.splits)

lemma require_workspace_role_cases:
  "require_workspace_role tb p wid Ws_admin = Inr r \<Longrightarrow> \<exists>c. p = User_caller c \<and> administers tb c wid"
  by (auto simp: require_workspace_role_def administers_def split: principal.splits if_splits effective.splits)

lemma guard_cases:
  assumes "guard tb p rq = Inr (c, access)"
  shows "p = User_caller c \<and> (case rq of
      Create_team tid name \<Rightarrow> cl_server_admin c
    | Remove_team tid \<Rightarrow> cl_server_admin c
    | Rename_team tid name \<Rightarrow> acts_as tb c tid access \<and> access = Team_admin
    | Add_member tid email role \<Rightarrow> acts_as tb c tid access \<and> access = Team_admin
    | Change_role tid uid role \<Rightarrow> acts_as tb c tid access \<and> access = Team_admin
    | Invite tid iid role \<Rightarrow> acts_as tb c tid access \<and> access = Team_admin
    | Remove_member tid uid \<Rightarrow> acts_as tb c tid access
    | Create_workspace tid wid name dflt fault \<Rightarrow> acts_as tb c tid access
    | Patch_workspace wid body licensed \<Rightarrow> administers tb c wid
    | Remove_workspace wid fault \<Rightarrow> administers tb c wid
    | Set_access wid uid role \<Rightarrow> administers tb c wid
    | Delete_access wid uid \<Rightarrow> administers tb c wid)"
proof -
  have user: "require_user p = Inr c' \<Longrightarrow> p = User_caller c'" for c'
    by (auto simp: require_user_def split: principal.splits)
  have server: "require_server_admin p = Inr c' \<Longrightarrow> p = User_caller c' \<and> cl_server_admin c'" for c'
    by (auto simp: require_server_admin_def split: principal.splits if_splits)
  show ?thesis
    using assms by (cases rq)
      (auto simp: guard_def Let_def bind_result_Inr_iff dest!: user server require_team_role_cases require_workspace_role_cases)
qed

lemmas handler_fields = create_team_fields rename_team_to_fields remove_team_fields add_member_fields
  change_member_role_fields remove_member_fields(1) create_workspace_fields(1) patch_workspace_fields
  remove_workspace_fields set_access_fields delete_access_fields invite_fields

lemma same_members: "tb_members tb' = tb_members tb \<Longrightarrow> member_role tb' = member_role tb"
  by (simp add: member_role_def fun_eq_iff)

lemmas role_fields = rename_team_to_fields(1) [THEN same_members] create_workspace_fields(1) [THEN same_members]
  patch_workspace_fields(1) [THEN same_members] remove_workspace_fields(1) [THEN same_members]
  set_access_fields(1) [THEN same_members] delete_access_fields(1) [THEN same_members] invite_fields(1) [THEN same_members]

text \<open>Who may change a membership: a team admin or a server admin, or the member who leaves.\<close>

lemma members_authorised:
  assumes "serve lc p rq tb = (tb', ns, r)" "member_role tb' t u \<noteq> member_role tb t u"
  shows "\<exists>c. p = User_caller c \<and> (cl_server_admin c \<or> member_role tb t (cl_id c) = Some Team_admin
     \<or> u = cl_id c \<and> member_role tb' t u = None)"
proof (cases "guard tb p rq")
  case (Inl e)
  then show ?thesis using assms by (simp add: serve_def)
next
  case (Inr ca)
  obtain c access where g: "guard tb p rq = Inr (c, access)" using Inr by (cases ca) simp
  have h: "tb' = fst (handle lc c access rq tb)" using assms(1) by (simp add: serve_def g)
  note ch = assms(2) [unfolded h]
  show ?thesis
  proof (cases rq)
    case (Add_member tid email role)
    then have "t = tid" using ch by (rule_tac ccontr) (simp add: handle_def add_member_fields)
    then show ?thesis using guard_cases [OF g] Add_member by (auto simp: acts_as_def split: if_splits)
  next
    case (Change_role tid uid role)
    then have "t = tid" using ch by (rule_tac ccontr) (simp add: handle_def change_member_role_fields)
    then show ?thesis using guard_cases [OF g] Change_role by (auto simp: acts_as_def split: if_splits)
  next
    case (Remove_member tid uid)
    then show ?thesis using guard_cases [OF g] ch remove_member_fields(2) [of c access tid uid tb t u]
      by (auto simp: h handle_def acts_as_def split: if_splits)
  qed (use guard_cases [OF g] ch in \<open>auto simp: handle_def role_fields\<close>)
qed

text \<open>Who may change a workspace: its admins; and members of the team may make one.\<close>

lemma workspaces_authorised:
  assumes "serve lc p rq tb = (tb', ns, r)" "jsget (tb_workspaces tb') w \<noteq> jsget (tb_workspaces tb) w"
  shows "\<exists>c. p = User_caller c \<and> (administers tb c w \<or> \<not> jshas (tb_workspaces tb) w \<and>
     (\<exists>row. jsget (tb_workspaces tb') w = Some row \<and> (cl_server_admin c \<or> member_role tb (ws_team row) (cl_id c) \<noteq> None)))"
proof (cases "guard tb p rq")
  case (Inl e)
  then show ?thesis using assms by (simp add: serve_def)
next
  case (Inr ca)
  obtain c access where g: "guard tb p rq = Inr (c, access)" using Inr by (cases ca) simp
  have h: "tb' = fst (handle lc c access rq tb)" using assms(1) by (simp add: serve_def g)
  note ch = assms(2) [unfolded h] and gc = guard_cases [OF g]
  show ?thesis
  proof (cases rq)
    case (Create_workspace tid wid name dflt fault)
    then have n: "w = wid \<and> \<not> jshas (tb_workspaces tb) wid \<and> (\<exists>row. ws_team row = tid \<and> jsget (tb_workspaces tb') w = Some row)"
      using ch create_workspace_fields(2) [of lc c tid wid name dflt fault tb w] by (auto simp: h handle_def)
    then show ?thesis using gc Create_workspace by (auto simp: acts_as_def split: if_splits)
  next
    case (Patch_workspace wid body licensed)
    then have "w = wid" using ch by (rule_tac ccontr) (simp add: handle_def patch_workspace_fields)
    then show ?thesis using gc Patch_workspace by auto
  next
    case (Remove_workspace wid fault)
    then have "w = wid" using ch by (rule_tac ccontr) (simp add: handle_def remove_workspace_fields)
    then show ?thesis using gc Remove_workspace by auto
  qed (use ch in \<open>auto simp: handle_def handler_fields\<close>)
qed

text \<open>Who may change a grant: the workspace's admins; its creator's comes with it, a member's goes with the membership.\<close>

lemma grants_authorised:
  assumes "jsmap_ok (tb_grants tb)" "serve lc p rq tb = (tb', ns, r)"
    and "jsget (tb_grants tb') (w, u) \<noteq> jsget (tb_grants tb) (w, u)"
  shows "\<exists>c. p = User_caller c \<and> (administers tb c w \<or> \<not> jshas (tb_workspaces tb) w \<and> u = cl_id c \<or>
     (\<exists>row. jsget (tb_workspaces tb) w = Some row \<and> member_role tb (ws_team row) u \<noteq> None \<and> member_role tb' (ws_team row) u = None))"
proof (cases "guard tb p rq")
  case (Inl e)
  then show ?thesis using assms by (simp add: serve_def)
next
  case (Inr ca)
  obtain c access where g: "guard tb p rq = Inr (c, access)" using Inr by (cases ca) simp
  have h: "tb' = fst (handle lc c access rq tb)" using assms(2) by (simp add: serve_def g)
  note ch = assms(3) [unfolded h] and gc = guard_cases [OF g]
  show ?thesis
  proof (cases rq)
    case (Remove_member tid uid)
    then show ?thesis using gc ch remove_member_grants [OF assms(1), of c access tid uid w u]
      by (auto simp: h handle_def)
  next
    case (Create_workspace tid wid name dflt fault)
    then show ?thesis using gc ch create_workspace_fields(3) [of lc c tid wid name dflt fault tb w u]
      by (auto simp: handle_def)
  next
    case (Remove_workspace wid fault)
    then have "w = wid" using ch assms(1) by (rule_tac ccontr) (simp add: handle_def remove_workspace_fields)
    then show ?thesis using gc Remove_workspace by auto
  next
    case (Set_access wid uid role)
    then have "w = wid" using ch by (rule_tac ccontr) (simp add: handle_def set_access_fields)
    then show ?thesis using gc Set_access by auto
  next
    case (Delete_access wid uid)
    then have "w = wid" using ch by (rule_tac ccontr) (simp add: handle_def delete_access_fields)
    then show ?thesis using gc Delete_access by auto
  qed (use ch in \<open>auto simp: handle_def handler_fields\<close>)
qed

section \<open>Properties\<close>

text \<open>C7: Whatever a request does, it does with a right the caller holds. A membership changes only for a server admin,
  an admin of that team, or the member who leaves; a workspace changes only for somebody the role rule makes
  its admin, or comes into being for a member of its team (or a server admin); a grant changes only for an
  admin of the workspace, except that a workspace's creator gets theirs with it and a member's go with the
  membership. A request without a user, a CI token's included, changes none of them.\<close>

theorem requests_are_authorised:
  assumes "tables_ok lc tb" "serve lc p rq tb = (tb', ns, r)"
  shows "(member_role tb' t u \<noteq> member_role tb t u \<longrightarrow> (\<exists>c. p = User_caller c \<and>
       (cl_server_admin c \<or> member_role tb t (cl_id c) = Some Team_admin \<or> u = cl_id c \<and> member_role tb' t u = None)))
    \<and> (jsget (tb_workspaces tb') w \<noteq> jsget (tb_workspaces tb) w \<longrightarrow> (\<exists>c. p = User_caller c \<and>
       (administers tb c w \<or> \<not> jshas (tb_workspaces tb) w \<and> (\<exists>row. jsget (tb_workspaces tb') w = Some row \<and>
          (cl_server_admin c \<or> member_role tb (ws_team row) (cl_id c) \<noteq> None)))))
    \<and> (jsget (tb_grants tb') (w, u) \<noteq> jsget (tb_grants tb) (w, u) \<longrightarrow> (\<exists>c. p = User_caller c \<and>
       (administers tb c w \<or> \<not> jshas (tb_workspaces tb) w \<and> u = cl_id c \<or>
        (\<exists>row. jsget (tb_workspaces tb) w = Some row \<and> member_role tb (ws_team row) u \<noteq> None \<and>
           member_role tb' (ws_team row) u = None))))"
proof -
  have "jsmap_ok (tb_grants tb)" using assms(1) by (simp add: tables_ok_def base_ok_def keys_ok_def)
  then show ?thesis
    using members_authorised [OF assms(2)] workspaces_authorised [OF assms(2)] grants_authorised [OF _ assms(2)] by blast
qed

definition ex_user :: "string \<Rightarrow> user_row" where
  "ex_user mail = \<lparr>us_email = mail, us_lower = mail, us_display = mail, us_disabled = False, us_server_admin = False\<rparr>"

definition ex_workspace :: workspace_row where
  "ex_workspace = \<lparr>ws_name = ''W'', ws_team = ''t'', ws_default = Default_viewer, ws_desktop = False,
     ws_session_logs = False, ws_features_off = [], ws_created_by = None\<rparr>"

definition ex_tables :: tables where
  "ex_tables = \<lparr>tb_users = [(''a'', ex_user ''a@x''), (''m'', ex_user ''m@x'')], tb_teams = [(''t'', ''T'')],
     tb_members = [((''t'', ''a''), Team_admin), ((''t'', ''m''), Team_member)], tb_workspaces = [(''w'', ex_workspace)],
     tb_grants = [((''w'', ''m''), Editor)], tb_invites = [], tb_groups = [], tb_group_members = [], tb_provisioned = [],
     tb_audits = [], tb_repos = [''w'']\<rparr>"

lemma ex_rows:
  "member_role ex_tables t u = (if t = ''t'' \<and> u = ''a'' then Some Team_admin
     else if t = ''t'' \<and> u = ''m'' then Some Team_member else None)"
  "jsget (tb_teams ex_tables) t = (if t = ''t'' then Some ''T'' else None)"
  "jsget (tb_users ex_tables) u = (if u = ''a'' then Some (ex_user ''a@x'') else if u = ''m'' then Some (ex_user ''m@x'') else None)"
  "jsget (tb_workspaces ex_tables) w = (if w = ''w'' then Some ex_workspace else None)"
  "jsget (tb_grants ex_tables) (w, u) = (if w = ''w'' \<and> u = ''m'' then Some Editor else None)"
  by (simp_all add: ex_tables_def member_role_def)

lemma ex_tables_ok: "tables_ok lc ex_tables"
proof -
  have "keys_ok ex_tables" by (simp add: keys_ok_def ex_tables_def)
  moreover have "refs_ok ex_tables" unfolding refs_ok_def ex_rows
    by (auto simp: ex_tables_def ex_workspace_def split: if_splits)
  moreover have "grants_ok ex_tables"
    by (rule grants_okI) (simp add: ex_rows ex_workspace_def split: if_splits)
  moreover have "provisioned_ok ex_tables" by (simp add: provisioned_ok_def ex_tables_def)
  moreover have "names_ok lc ex_tables" by (simp add: names_ok_def ex_rows split: if_splits)
  moreover have "admins_ok ex_tables" 
    by (auto simp: admins_ok_def ex_rows split: if_splits intro!: exI [of _ "''a''"])
  moreover have "repos_ok ex_tables" unfolding repos_ok_def ex_rows by (simp add: ex_tables_def)
  ultimately show ?thesis by (simp add: tables_ok_def base_ok_def)
qed

abbreviation ex_admin :: principal where
  "ex_admin \<equiv> User_caller \<lparr>cl_id = ''a'', cl_server_admin = False\<rparr>"

lemma requests_are_authorised_witness:
  "\<exists>c. ex_admin = User_caller c \<and> (cl_server_admin c \<or> member_role ex_tables ''t'' (cl_id c) = Some Team_admin
     \<or> ''m'' = cl_id c \<and> member_role (fst (serve id ex_admin (Change_role ''t'' ''m'' Team_admin) ex_tables)) ''t'' ''m'' = None)"
proof -
  have changed: "member_role (fst (serve id ex_admin (Change_role ''t'' ''m'' Team_admin) ex_tables)) ''t'' ''m''
      \<noteq> member_role ex_tables ''t'' ''m''"
    by (simp add: serve_def guard_def require_team_role_def require_user_def handle_def change_member_role_def
        commit_def set_member_role_def member_role_def ex_tables_def record_audit_def)
  have s: "serve id ex_admin (Change_role ''t'' ''m'' Team_admin) ex_tables =
      (fst (serve id ex_admin (Change_role ''t'' ''m'' Team_admin) ex_tables),
       fst (snd (serve id ex_admin (Change_role ''t'' ''m'' Team_admin) ex_tables)),
       snd (snd (serve id ex_admin (Change_role ''t'' ''m'' Team_admin) ex_tables)))" by simp
  show ?thesis by (rule requests_are_authorised [OF ex_tables_ok s, THEN conjunct1, THEN mp, OF changed])
qed

text \<open>C16: Removal from a team is complete: once the request that removes a member has succeeded, the rule gives them no
  role on any workspace of the team (unless they are a server admin), and when they are added again as a
  member they come back with the workspace's default role, whatever grant they held before.\<close>

theorem removal_is_complete:
  assumes "tables_ok lc tb" "serve lc p (Remove_member tid uid) tb = (tb1, ns, None)"
    and "jsget (tb_workspaces tb) wid = Some row" "ws_team row = tid"
    and "jsget (tb_users tb) uid = Some user" "\<not> us_server_admin user"
  shows "effective_role tb1 uid wid = No_role \<and>
    (\<forall>p' email tb2 ns'. serve lc p' (Add_member tid email Team_member) tb1 = (tb2, ns', None) \<longrightarrow>
       find_user_by_email (email_lower email) tb1 = Some uid \<longrightarrow>
       effective_role tb2 uid wid =
         (if us_disabled user then No_role
          else case ws_default row of Default_none \<Rightarrow> No_role
            | Default_viewer \<Rightarrow> Has_role Viewer From_default | Default_editor \<Rightarrow> Has_role Editor From_default))"
proof -
  have keys: "jsmap_ok (tb_grants tb)" using assms(1) by (simp add: tables_ok_def base_ok_def keys_ok_def)
  obtain who a where t1: "tb1 = record_audit who a (leave tid uid tb)"
    using assms(2) by (auto simp: serve_def handle_def remove_member_def commit_def leave_def
        split: sum.splits if_splits option.splits)
  have none: "member_role tb1 tid uid = None" "jsget (tb_grants tb1) (wid, uid) = None"
    using assms(3,4) by (simp_all add: t1 member_role_leave grant_leave [OF keys])
  have facts: "jsget (tb_workspaces tb1) wid = Some row" "jsget (tb_users tb1) uid = Some user"
    using assms(3,5) by (simp_all add: t1)
  have gone: "effective_role tb1 uid wid = No_role"
    using facts none assms(4,6) by (simp add: effective_role_def workspace_facts_def resolve_role_def)
  have again: "effective_role tb2 uid wid =
      (if us_disabled user then No_role else case ws_default row of Default_none \<Rightarrow> No_role
         | Default_viewer \<Rightarrow> Has_role Viewer From_default | Default_editor \<Rightarrow> Has_role Editor From_default)"
    if added: "serve lc p' (Add_member tid email Team_member) tb1 = (tb2, ns', None)"
      and found: "find_user_by_email (email_lower email) tb1 = Some uid" for p' email tb2 ns'
  proof -
    obtain c' access where "add_member c' tid email Team_member tb1 = (tb2, ns', None)"
      using added by (auto simp: serve_def handle_def split: sum.splits)
    then obtain tb' where "insert_member tid uid Team_member tb1 = Inr (tb', True)"
      and t2: "tb2 = record_audit (By_user (cl_id c')) (Member_added tid uid Team_member) tb'"
      using found by (auto simp: add_member_def commit_def bind_result_Inr_iff split: sum.splits if_splits)
    then have "tb' = tb1\<lparr>tb_members := jsset (tb_members tb1) (tid, uid) Team_member\<rparr>"
      using insert_member_cases by fastforce
    then show ?thesis
      using facts none assms(4,6)
      by (auto simp: t2 effective_role_def workspace_facts_def resolve_role_def split: default_role.split)
  qed
  show ?thesis using gone again by blast
qed

lemma removal_is_complete_witness:
  "effective_role (fst (serve id ex_admin (Remove_member ''t'' ''m'') ex_tables)) ''m'' ''w'' = No_role"
proof -
  have s: "serve id ex_admin (Remove_member ''t'' ''m'') ex_tables =
      (fst (serve id ex_admin (Remove_member ''t'' ''m'') ex_tables), [on_team ''t'' ''m''], None)"
    by (simp add: serve_def guard_def require_team_role_def require_user_def handle_def remove_member_def
        commit_def member_role_def ex_tables_def)
  show ?thesis
    using removal_is_complete [OF ex_tables_ok s, of "''w''" ex_workspace "ex_user ''m@x''"]
    by (simp add: ex_tables_def ex_workspace_def ex_user_def)
qed

text \<open>The list of workspaces is the rule: for an enabled user whose token carries the right server-admin flag,
  \<^verbatim>\<open>GET /workspaces\<close> answers exactly the workspaces on which the role rule gives them a role, with that role
  and its source.\<close>

theorem listing_is_the_rule:
  assumes "tables_ok lc tb" "jsget (tb_users tb) (cl_id c) = Some user" "\<not> us_disabled user"
    and "us_server_admin user = cl_server_admin c"
  shows "(\<lambda>(w, row, r, src). (w, r, src)) ` set (get_workspaces lc ck c tb)
    = {(w, r, src). effective_role tb (cl_id c) w = Has_role r src}"
proof -
  have k: "jsmap_ok (tb_workspaces tb)" using assms(1) by (simp add: tables_ok_def base_ok_def keys_ok_def)
  have t: "jshas (tb_teams tb) (ws_team row)" if "jsget (tb_workspaces tb) w = Some row" for w row
    using assms(1) that unfolding tables_ok_def base_ok_def refs_ok_def by blast
  define facts where "facts w row = \<lparr>rf_disabled = False, rf_server_admin = cl_server_admin c,
      rf_team_role = member_role tb (ws_team row) (cl_id c), rf_grant = jsget (tb_grants tb) (w, cl_id c),
      rf_default = ws_default row\<rparr>" for w and row :: workspace_row
  have eff: "effective_role tb (cl_id c) w = (case jsget (tb_workspaces tb) w of None \<Rightarrow> No_role
      | Some row \<Rightarrow> resolve_role (facts w row))" for w
    using assms(2-4) by (simp add: effective_role_def workspace_facts_def facts_def split: option.split)
  have none: "resolve_role (facts w row) = No_role"
    if "\<not> cl_server_admin c" "member_role tb (ws_team row) (cl_id c) = None" for w and row :: workspace_row
    using that by (simp add: resolve_role_def facts_def)
  have mem: "(w, row) \<in> set (tb_workspaces tb) \<longleftrightarrow> jsget (tb_workspaces tb) w = Some row" for w row
    using k by simp
  have vis: "(w, row, tr, g) \<in> set (visible_workspaces lc ck (cl_id c) (cl_server_admin c) tb) \<longleftrightarrow>
      jsget (tb_workspaces tb) w = Some row \<and> (cl_server_admin c \<or> member_role tb (ws_team row) (cl_id c) \<noteq> None) \<and>
      tr = member_role tb (ws_team row) (cl_id c) \<and> g = jsget (tb_grants tb) (w, cl_id c)" for w row tr g
    using t by (auto simp: visible_workspaces_def mem image_iff)
  have lst: "(w, row, r, src) \<in> set (get_workspaces lc ck c tb) \<longleftrightarrow>
      jsget (tb_workspaces tb) w = Some row \<and> resolve_role (facts w row) = Has_role r src" for w row r src
  proof -
    have "(w, row, r, src) \<in> set (get_workspaces lc ck c tb) \<longleftrightarrow>
        (\<exists>tr g. (w, row, tr, g) \<in> set (visible_workspaces lc ck (cl_id c) (cl_server_admin c) tb) \<and>
           resolve_role \<lparr>rf_disabled = False, rf_server_admin = cl_server_admin c, rf_team_role = tr, rf_grant = g,
             rf_default = ws_default row\<rparr> = Has_role r src)"
      by (force simp: get_workspaces_def List.map_filter_def split: effective.splits)
    also have "\<dots> \<longleftrightarrow> jsget (tb_workspaces tb) w = Some row \<and>
        (cl_server_admin c \<or> member_role tb (ws_team row) (cl_id c) \<noteq> None) \<and> resolve_role (facts w row) = Has_role r src"
      unfolding vis facts_def by blast
    also have "\<dots> \<longleftrightarrow> jsget (tb_workspaces tb) w = Some row \<and> resolve_role (facts w row) = Has_role r src"
      using none [of row w] by (metis effective.distinct(1))
    finally show ?thesis .
  qed
  have "(w, r, src) \<in> (\<lambda>(w, row, r, src). (w, r, src)) ` set (get_workspaces lc ck c tb) \<longleftrightarrow>
      (\<exists>row. (w, row, r, src) \<in> set (get_workspaces lc ck c tb))" for w r src
    by force
  then show ?thesis by (auto simp: eff lst split: option.splits)
qed

lemma listing_is_the_rule_witness:
  "(\<lambda>(w, row, r, src). (w, r, src)) ` set (get_workspaces id id \<lparr>cl_id = ''m'', cl_server_admin = False\<rparr> ex_tables)
   = {(w, r, src). effective_role ex_tables ''m'' w = Has_role r src}"
  using listing_is_the_rule [OF ex_tables_ok, of "\<lparr>cl_id = ''m'', cl_server_admin = False\<rparr>" "ex_user ''m@x''" id id]
  by (simp add: ex_tables_def ex_user_def)

end
