(* ===== verification/Provisioning.thy ===== *)
theory Provisioning
  imports Teams
begin

text \<open>
  Group membership from SCIM and the teams it reaches (\<^verbatim>\<open>packages/server/src/sso/provisioning.ts\<close>, the group
  statements of \<^verbatim>\<open>sso/repo.ts\<close>, the link of \<^verbatim>\<open>group-links.ts\<close> and the group handlers of \<^verbatim>\<open>scim/groups.ts\<close>), on
  the tables of the teams module. What the parsed body asks of a group is the argument \<open>compute\<close>. The last
  section puts the teams module, provisioning, accepted invitations and identity's user rows into one machine,
  with the invariant of the tables.
\<close>

section \<open>Statements\<close>

definition insert_scim_group ::
    "(string \<Rightarrow> string) \<Rightarrow> string \<Rightarrow> string \<Rightarrow> string option \<Rightarrow> tables \<Rightarrow> (problem, tables) result" where
  "insert_scim_group lc gid display ext tb =
     (if jshas (tb_groups tb) gid then Inl (Unique_violation ''scim_groups_pkey'')
      else if list_ex (\<lambda>(g, row). lc (sg_display row) = lc display) (tb_groups tb)
      then Inl (Unique_violation ''scim_groups_display_name_lower'')
      else Inr (tb\<lparr>tb_groups := jsset (tb_groups tb) gid \<lparr>sg_display = display, sg_external = ext, sg_team = None\<rparr>\<rparr>))"

definition update_scim_group ::
    "(string \<Rightarrow> string) \<Rightarrow> string \<Rightarrow> string \<Rightarrow> string option \<Rightarrow> tables \<Rightarrow> (problem, tables) result" where
  "update_scim_group lc gid display ext tb =
     (case jsget (tb_groups tb) gid of
        None \<Rightarrow> Inr tb
      | Some row \<Rightarrow>
          if list_ex (\<lambda>(g, r). g \<noteq> gid \<and> lc (sg_display r) = lc display) (tb_groups tb)
          then Inl (Unique_violation ''scim_groups_display_name_lower'')
          else Inr (tb\<lparr>tb_groups := jsset (tb_groups tb) gid (row\<lparr>sg_display := display, sg_external := ext\<rparr>)\<rparr>))"

definition set_group_team :: "string \<Rightarrow> string option \<Rightarrow> tables \<Rightarrow> (problem, tables) result" where
  "set_group_team gid tid tb =
     (case jsget (tb_groups tb) gid of
        None \<Rightarrow> Inr tb
      | Some row \<Rightarrow>
          if tid \<noteq> None \<and> \<not> jshas (tb_teams tb) (the tid) then Inl (Foreign_violation ''scim_groups_team_id_fkey'')
          else Inr (tb\<lparr>tb_groups := jsset (tb_groups tb) gid (row\<lparr>sg_team := tid\<rparr>)\<rparr>))"

definition delete_scim_group :: "string \<Rightarrow> tables \<Rightarrow> tables" where
  "delete_scim_group gid tb =
     tb\<lparr>tb_groups := jsdelete (tb_groups tb) gid,
        tb_group_members := filter (\<lambda>(g, u). g \<noteq> gid) (tb_group_members tb),
        tb_provisioned := filter (\<lambda>(t, u, g). g \<noteq> gid) (tb_provisioned tb)\<rparr>"

definition group_member_ids :: "string \<Rightarrow> tables \<Rightarrow> string list" where
  "group_member_ids gid tb = sort (map snd (filter (\<lambda>(g, u). g = gid) (tb_group_members tb)))"

text \<open>Both answer the ids they added or removed, sorted.\<close>

definition add_group_members :: "string \<Rightarrow> string list \<Rightarrow> tables \<Rightarrow> (problem, tables \<times> string list) result" where
  "add_group_members gid uids tb =
     (let new = filter (\<lambda>u. (gid, u) \<notin> set (tb_group_members tb)) (jsuniq uids) in
      if new = [] then Inr (tb, [])
      else if \<not> jshas (tb_groups tb) gid then Inl (Foreign_violation ''scim_group_members_group_id_fkey'')
      else if list_ex (\<lambda>u. \<not> jshas (tb_users tb) u) new then Inl (Foreign_violation ''scim_group_members_user_id_fkey'')
      else Inr (tb\<lparr>tb_group_members := tb_group_members tb @ map (Pair gid) new\<rparr>, sort new))"

definition remove_group_members :: "string \<Rightarrow> string list \<Rightarrow> tables \<Rightarrow> tables \<times> string list" where
  "remove_group_members gid uids tb =
     (tb\<lparr>tb_group_members := filter (\<lambda>(g, u). \<not> (g = gid \<and> u \<in> set uids)) (tb_group_members tb)\<rparr>,
      sort (map snd (filter (\<lambda>(g, u). g = gid \<and> u \<in> set uids) (tb_group_members tb))))"

definition insert_provisioned :: "string \<Rightarrow> string \<Rightarrow> string \<Rightarrow> tables \<Rightarrow> (problem, tables) result" where
  "insert_provisioned tid uid gid tb =
     (if (tid, uid, gid) \<in> set (tb_provisioned tb) then Inr tb
      else if \<not> jshas (tb_groups tb) gid then Inl (Foreign_violation ''provisioned_memberships_group_id_fkey'')
      else if member_role tb tid uid = None then Inl (Foreign_violation ''provisioned_memberships_team_id_user_id_fkey'')
      else Inr (tb\<lparr>tb_provisioned := tb_provisioned tb @ [(tid, uid, gid)]\<rparr>))"

text \<open>\<open>True\<close> when this group had added them.\<close>

definition delete_provisioned :: "string \<Rightarrow> string \<Rightarrow> string \<Rightarrow> tables \<Rightarrow> tables \<times> bool" where
  "delete_provisioned tid uid gid tb =
     (tb\<lparr>tb_provisioned := filter (\<lambda>p. p \<noteq> (tid, uid, gid)) (tb_provisioned tb)\<rparr>,
      (tid, uid, gid) \<in> set (tb_provisioned tb))"

definition count_provisioned :: "string \<Rightarrow> string \<Rightarrow> tables \<Rightarrow> nat" where
  "count_provisioned tid uid tb = length (filter (\<lambda>(t, u, g). t = tid \<and> u = uid) (tb_provisioned tb))"

section \<open>Following a group into its team\<close>

datatype removal = Remove | Keep

definition decide_provisioned_removal :: "nat \<Rightarrow> team_role \<Rightarrow> removal" where
  "decide_provisioned_removal remaining role = (if remaining = 0 \<and> role = Team_member then Remove else Keep)"

text \<open>Both thread the tables and the access changes to announce after the commit.\<close>

definition join_team ::
    "string \<Rightarrow> string \<Rightarrow> string \<Rightarrow> tables \<times> access_change list \<Rightarrow> (problem, tables \<times> access_change list) result" where
  "join_team tid gid uid s =
     (case s of (tb, ns) \<Rightarrow>
       (case jsget (tb_users tb) uid of
          None \<Rightarrow> Inr s
        | Some user \<Rightarrow>
            if us_disabled user then Inr s
            else bind_result (insert_member tid uid Team_member tb) (\<lambda>(tb1, new).
              if new then
                bind_result (insert_provisioned tid uid gid tb1) (\<lambda>tb2.
                  Inr (record_audit By_scim (Member_provisioned tid uid gid) tb2, ns @ [on_team tid uid]))
              else if count_provisioned tid uid tb1 > 0 then
                bind_result (insert_provisioned tid uid gid tb1) (\<lambda>tb2. Inr (tb2, ns))
              else Inr (tb1, ns))))"

definition leave_team ::
    "string \<Rightarrow> string \<Rightarrow> string \<Rightarrow> tables \<times> access_change list \<Rightarrow> (problem, tables \<times> access_change list) result" where
  "leave_team tid gid uid s =
     (case s of (tb, ns) \<Rightarrow>
       (case delete_provisioned tid uid gid tb of (tb1, existed) \<Rightarrow>
          if \<not> existed then Inr (tb1, ns)
          else (case member_role tb1 tid uid of
              None \<Rightarrow> Inr (tb1, ns)
            | Some role \<Rightarrow>
                if decide_provisioned_removal (count_provisioned tid uid tb1) role = Keep then Inr (tb1, ns)
                else Inr (record_audit By_scim (Member_deprovisioned tid uid role gid)
                            (delete_member tid uid (delete_grants_in_team tid uid tb1)),
                          ns @ [on_team tid uid]))))"

fun for_each :: "('a \<Rightarrow> 's \<Rightarrow> ('e, 's) result) \<Rightarrow> 'a list \<Rightarrow> 's \<Rightarrow> ('e, 's) result" where
  "for_each f [] s = Inr s"
| "for_each f (x # xs) s = bind_result (f x s) (for_each f xs)"

definition set_group_members ::
    "string \<Rightarrow> string list \<Rightarrow> string list \<Rightarrow> tables \<times> access_change list \<Rightarrow>
     (problem, (tables \<times> access_change list) \<times> string list \<times> string list) result" where
  "set_group_members gid added removed s =
     (case s of (tb, ns) \<Rightarrow>
       bind_result (add_group_members gid added tb) (\<lambda>(tb1, in_ids).
         case remove_group_members gid removed tb1 of (tb2, out_ids) \<Rightarrow>
           (case (case jsget (tb_groups tb2) gid of None \<Rightarrow> None | Some row \<Rightarrow> sg_team row) of
              None \<Rightarrow> Inr ((tb2, ns), in_ids, out_ids)
            | Some tid \<Rightarrow>
                if in_ids = [] \<and> out_ids = [] then Inr ((tb2, ns), in_ids, out_ids)
                else bind_result (for_each (join_team tid gid) in_ids (tb2, ns)) (\<lambda>s3.
                     bind_result (for_each (leave_team tid gid) out_ids s3) (\<lambda>s4. Inr (s4, in_ids, out_ids))))))"

text \<open>\<open>grp\<close> is the row as the caller read it.\<close>

definition unlink_group ::
    "string \<Rightarrow> scim_group_row \<Rightarrow> tables \<times> access_change list \<Rightarrow> (problem, tables \<times> access_change list) result" where
  "unlink_group gid grp s =
     (case sg_team grp of
        None \<Rightarrow> Inr s
      | Some tid \<Rightarrow>
          bind_result (for_each (leave_team tid gid) (group_member_ids gid (fst s)) s) (\<lambda>(tb1, ns).
          bind_result (set_group_team gid None tb1) (\<lambda>tb2.
          Inr (record_audit By_scim (Group_unlinked gid tid (sg_display grp)) tb2, ns))))"

definition link_group ::
    "string \<Rightarrow> scim_group_row \<Rightarrow> string \<Rightarrow> tables \<times> access_change list \<Rightarrow> (problem, tables \<times> access_change list) result" where
  "link_group gid grp tid s =
     (if sg_team grp = Some tid then Inr s
      else bind_result (if sg_team grp \<noteq> None then unlink_group gid grp s else Inr s) (\<lambda>(tb1, ns1).
           bind_result (set_group_team gid (Some tid) tb1) (\<lambda>tb2.
           bind_result (for_each (join_team tid gid) (group_member_ids gid tb2) (tb2, ns1)) (\<lambda>(tb3, ns3).
           Inr (record_audit By_scim (Group_linked gid tid (sg_display grp)) tb3, ns3)))))"

section \<open>Handlers\<close>

definition commit_changes :: "tables \<Rightarrow> (problem, tables \<times> access_change list) result \<Rightarrow> handled" where
  "commit_changes tb r = (case r of Inr (tb', ns) \<Rightarrow> (tb', ns, None) | Inl p \<Rightarrow> (tb, [], Some p))"

definition set_group_link :: "string \<Rightarrow> string option \<Rightarrow> tables \<Rightarrow> handled" where
  "set_group_link gid target tb =
     commit_changes tb
       (case jsget (tb_groups tb) gid of
          None \<Rightarrow> Inl Scim_group_not_found
        | Some grp \<Rightarrow> (case target of
              None \<Rightarrow> unlink_group gid grp (tb, [])
            | Some tid \<Rightarrow> if \<not> jshas (tb_teams tb) tid then Inl Team_not_found else link_group gid grp tid (tb, [])))"

definition uniqueness_or :: "problem \<Rightarrow> problem" where
  "uniqueness_or p = (if p = Unique_violation ''scim_groups_display_name_lower'' then Scim_uniqueness else p)"

definition assert_users :: "string list \<Rightarrow> tables \<Rightarrow> (problem, unit) result" where
  "assert_users ids tb =
     (case sort (filter (\<lambda>u. \<not> jshas (tb_users tb) u) ids) of [] \<Rightarrow> Inr () | u # us \<Rightarrow> Inl (Scim_no_user u))"

definition create_group ::
    "(string \<Rightarrow> string) \<Rightarrow> string \<Rightarrow> string \<Rightarrow> string option \<Rightarrow> string list \<Rightarrow> tables \<Rightarrow> handled" where
  "create_group lc gid display ext members tb =
     commit_changes tb (catch uniqueness_or
       (bind_result (assert_users members tb) (\<lambda>_.
        bind_result (insert_scim_group lc gid display ext tb) (\<lambda>tb1.
        bind_result (set_group_members gid members [] (tb1, [])) (\<lambda>((tb2, ns), in_ids, out_ids).
        Inr (record_audit By_scim (Group_created gid display (length in_ids)) tb2, []))))))"

text \<open>\<^verbatim>\<open>PUT\<close> and \<^verbatim>\<open>PATCH\<close>: \<open>compute\<close> is what the body makes of the group's name, external id and members, or its problem.\<close>

type_synonym group_state = "string \<times> string option \<times> string list"

definition update_group ::
    "(string \<Rightarrow> string) \<Rightarrow> string \<Rightarrow> (group_state \<Rightarrow> (problem, group_state) result) \<Rightarrow> tables \<Rightarrow> handled" where
  "update_group lc gid compute tb =
     commit_changes tb (catch uniqueness_or
       (case jsget (tb_groups tb) gid of
          None \<Rightarrow> Inl Scim_group_not_found
        | Some current \<Rightarrow>
            (let members = group_member_ids gid tb in
             bind_result (compute (sg_display current, sg_external current, members)) (\<lambda>(display, ext, next_members).
             let added = filter (\<lambda>u. u \<notin> set members) next_members;
                 removed = filter (\<lambda>u. u \<notin> set next_members) members;
                 fields = (if display \<noteq> sg_display current then [''displayName''] else [])
                          @ (if ext \<noteq> sg_external current then [''externalId''] else []) in
             bind_result (assert_users added tb) (\<lambda>_.
             bind_result (set_group_members gid added removed (tb, [])) (\<lambda>((tb1, ns), in_ids, out_ids).
             if fields \<noteq> [] \<or> in_ids \<noteq> [] \<or> out_ids \<noteq> [] then
               bind_result (update_scim_group lc gid display ext tb1) (\<lambda>tb2.
               Inr (record_audit By_scim (Group_updated gid (sg_team current) display fields (length in_ids) (length out_ids)) tb2, ns))
             else Inr (tb1, ns)))))))"

definition delete_group :: "string \<Rightarrow> tables \<Rightarrow> handled" where
  "delete_group gid tb =
     commit_changes tb
       (case jsget (tb_groups tb) gid of
          None \<Rightarrow> Inl Scim_group_not_found
        | Some current \<Rightarrow>
            bind_result (set_group_members gid [] (group_member_ids gid tb) (tb, [])) (\<lambda>((tb1, ns), in_ids, out_ids).
            Inr (record_audit By_scim (Group_deleted gid (sg_team current) (sg_display current))
                   (delete_scim_group gid tb1), ns)))"

section \<open>What provisioning keeps\<close>

text \<open>
  While a group's members are being taken out, the rows of those still to leave (\<open>pending\<close>, as group and user) are
  the only ones without a group membership behind them. The rest of the invariant does not read those rows.
\<close>

definition rows_ok :: "(string \<times> string) set \<Rightarrow> tables \<Rightarrow> bool" where
  "rows_ok pending tb \<longleftrightarrow> (\<forall>(t, u, g) \<in> set (tb_provisioned tb).
     member_role tb t u \<noteq> None \<and> ((g, u) \<in> set (tb_group_members tb) \<or> (g, u) \<in> pending) \<and>
     (\<exists>row. jsget (tb_groups tb) g = Some row \<and> sg_team row = Some t))"

definition core_ok :: "(string \<Rightarrow> string) \<Rightarrow> tables \<Rightarrow> bool" where
  "core_ok lc tb \<longleftrightarrow> tables_ok lc (tb\<lparr>tb_provisioned := []\<rparr>)"

lemma tables_ok_split: "tables_ok lc tb \<longleftrightarrow> core_ok lc tb \<and> rows_ok {} tb"
  by (auto simp: core_ok_def tables_ok_def base_ok_def keys_ok_def admins_ok_def repos_ok_def
      rows_ok_def provisioned_ok_def)

lemma core_ok_prov [simp]: "core_ok lc (tb\<lparr>tb_provisioned := ps\<rparr>) = core_ok lc tb"
  by (simp add: core_ok_def)

lemma core_ok_audit [simp]: "core_ok lc (record_audit who a tb) = core_ok lc tb"
proof -
  have "(record_audit who a tb)\<lparr>tb_provisioned := []\<rparr> = record_audit who a (tb\<lparr>tb_provisioned := []\<rparr>)"
    by (simp add: record_audit_def)
  then show ?thesis by (simp add: core_ok_def)
qed

lemma core_ok_group_members [simp]: "core_ok lc (tb\<lparr>tb_group_members := gm\<rparr>) = core_ok lc tb"
proof -
  have "base_ok lc (tb\<lparr>tb_group_members := gm, tb_provisioned := []\<rparr>) = base_ok lc (tb\<lparr>tb_provisioned := []\<rparr>)"
    by (simp add: base_ok_def keys_ok_def provisioned_ok_def)
  moreover have "admins_ok (tb\<lparr>tb_group_members := gm, tb_provisioned := []\<rparr>) = admins_ok (tb\<lparr>tb_provisioned := []\<rparr>)"
      "repos_ok (tb\<lparr>tb_group_members := gm, tb_provisioned := []\<rparr>) = repos_ok (tb\<lparr>tb_provisioned := []\<rparr>)"
    by (simp_all add: admins_ok_def repos_ok_def)
  ultimately show ?thesis by (simp add: core_ok_def tables_ok_def)
qed

lemma rows_ok_audit [simp]: "rows_ok pending (record_audit who a tb) = rows_ok pending tb"
  by (simp add: rows_ok_def)

lemma core_ok_groups:
  assumes "core_ok lc tb" "jsmap_ok gs" "\<forall>g row t. jsget gs g = Some row \<longrightarrow> sg_team row = Some t \<longrightarrow> jshas (tb_teams tb) t"
  shows "core_ok lc (tb\<lparr>tb_groups := gs\<rparr>)"
proof -
  have "refs_ok (tb\<lparr>tb_groups := gs, tb_provisioned := []\<rparr>)"
    using assms(1,3) by (simp add: core_ok_def tables_ok_def base_ok_def refs_ok_def)
  then show ?thesis
    using assms by (simp add: core_ok_def tables_ok_def base_ok_def keys_ok_def provisioned_ok_def admins_ok_def repos_ok_def)
qed

lemma core_refsD:
  "core_ok lc tb \<Longrightarrow> jsget (tb_groups tb) g = Some row \<Longrightarrow> sg_team row = Some t \<Longrightarrow> jshas (tb_teams tb) t"
  unfolding core_ok_def tables_ok_def base_ok_def refs_ok_def by simp

lemma core_keysD: "core_ok lc tb \<Longrightarrow> jsmap_ok (tb_groups tb)"
  by (simp add: core_ok_def tables_ok_def base_ok_def keys_ok_def)

lemma insert_member_core:
  assumes "core_ok lc tb" "insert_member tid uid role tb = Inr (tb1, new)"
  shows "core_ok lc tb1"
proof -
  have "insert_member tid uid role (tb\<lparr>tb_provisioned := []\<rparr>) = Inr (tb1\<lparr>tb_provisioned := []\<rparr>, new)"
    using assms(2) by (auto simp: insert_member_def split: if_splits)
  then show ?thesis using assms(1) insert_member_tables_ok by (simp add: core_ok_def)
qed

lemma leave_core: "core_ok lc tb \<Longrightarrow> member_role tb tid uid \<noteq> Some Team_admin \<Longrightarrow> core_ok lc (leave tid uid tb)"
proof -
  assume a: "core_ok lc tb" "member_role tb tid uid \<noteq> Some Team_admin"
  have "leave tid uid (tb\<lparr>tb_provisioned := []\<rparr>) = (leave tid uid tb)\<lparr>tb_provisioned := []\<rparr>"
    by (simp add: leave_def delete_member_def delete_grants_in_team_def)
  then show ?thesis using a leave_tables_ok [of lc "tb\<lparr>tb_provisioned := []\<rparr>" tid uid] by (simp add: core_ok_def)
qed

subsection \<open>Joining and leaving\<close>

text \<open>The tables that neither reads for anything but the membership it is about.\<close>

definition same_frame :: "tables \<Rightarrow> tables \<Rightarrow> bool" where
  "same_frame tb tb' \<longleftrightarrow> tb_groups tb' = tb_groups tb \<and> tb_group_members tb' = tb_group_members tb \<and>
     tb_users tb' = tb_users tb \<and> tb_teams tb' = tb_teams tb \<and> tb_workspaces tb' = tb_workspaces tb"

lemma same_frame_refl [simp]: "same_frame tb tb"
  by (simp add: same_frame_def)

lemma same_frame_trans: "same_frame tb tb1 \<Longrightarrow> same_frame tb1 tb2 \<Longrightarrow> same_frame tb tb2"
  by (simp add: same_frame_def)

text \<open>A membership provisioning has no claim on: an admin's, or one no group provisioned.\<close>

definition by_hand :: "string \<Rightarrow> string \<Rightarrow> team_role \<Rightarrow> tables \<Rightarrow> bool" where
  "by_hand t u role tb \<longleftrightarrow> member_role tb t u = Some role \<and>
     (role = Team_member \<longrightarrow> (\<forall>g. (t, u, g) \<notin> set (tb_provisioned tb)))"

definition active :: "string \<Rightarrow> tables \<Rightarrow> bool" where
  "active u tb \<longleftrightarrow> (\<exists>row. jsget (tb_users tb) u = Some row \<and> \<not> us_disabled row)"

text \<open>A membership that is one group's alone: it provisioned it, no other did, and it was not promoted since.\<close>

definition sole :: "string \<Rightarrow> string \<Rightarrow> string \<Rightarrow> tables \<Rightarrow> bool" where
  "sole t u g tb \<longleftrightarrow> member_role tb t u = Some Team_member \<and> (t, u, g) \<in> set (tb_provisioned tb) \<and>
     (\<forall>g'. g' \<noteq> g \<longrightarrow> (t, u, g') \<notin> set (tb_provisioned tb))"

lemma count_provisioned_0: "count_provisioned tid uid tb = 0 \<longleftrightarrow> (\<forall>g. (tid, uid, g) \<notin> set (tb_provisioned tb))"
  by (auto simp: count_provisioned_def filter_empty_conv)

lemma insert_provisioned_cases:
  "insert_provisioned tid uid gid tb = Inr tb' \<Longrightarrow>
   (\<exists>ps. tb' = tb\<lparr>tb_provisioned := ps\<rparr> \<and> set ps = insert (tid, uid, gid) (set (tb_provisioned tb))) \<and>
   member_role tb tid uid \<noteq> None \<or> tb' = tb \<and> (tid, uid, gid) \<in> set (tb_provisioned tb)"
  by (auto simp: insert_provisioned_def split: if_splits)

text \<open>What one join does: nothing, or a row of this group for a member, new or provisioned before.\<close>

lemma join_team_cases:
  assumes "join_team tid gid uid (tb, ns) = Inr (tb', ns')"
  shows "same_frame tb tb' \<and>
    (\<forall>t u. member_role tb' t u =
       (if t = tid \<and> u = uid \<and> member_role tb t u = None \<and> active u tb then Some Team_member else member_role tb t u)) \<and>
    set (tb_provisioned tb) \<subseteq> set (tb_provisioned tb') \<and>
    set (tb_provisioned tb') \<subseteq> insert (tid, uid, gid) (set (tb_provisioned tb)) \<and>
    ((tid, uid, gid) \<in> set (tb_provisioned tb') \<longrightarrow> (tid, uid, gid) \<in> set (tb_provisioned tb) \<or> member_role tb' tid uid \<noteq> None) \<and>
    (by_hand tid uid role tb \<longrightarrow> by_hand tid uid role tb')"
proof (cases "jsget (tb_users tb) uid")
  case None
  then show ?thesis using assms by (auto simp: join_team_def active_def)
next
  case (Some user)
  show ?thesis
  proof (cases "us_disabled user")
    case True
    then show ?thesis using assms Some by (auto simp: join_team_def active_def)
  next
    case False
    then have act: "active uid tb" using Some by (simp add: active_def)
    obtain tb1 new where ins: "insert_member tid uid Team_member tb = Inr (tb1, new)"
      and rest: "(if new then
                bind_result (insert_provisioned tid uid gid tb1) (\<lambda>tb2.
                  Inr (record_audit By_scim (Member_provisioned tid uid gid) tb2, ns @ [on_team tid uid]))
              else if count_provisioned tid uid tb1 > 0 then
                bind_result (insert_provisioned tid uid gid tb1) (\<lambda>tb2. Inr (tb2, ns))
              else Inr (tb1, ns)) = Inr (tb', ns')"
      using assms Some False by (auto simp: join_team_def bind_result_Inr_iff)
    note c = insert_member_cases [OF ins]
    show ?thesis
    proof (cases new)
      case True
      then obtain tb2 where p: "insert_provisioned tid uid gid tb1 = Inr tb2"
        and t': "tb' = record_audit By_scim (Member_provisioned tid uid gid) tb2"
        using rest by (auto simp: bind_result_Inr_iff)
      show ?thesis using True c act insert_provisioned_cases [OF p]
        by (auto simp: t' same_frame_def by_hand_def)
    next
      case False
      then have t1: "tb1 = tb" "member_role tb tid uid \<noteq> None" using c by simp_all
      show ?thesis
      proof (cases "count_provisioned tid uid tb > 0")
        case True
        then have p: "insert_provisioned tid uid gid tb = Inr tb'" using False rest t1 by (auto simp: bind_result_Inr_iff)
        have "\<exists>g. (tid, uid, g) \<in> set (tb_provisioned tb)" using True count_provisioned_0 [of tid uid tb] by auto
        then show ?thesis using t1(2) insert_provisioned_cases [OF p] by (auto simp: same_frame_def by_hand_def)
      next
        case False
        then have "tb' = tb" using \<open>\<not> new\<close> rest t1 by simp
        then show ?thesis using t1 by auto
      qed
    qed
  qed
qed

lemma join_team_ok:
  assumes "core_ok lc tb" "rows_ok pending tb" "join_team tid gid uid (tb, ns) = Inr (tb', ns')"
    and "(gid, uid) \<in> set (tb_group_members tb) \<or> (gid, uid) \<in> pending" "jsget (tb_groups tb) gid = Some row" "sg_team row = Some tid"
  shows "core_ok lc tb' \<and> rows_ok pending tb'"
proof
  note c = join_team_cases [OF assms(3)]
  show "rows_ok pending tb'"
    unfolding rows_ok_def
  proof (intro ballI, clarify)
    fix t u g assume r: "(t, u, g) \<in> set (tb_provisioned tb')"
    have fr: "tb_groups tb' = tb_groups tb" "tb_group_members tb' = tb_group_members tb"
      using c by (auto simp: same_frame_def)
    show "member_role tb' t u \<noteq> None \<and> ((g, u) \<in> set (tb_group_members tb') \<or> (g, u) \<in> pending) \<and>
        (\<exists>row. jsget (tb_groups tb') g = Some row \<and> sg_team row = Some t)"
    proof (cases "(t, u, g) \<in> set (tb_provisioned tb)")
      case True
      then have "member_role tb t u \<noteq> None \<and> ((g, u) \<in> set (tb_group_members tb) \<or> (g, u) \<in> pending) \<and>
        (\<exists>row. jsget (tb_groups tb) g = Some row \<and> sg_team row = Some t)"
        using assms(2) unfolding rows_ok_def by blast
      moreover have "member_role tb t u \<noteq> None \<Longrightarrow> member_role tb' t u \<noteq> None"
        using c by simp
      ultimately show ?thesis using fr by simp
    next
      case False
      then have k: "t = tid" "u = uid" "g = gid" using r c by blast+
      have "member_role tb' tid uid \<noteq> None" using c r False unfolding k by blast
      then show ?thesis using fr assms(4-6) k by auto
    qed
  qed
  show "core_ok lc tb'"
    using assms(1,3) insert_member_core [of lc tb tid uid Team_member]
    by (auto simp: join_team_def bind_result_Inr_iff split: option.splits if_splits dest!: insert_provisioned_cases)
qed

lemma leave_team_cases:
  assumes "leave_team tid gid uid (tb, ns) = Inr (tb', ns')"
  shows "same_frame tb tb' \<and> set (tb_provisioned tb') = set (tb_provisioned tb) - {(tid, uid, gid)} \<and>
    (\<forall>t u. member_role tb' t u = (if t = tid \<and> u = uid \<and> sole t u gid tb then None else member_role tb t u))"
proof -
  define tb1 where "tb1 = tb\<lparr>tb_provisioned := filter (\<lambda>p. p \<noteq> (tid, uid, gid)) (tb_provisioned tb)\<rparr>"
  have t1: "same_frame tb tb1" "set (tb_provisioned tb1) = set (tb_provisioned tb) - {(tid, uid, gid)}"
    "member_role tb1 = member_role tb" by (auto simp: tb1_def same_frame_def)
  have s: "sole tid uid gid tb \<longleftrightarrow> (tid, uid, gid) \<in> set (tb_provisioned tb) \<and>
      member_role tb tid uid = Some Team_member \<and> count_provisioned tid uid tb1 = 0"
    unfolding sole_def count_provisioned_0 t1(2) by auto
  have d: "delete_provisioned tid uid gid tb = (tb1, (tid, uid, gid) \<in> set (tb_provisioned tb))"
    by (simp add: delete_provisioned_def tb1_def)
  show ?thesis
  proof (cases "sole tid uid gid tb")
    case False
    then have "tb' = tb1"
      using assms t1(3) by (auto simp: s leave_team_def d decide_provisioned_removal_def split: option.splits if_splits)
    then show ?thesis using t1 False by auto
  next
    case True
    then have t': "tb' = record_audit By_scim (Member_deprovisioned tid uid Team_member gid) (leave tid uid tb1)"
      using assms t1(3) by (auto simp: s leave_team_def d decide_provisioned_removal_def leave_def)
    have none: "\<forall>g. (tid, uid, g) \<notin> set (tb_provisioned tb1)" using True s count_provisioned_0 by blast
    then have "set (tb_provisioned tb') = set (tb_provisioned tb1)" by (auto simp: t')
    moreover have "same_frame tb1 tb'" by (simp add: t' same_frame_def)
    moreover have "member_role tb' t u = (if t = tid \<and> u = uid then None else member_role tb t u)" for t u
      by (simp add: t' member_role_leave t1(3))
    ultimately show ?thesis using t1(1,2) True same_frame_trans by auto
  qed
qed

lemma leave_team_ok:
  assumes "core_ok lc tb" "rows_ok pending tb" "leave_team tid gid uid (tb, ns) = Inr (tb', ns')"
  shows "core_ok lc tb' \<and> rows_ok pending tb'"
proof
  note c = leave_team_cases [OF assms(3)]
  have fr: "tb_groups tb' = tb_groups tb" "tb_group_members tb' = tb_group_members tb"
    using c by (auto simp: same_frame_def)
  show "rows_ok pending tb'"
    unfolding rows_ok_def
  proof (intro ballI, clarify)
    fix t u g assume r: "(t, u, g) \<in> set (tb_provisioned tb')"
    then have old: "(t, u, g) \<in> set (tb_provisioned tb)" "(t, u, g) \<noteq> (tid, uid, gid)" using c by simp_all
    then have k: "member_role tb t u \<noteq> None" "(g, u) \<in> set (tb_group_members tb) \<or> (g, u) \<in> pending"
        "\<exists>row. jsget (tb_groups tb) g = Some row \<and> sg_team row = Some t"
      using assms(2) unfolding rows_ok_def by blast+
    have "member_role tb' t u \<noteq> None"
    proof (cases "(t, u) = (tid, uid)")
      case True
      then have "\<not> sole t u gid tb" using old by (auto simp: sole_def)
      then show ?thesis using c k by simp
    next
      case False
      then show ?thesis using c k by auto
    qed
    then show "member_role tb' t u \<noteq> None \<and> ((g, u) \<in> set (tb_group_members tb') \<or> (g, u) \<in> pending) \<and>
        (\<exists>row. jsget (tb_groups tb') g = Some row \<and> sg_team row = Some t)"
      using k fr by simp
  qed
  show "core_ok lc tb'"
    using assms(1,3) leave_core [of lc "fst (delete_provisioned tid uid gid tb)" tid uid]
    by (auto simp: leave_team_def delete_provisioned_def decide_provisioned_removal_def leave_def [symmetric]
        split: option.splits if_splits)
qed

subsection \<open>The loops\<close>

text \<open>What a change for the group \<open>gid\<close> leaves alone: memberships made by hand, and what other groups provisioned.\<close>

definition spares :: "string \<Rightarrow> tables \<Rightarrow> tables \<Rightarrow> bool" where
  "spares gid tb tb' \<longleftrightarrow> (\<forall>t u role. by_hand t u role tb \<longrightarrow> by_hand t u role tb') \<and>
     (\<forall>t u g. g \<noteq> gid \<longrightarrow> (t, u, g) \<in> set (tb_provisioned tb) \<longrightarrow> (t, u, g) \<in> set (tb_provisioned tb'))"

lemma spares_refl [simp]: "spares gid tb tb"
  by (simp add: spares_def)

lemma spares_trans: "spares gid tb tb1 \<Longrightarrow> spares gid tb1 tb2 \<Longrightarrow> spares gid tb tb2"
  by (simp add: spares_def)

lemma spares_same:
  "tb_members tb' = tb_members tb \<Longrightarrow> tb_provisioned tb' = tb_provisioned tb \<Longrightarrow> spares gid tb tb'"
  by (simp add: spares_def by_hand_def member_role_def)

lemma join_team_spares: "join_team tid gid uid (tb, ns) = Inr (tb', ns') \<Longrightarrow> spares gid tb tb'"
proof -
  assume j: "join_team tid gid uid (tb, ns) = Inr (tb', ns')"
  note c = join_team_cases [OF j]
  have "by_hand t u role tb'" if "by_hand t u role tb" for t u role
  proof (cases "(t, u) = (tid, uid)")
    case True
    then show ?thesis using that c [of role] by auto
  next
    case False
    then have "(t, u, g) \<notin> set (tb_provisioned tb')" if "(t, u, g) \<notin> set (tb_provisioned tb)" for g
      using c [of role] that by blast
    then show ?thesis using that c [of role] False by (auto simp: by_hand_def)
  qed
  then show ?thesis using c by (auto simp: spares_def)
qed

lemma leave_team_spares: "leave_team tid gid uid (tb, ns) = Inr (tb', ns') \<Longrightarrow> spares gid tb tb'"
proof -
  assume l: "leave_team tid gid uid (tb, ns) = Inr (tb', ns')"
  note c = leave_team_cases [OF l]
  have "by_hand t u role tb'" if "by_hand t u role tb" for t u role
    using that c by (auto simp: by_hand_def sole_def)
  then show ?thesis using c by (auto simp: spares_def)
qed

lemma join_all:
  assumes "core_ok lc tb" "rows_ok pending tb" "for_each (join_team tid gid) us (tb, ns) = Inr (tb', ns')"
    and "\<forall>u \<in> set us. (gid, u) \<in> set (tb_group_members tb) \<or> (gid, u) \<in> pending"
    and "jsget (tb_groups tb) gid = Some row" "sg_team row = Some tid"
  shows "core_ok lc tb' \<and> rows_ok pending tb' \<and> same_frame tb tb' \<and> spares gid tb tb' \<and>
    (\<forall>t u. member_role tb' t u =
       (if t = tid \<and> u \<in> set us \<and> member_role tb t u = None \<and> active u tb then Some Team_member else member_role tb t u))"
  using assms
proof (induction us arbitrary: tb ns)
  case (Cons u us)
  obtain tb1 ns1 where j: "join_team tid gid u (tb, ns) = Inr (tb1, ns1)"
    and rest: "for_each (join_team tid gid) us (tb1, ns1) = Inr (tb', ns')"
    using Cons.prems(3) by (auto simp: bind_result_Inr_iff)
  have ok: "core_ok lc tb1 \<and> rows_ok pending tb1"
    using join_team_ok [OF Cons.prems(1,2) j _ Cons.prems(5,6)] Cons.prems(4) by simp
  have f: "same_frame tb tb1" and roles: "\<And>t v. member_role tb1 t v =
      (if t = tid \<and> v = u \<and> member_role tb t v = None \<and> active v tb then Some Team_member else member_role tb t v)"
    using join_team_cases [OF j] by blast+
  have act: "active v tb1 = active v tb" for v using f by (simp add: same_frame_def active_def)
  have ih: "core_ok lc tb' \<and> rows_ok pending tb' \<and> same_frame tb1 tb' \<and> spares gid tb1 tb' \<and>
    (\<forall>t v. member_role tb' t v =
       (if t = tid \<and> v \<in> set us \<and> member_role tb1 t v = None \<and> active v tb1 then Some Team_member else member_role tb1 t v))"
    using Cons.prems(4,5,6) f ok by (intro Cons.IH [OF _ _ rest]) (auto simp: same_frame_def)
  then have last_roles: "\<And>t v. member_role tb' t v =
       (if t = tid \<and> v \<in> set us \<and> member_role tb1 t v = None \<and> active v tb1 then Some Team_member else member_role tb1 t v)"
    by blast
  have all_roles: "member_role tb' t v =
       (if t = tid \<and> v \<in> set (u # us) \<and> member_role tb t v = None \<and> active v tb then Some Team_member else member_role tb t v)"
    for t v by (cases "t = tid"; cases "v = u") (auto simp: last_roles roles act)
  have "same_frame tb tb'" "spares gid tb tb'"
    using ih f join_team_spares [OF j] same_frame_trans spares_trans by blast+
  then show ?case using ih all_roles by (intro conjI allI) simp_all
qed simp

lemma leave_all:
  assumes "core_ok lc tb" "rows_ok pending tb" "for_each (leave_team tid gid) us (tb, ns) = Inr (tb', ns')"
  shows "core_ok lc tb' \<and> rows_ok pending tb' \<and> same_frame tb tb' \<and> spares gid tb tb' \<and>
    set (tb_provisioned tb') = set (tb_provisioned tb) - {(tid, u, gid) | u. u \<in> set us} \<and>
    (\<forall>t u. member_role tb' t u = (if t = tid \<and> u \<in> set us \<and> sole t u gid tb then None else member_role tb t u))"
  using assms
proof (induction us arbitrary: tb ns)
  case (Cons u us)
  obtain tb1 ns1 where l: "leave_team tid gid u (tb, ns) = Inr (tb1, ns1)"
    and rest: "for_each (leave_team tid gid) us (tb1, ns1) = Inr (tb', ns')"
    using Cons.prems(3) by (auto simp: bind_result_Inr_iff)
  have ok: "core_ok lc tb1" "rows_ok pending tb1" using leave_team_ok [OF Cons.prems(1,2) l] by simp_all
  note c = leave_team_cases [OF l]
  have f: "same_frame tb tb1" and rows: "set (tb_provisioned tb1) = set (tb_provisioned tb) - {(tid, u, gid)}"
    and roles: "\<And>t v. member_role tb1 t v = (if t = tid \<and> v = u \<and> sole t v gid tb then None else member_role tb t v)"
    using c by blast+
  have sole: "sole tid v gid tb1 \<longleftrightarrow> sole tid v gid tb \<and> v \<noteq> u" for v
    unfolding sole_def rows roles by auto
  have ih: "core_ok lc tb' \<and> rows_ok pending tb' \<and> same_frame tb1 tb' \<and> spares gid tb1 tb' \<and>
    set (tb_provisioned tb') = set (tb_provisioned tb1) - {(tid, u, gid) | u. u \<in> set us} \<and>
    (\<forall>t u. member_role tb' t u = (if t = tid \<and> u \<in> set us \<and> sole t u gid tb1 then None else member_role tb1 t u))"
    by (rule Cons.IH [OF ok rest])
  note parts = ih [THEN conjunct1] ih [THEN conjunct2, THEN conjunct1]
    same_frame_trans [OF f ih [THEN conjunct2, THEN conjunct2, THEN conjunct1]]
    spares_trans [OF leave_team_spares [OF l] ih [THEN conjunct2, THEN conjunct2, THEN conjunct2, THEN conjunct1]]
  note last_rows = ih [THEN conjunct2, THEN conjunct2, THEN conjunct2, THEN conjunct2, THEN conjunct1]
    and last_roles = ih [THEN conjunct2, THEN conjunct2, THEN conjunct2, THEN conjunct2, THEN conjunct2, rule_format]
  have rows': "set (tb_provisioned tb') = set (tb_provisioned tb) - {(tid, v, gid) | v. v \<in> set (u # us)}"
    unfolding last_rows rows by auto
  have "\<forall>t v. member_role tb' t v = (if t = tid \<and> v \<in> set (u # us) \<and> sole t v gid tb then None else member_role tb t v)"
  proof (intro allI)
    fix t v
    show "member_role tb' t v = (if t = tid \<and> v \<in> set (u # us) \<and> sole t v gid tb then None else member_role tb t v)"
      unfolding last_roles roles by (cases "t = tid") (auto simp: sole)
  qed
  with parts rows' show ?case by (intro conjI)
qed simp


subsection \<open>Group members, links and the handlers\<close>

lemma rows_ok_mono: "rows_ok p tb \<Longrightarrow> p \<subseteq> q \<Longrightarrow> rows_ok q tb"
  unfolding rows_ok_def by fast

lemma rows_ok_settle:
  assumes "rows_ok p tb" "\<And>t u g. (t, u, g) \<in> set (tb_provisioned tb) \<Longrightarrow> (g, u) \<notin> p"
  shows "rows_ok {} tb"
  using assms unfolding rows_ok_def by fast

lemma rows_ok_members:
  assumes "rows_ok p tb" "set (tb_group_members tb) \<subseteq> set gm \<union> q"
  shows "rows_ok (p \<union> q) (tb\<lparr>tb_group_members := gm\<rparr>)"
proof -
  have "(g, u) \<in> set gm \<or> (g, u) \<in> p \<union> q" if "(t, u, g) \<in> set (tb_provisioned tb)" for t u g
    using assms that unfolding rows_ok_def by fast
  then show ?thesis using assms(1) by (auto simp: rows_ok_def)
qed

lemma rows_ok_row:
  assumes "rows_ok p tb" "(t, u, g) \<in> set (tb_provisioned tb)"
  shows "((g, u) \<in> set (tb_group_members tb) \<or> (g, u) \<in> p) \<and> (\<exists>row. jsget (tb_groups tb) g = Some row \<and> sg_team row = Some t)"
  using assms unfolding rows_ok_def by fast

lemma rows_ok_groups:
  assumes "rows_ok p tb" "\<And>t u g. (t, u, g) \<in> set (tb_provisioned tb) \<Longrightarrow> jsget gs g = jsget (tb_groups tb) g"
  shows "rows_ok p (tb\<lparr>tb_groups := gs\<rparr>)"
  using assms by (auto simp: rows_ok_def)

lemma unlinked_has_no_rows:
  assumes "rows_ok p tb" "jsget (tb_groups tb) gid = None \<or> (\<exists>row. jsget (tb_groups tb) gid = Some row \<and> sg_team row = None)"
  shows "(t, u, gid) \<notin> set (tb_provisioned tb)"
  using assms rows_ok_row [of p tb t u gid] by auto

lemma memberless_has_no_rows:
  assumes "rows_ok {} tb" "\<And>u. (gid, u) \<notin> set (tb_group_members tb)"
  shows "(t, u, gid) \<notin> set (tb_provisioned tb)"
  using assms rows_ok_row [of "{}" tb t u gid] by auto

lemma add_group_members_cases:
  assumes "add_group_members gid uids tb = Inr (tb1, in_ids)"
  shows "\<exists>gm. tb1 = tb\<lparr>tb_group_members := gm\<rparr> \<and> set gm = set (tb_group_members tb) \<union> {gid} \<times> set uids \<and>
    set in_ids = {u \<in> set uids. (gid, u) \<notin> set (tb_group_members tb)}"
proof -
  define new where "new = filter (\<lambda>u. (gid, u) \<notin> set (tb_group_members tb)) (jsuniq uids)"
  have s: "set new = {u \<in> set uids. (gid, u) \<notin> set (tb_group_members tb)}" by (auto simp: new_def)
  show ?thesis
  proof (cases "new = []")
    case True
    then have "tb1 = tb" "in_ids = []" using assms by (auto simp: add_group_members_def new_def [symmetric] Let_def)
    moreover have "{gid} \<times> set uids \<subseteq> set (tb_group_members tb)" using s True by auto
    ultimately show ?thesis using s True by (intro exI [of _ "tb_group_members tb"]) auto
  next
    case False
    then have "tb1 = tb\<lparr>tb_group_members := tb_group_members tb @ map (Pair gid) new\<rparr>" "in_ids = sort new"
      using assms by (auto simp: add_group_members_def new_def [symmetric] Let_def split: if_splits)
    then show ?thesis using s by (intro exI [of _ "tb_group_members tb @ map (Pair gid) new"]) auto
  qed
qed

text \<open>A change of a group's own members keeps the tables and changes no group; it takes \<open>removed\<close> out, whoever else is in.\<close>

lemma set_group_members_ok:
  assumes ok: "core_ok lc tb" "rows_ok {} tb"
    and set: "set_group_members gid added removed (tb, ns) = Inr ((tb', ns'), in_ids, out_ids)"
  shows "core_ok lc tb' \<and> rows_ok {} tb' \<and> tb_groups tb' = tb_groups tb \<and> tb_teams tb' = tb_teams tb \<and> spares gid tb tb' \<and>
    set (tb_group_members tb') = (set (tb_group_members tb) \<union> {gid} \<times> set added) - {gid} \<times> set removed"
proof -
  obtain tb1 ins where add: "add_group_members gid added tb = Inr (tb1, ins)"
    using set unfolding set_group_members_def prod.case bind_result_Inr_iff by auto
  obtain gm where gm: "tb1 = tb\<lparr>tb_group_members := gm\<rparr>" "set gm = set (tb_group_members tb) \<union> {gid} \<times> set added"
    "set ins = {u \<in> set added. (gid, u) \<notin> set (tb_group_members tb)}"
    using add_group_members_cases [OF add] by blast
  define tb2 where "tb2 = fst (remove_group_members gid removed tb1)"
  define tail where "tail = filter (\<lambda>(g, u). \<not> (g = gid \<and> u \<in> set removed)) gm"
  have tb2: "tb2 = tb\<lparr>tb_group_members := tail\<rparr>" by (simp add: tb2_def remove_group_members_def gm(1) tail_def)
  have tl: "set tail = set gm - {gid} \<times> set removed" by (auto simp: tail_def)
  define outs where "outs = snd (remove_group_members gid removed tb1)"
  have outs: "set outs = {u \<in> set removed. (gid, u) \<in> set gm}" by (force simp: outs_def remove_group_members_def gm(1))
  have r: "remove_group_members gid removed tb1 = (tb2, outs)" by (simp add: tb2_def outs_def)
  have core2: "core_ok lc tb2" using ok(1) by (simp add: tb2)
  have "rows_ok ({} \<union> {gid} \<times> set outs) tb2"
    unfolding tb2 by (rule rows_ok_members [OF ok(2)]) (auto simp: tl outs gm(2))
  then have rows2: "rows_ok ({gid} \<times> set outs) tb2" by simp
  have sp2: "spares gid tb tb2" by (rule spares_same) (simp_all add: tb2)
  have fr2: "tb_groups tb2 = tb_groups tb" "tb_teams tb2 = tb_teams tb" "set (tb_group_members tb2) =
     (set (tb_group_members tb) \<union> {gid} \<times> set added) - {gid} \<times> set removed" by (simp_all add: tb2 tl gm(2))
  define team where "team = (case jsget (tb_groups tb2) gid of None \<Rightarrow> None | Some row \<Rightarrow> sg_team row)"
  show ?thesis
  proof (cases "team = None \<or> ins = [] \<and> outs = []")
    case True
    then have t': "tb' = tb2" using set by (auto simp: set_group_members_def add bind_result_Inr_iff r team_def split: option.splits)
    have "rows_ok {} tb2"
    proof (cases "team = None")
      case True
      then have "jsget (tb_groups tb2) gid = None \<or> (\<exists>row. jsget (tb_groups tb2) gid = Some row \<and> sg_team row = None)"
        by (auto simp: team_def split: option.splits)
      then show ?thesis using unlinked_has_no_rows [OF rows2] by (intro rows_ok_settle [OF rows2]) auto
    next
      case False
      then have "outs = []" using True by blast
      then show ?thesis using rows2 by simp
    qed
    then show ?thesis using t' core2 fr2 sp2 by simp
  next
    case False
    then obtain tid where tid: "team = Some tid" by auto
    then obtain row where row: "jsget (tb_groups tb2) gid = Some row" "sg_team row = Some tid"
      by (auto simp: team_def split: option.splits)
    obtain tb3 ns3 where j: "for_each (join_team tid gid) ins (tb2, ns) = Inr (tb3, ns3)"
      and l: "for_each (leave_team tid gid) outs (tb3, ns3) = Inr (tb', ns')"
      using set False row by (auto simp: set_group_members_def add bind_result_Inr_iff r team_def)
    have "\<forall>u \<in> set ins. (gid, u) \<in> set (tb_group_members tb2) \<or> (gid, u) \<in> {gid} \<times> set outs"
      by (auto simp: tb2 tl gm outs)
    note c3 = join_all [OF core2 rows2 j this row]
    then have c4: "core_ok lc tb'" "rows_ok ({gid} \<times> set outs) tb'" "same_frame tb3 tb'" "spares gid tb3 tb'"
      "set (tb_provisioned tb') = set (tb_provisioned tb3) - {(tid, u, gid) | u. u \<in> set outs}"
      using leave_all [OF _ _ l] by blast+
    have f: "same_frame tb2 tb'" using c3 c4(3) same_frame_trans by blast
    have "rows_ok {} tb'"
    proof (rule rows_ok_settle [OF c4(2)])
      fix t u g assume p: "(t, u, g) \<in> set (tb_provisioned tb')"
      show "(g, u) \<notin> {gid} \<times> set outs"
      proof
        assume a: "(g, u) \<in> {gid} \<times> set outs"
        then have "t = tid" using rows_ok_row [OF c4(2) p] row f by (auto simp: same_frame_def)
        then show False using a p c4(5) by auto
      qed
    qed
    moreover have "spares gid tb tb'" using c3 c4(4) sp2 spares_trans by blast
    ultimately show ?thesis using c4(1) f fr2 by (simp add: same_frame_def)
  qed
qed

lemma set_group_team_cases:
  assumes "set_group_team gid tid tb = Inr tb'" "jsget (tb_groups tb) gid = Some row"
  shows "tb' = tb\<lparr>tb_groups := jsset (tb_groups tb) gid (row\<lparr>sg_team := tid\<rparr>)\<rparr> \<and> (\<forall>t. tid = Some t \<longrightarrow> jshas (tb_teams tb) t)"
  using assms by (auto simp: set_group_team_def split: if_splits)

lemma set_group_team_ok:
  assumes ok: "core_ok lc tb" "rows_ok {} tb" "\<And>t u. (t, u, gid) \<notin> set (tb_provisioned tb)"
    and "set_group_team gid tid tb = Inr tb'" "jsget (tb_groups tb) gid = Some row"
  shows "core_ok lc tb' \<and> rows_ok {} tb' \<and> spares gid tb tb' \<and> jsget (tb_groups tb') gid = Some (row\<lparr>sg_team := tid\<rparr>) \<and>
    tb_group_members tb' = tb_group_members tb \<and> tb_provisioned tb' = tb_provisioned tb"
proof -
  note c = set_group_team_cases [OF assms(4,5)]
  let ?gs = "jsset (tb_groups tb) gid (row\<lparr>sg_team := tid\<rparr>)"
  have "core_ok lc (tb\<lparr>tb_groups := ?gs\<rparr>)"
  proof (rule core_ok_groups [OF ok(1)])
    show "jsmap_ok ?gs" using core_keysD [OF ok(1)] by (rule jsmap_ok_jsset)
    show "\<forall>g r t. jsget ?gs g = Some r \<longrightarrow> sg_team r = Some t \<longrightarrow> jshas (tb_teams tb) t"
      using c core_refsD [OF ok(1)] by (auto simp: jsget_jsset split: if_splits)
  qed
  moreover have "rows_ok {} (tb\<lparr>tb_groups := ?gs\<rparr>)"
  proof (rule rows_ok_groups [OF ok(2)])
    fix t u g assume "(t, u, g) \<in> set (tb_provisioned tb)"
    then have "g \<noteq> gid" using ok(3) by auto
    then show "jsget ?gs g = jsget (tb_groups tb) g" by (simp add: jsget_jsset)
  qed
  ultimately show ?thesis using c by (simp add: spares_same jsget_jsset)
qed


text \<open>Unlinking takes back what is the group's alone, and leaves none of its rows.\<close>

lemma unlink_group_ok:
  assumes ok: "core_ok lc tb" "rows_ok {} tb" and row: "jsget (tb_groups tb) gid = Some grp"
    and unlink: "unlink_group gid grp (tb, ns) = Inr (tb', ns')"
  shows "core_ok lc tb' \<and> rows_ok {} tb' \<and> spares gid tb tb' \<and> jsget (tb_groups tb') gid = Some (grp\<lparr>sg_team := None\<rparr>) \<and>
    tb_group_members tb' = tb_group_members tb \<and> tb_users tb' = tb_users tb \<and> (\<forall>t u. (t, u, gid) \<notin> set (tb_provisioned tb')) \<and>
    (\<forall>t u. member_role tb' t u = (if sg_team grp = Some t \<and> sole t u gid tb then None else member_role tb t u))"
proof (cases "sg_team grp")
  case None
  then have "tb' = tb" "grp\<lparr>sg_team := None\<rparr> = grp" using unlink by (auto simp: unlink_group_def)
  then show ?thesis using ok row None unlinked_has_no_rows [OF ok(2)] by simp
next
  case (Some tid)
  obtain tb1 ns1 tb2 where l: "for_each (leave_team tid gid) (group_member_ids gid tb) (tb, ns) = Inr (tb1, ns1)"
    and s: "set_group_team gid None tb1 = Inr tb2"
    and t': "tb' = record_audit By_scim (Group_unlinked gid tid (sg_display grp)) tb2"
    using unlink Some by (auto simp: unlink_group_def bind_result_Inr_iff)
  note c = leave_all [OF ok l]
  have f: "same_frame tb tb1" and sp: "spares gid tb tb1" and c1: "core_ok lc tb1" "rows_ok {} tb1"
    and rows: "set (tb_provisioned tb1) = set (tb_provisioned tb) - {(tid, u, gid) | u. u \<in> set (group_member_ids gid tb)}"
    using c by blast+
  have roles: "\<And>t u. member_role tb1 t u =
      (if t = tid \<and> u \<in> set (group_member_ids gid tb) \<and> sole t u gid tb then None else member_role tb t u)"
    using c by blast
  have row1: "jsget (tb_groups tb1) gid = Some grp" using row f by (simp add: same_frame_def)
  have mine: "t = tid \<and> u \<in> set (group_member_ids gid tb)" if "(t, u, gid) \<in> set (tb_provisioned tb)" for t u
    using rows_ok_row [OF ok(2) that] row Some by (force simp: group_member_ids_def)
  then have gone: "(t, u, gid) \<notin> set (tb_provisioned tb1)" for t u unfolding rows by blast
  note g = set_group_team_ok [OF c1 gone s row1]
  have tb2: "tb2 = tb1\<lparr>tb_groups := jsset (tb_groups tb1) gid (grp\<lparr>sg_team := None\<rparr>)\<rparr>"
    using set_group_team_cases [OF s row1] by blast
  have "member_role tb' t u = (if sg_team grp = Some t \<and> sole t u gid tb then None else member_role tb t u)" for t u
  proof -
    have "member_role tb' t u = member_role tb1 t u" by (simp add: t' tb2)
    moreover have "u \<in> set (group_member_ids gid tb)" if "sole t u gid tb" using that mine unfolding sole_def by blast
    ultimately show ?thesis unfolding roles Some by (cases "sole t u gid tb"; cases "t = tid") simp_all
  qed
  moreover have "spares gid tb tb'"
    using spares_trans [OF sp] by (simp add: t' tb2 spares_same)
  ultimately show ?thesis using g gone f by (simp add: t' tb2 same_frame_def)
qed

text \<open>Linking brings in everyone of the group who is active, as members; who is in the team already stays as they are.\<close>

definition linked_role :: "string \<Rightarrow> scim_group_row \<Rightarrow> string \<Rightarrow> tables \<Rightarrow> string \<Rightarrow> string \<Rightarrow> team_role option" where
  "linked_role gid grp tid tb t u =
     (if t = tid then
        (if (gid, u) \<in> set (tb_group_members tb) \<and> member_role tb t u = None \<and> active u tb then Some Team_member
         else member_role tb t u)
      else if sg_team grp = Some t \<and> sole t u gid tb then None else member_role tb t u)"

lemma link_group_ok:
  assumes ok: "core_ok lc tb" "rows_ok {} tb" and row: "jsget (tb_groups tb) gid = Some grp"
    and link: "link_group gid grp tid (tb, ns) = Inr (tb', ns')" and other: "sg_team grp \<noteq> Some tid"
  shows "core_ok lc tb' \<and> rows_ok {} tb' \<and> spares gid tb tb' \<and> (\<forall>t u. member_role tb' t u = linked_role gid grp tid tb t u)"
proof -
  obtain tb1 ns1 tb2 tb3 where u: "(if sg_team grp \<noteq> None then unlink_group gid grp (tb, ns) else Inr (tb, ns)) = Inr (tb1, ns1)"
    and s: "set_group_team gid (Some tid) tb1 = Inr tb2"
    and j: "for_each (join_team tid gid) (group_member_ids gid tb2) (tb2, ns1) = Inr (tb3, ns')"
    and t': "tb' = record_audit By_scim (Group_linked gid tid (sg_display grp)) tb3"
    using link other unfolding link_group_def by (auto simp: bind_result_Inr_iff simp del: not_None_eq)
  have "unlink_group gid grp (tb, ns) = Inr (tb1, ns1)" using u by (cases "sg_team grp") (auto simp: unlink_group_def)
  note c = unlink_group_ok [OF ok row this]
  have c1: "core_ok lc tb1" "rows_ok {} tb1" and sp1: "spares gid tb tb1"
    and row1: "jsget (tb_groups tb1) gid = Some (grp\<lparr>sg_team := None\<rparr>)"
    and m1: "tb_group_members tb1 = tb_group_members tb" "tb_users tb1 = tb_users tb"
    and gone: "\<And>t u. (t, u, gid) \<notin> set (tb_provisioned tb1)"
    using c by blast+
  have roles1: "\<And>t u. member_role tb1 t u = (if sg_team grp = Some t \<and> sole t u gid tb then None else member_role tb t u)"
    using c by blast
  note g = set_group_team_ok [OF c1 gone s row1]
  have tb2: "tb2 = tb1\<lparr>tb_groups := jsset (tb_groups tb1) gid (grp\<lparr>sg_team := Some tid\<rparr>)\<rparr>"
    using set_group_team_cases [OF s row1] by simp
  have c2: "core_ok lc tb2" "rows_ok {} tb2" "jsget (tb_groups tb2) gid = Some (grp\<lparr>sg_team := Some tid\<rparr>)" using g by simp_all
  have "\<forall>u \<in> set (group_member_ids gid tb2). (gid, u) \<in> set (tb_group_members tb2) \<or> (gid, u) \<in> {}"
    by (auto simp: group_member_ids_def)
  note c = join_all [OF c2(1,2) j this c2(3)]
  have c3: "core_ok lc tb3" "rows_ok {} tb3" and sp3: "spares gid tb2 tb3" using c by simp_all
  have roles3: "\<And>t u. member_role tb3 t u =
       (if t = tid \<and> u \<in> set (group_member_ids gid tb2) \<and> member_role tb2 t u = None \<and> active u tb2 then Some Team_member
        else member_role tb2 t u)"
    using c by simp
  have ids: "u \<in> set (group_member_ids gid tb2) \<longleftrightarrow> (gid, u) \<in> set (tb_group_members tb)" for u
    by (force simp: tb2 m1 group_member_ids_def)
  have roles2: "member_role tb2 t u = member_role tb1 t u" for t u by (simp add: tb2)
  have act: "active u tb2 = active u tb" for u by (simp add: active_def tb2 m1)
  have "member_role tb' t u = linked_role gid grp tid tb t u" for t u
    using other by (cases "t = tid") (simp_all add: t' roles3 ids act roles2 roles1 linked_role_def)
  moreover have "spares gid tb1 tb2" by (rule spares_same) (simp_all add: tb2)
  then have "spares gid tb tb3" using spares_trans [OF spares_trans [OF sp1] sp3] by blast
  then have "spares gid tb tb'" by (rule spares_trans) (rule spares_same, simp_all add: t')
  moreover have "core_ok lc tb'" "rows_ok {} tb'" using c3 by (simp_all add: t')
  ultimately show ?thesis by (intro conjI allI)
qed

lemma link_group_keeps:
  assumes "core_ok lc tb" "rows_ok {} tb" "jsget (tb_groups tb) gid = Some grp" "link_group gid grp tid (tb, ns) = Inr (tb', ns')"
  shows "core_ok lc tb' \<and> rows_ok {} tb' \<and> spares gid tb tb'"
proof (cases "sg_team grp = Some tid")
  case True
  then have "tb' = tb" using assms(4) by (simp add: link_group_def)
  then show ?thesis using assms(1,2) by simp
next
  case False
  then show ?thesis using link_group_ok [OF assms] by simp
qed


lemma uncommitted [simp]: "fst (commit_changes tb (Inl p)) = tb" "fst (commit_changes tb (Inr (tb', ns))) = tb'"
  by (simp_all add: commit_changes_def)

text \<open>What a handler leaves: the tables of before, or those its transaction built.\<close>

lemma commit_changes_cases:
  assumes "P tb" "\<And>tb' ns. r = Inr (tb', ns) \<Longrightarrow> P tb'"
  shows "P (fst (commit_changes tb r))"
  using assms by (auto simp: commit_changes_def split: sum.split)

lemma set_group_link_keeps:
  assumes "core_ok lc tb" "rows_ok {} tb"
  shows "core_ok lc (fst (set_group_link gid target tb)) \<and> rows_ok {} (fst (set_group_link gid target tb)) \<and>
    spares gid tb (fst (set_group_link gid target tb))"
  unfolding set_group_link_def
proof (rule commit_changes_cases)
  fix tb' ns
  assume r: "(case jsget (tb_groups tb) gid of
          None \<Rightarrow> Inl Scim_group_not_found
        | Some grp \<Rightarrow> (case target of
              None \<Rightarrow> unlink_group gid grp (tb, [])
            | Some tid \<Rightarrow> if \<not> jshas (tb_teams tb) tid then Inl Team_not_found else link_group gid grp tid (tb, [])))
         = Inr (tb', ns)"
  then obtain grp where g: "jsget (tb_groups tb) gid = Some grp" by (auto split: option.splits)
  show "core_ok lc tb' \<and> rows_ok {} tb' \<and> spares gid tb tb'"
  proof (cases target)
    case None
    then show ?thesis using r g unlink_group_ok [OF assms g, of "[]" tb' ns] by simp
  next
    case (Some tid)
    then show ?thesis using r g link_group_keeps [OF assms g, of tid "[]" tb' ns] by (simp split: if_splits)
  qed
qed (use assms in simp)

lemma insert_scim_group_ok:
  assumes "core_ok lc tb" "rows_ok {} tb" "insert_scim_group l gid display ext tb = Inr tb'"
  shows "core_ok lc tb' \<and> rows_ok {} tb' \<and> spares gid tb tb'"
proof -
  let ?gs = "jsset (tb_groups tb) gid \<lparr>sg_display = display, sg_external = ext, sg_team = None\<rparr>"
  have new: "jsget (tb_groups tb) gid = None" and t': "tb' = tb\<lparr>tb_groups := ?gs\<rparr>"
    using assms(3) by (auto simp: insert_scim_group_def split: if_splits)
  have "core_ok lc (tb\<lparr>tb_groups := ?gs\<rparr>)"
  proof (rule core_ok_groups [OF assms(1)])
    show "jsmap_ok ?gs" using core_keysD [OF assms(1)] by (rule jsmap_ok_jsset)
    show "\<forall>g r t. jsget ?gs g = Some r \<longrightarrow> sg_team r = Some t \<longrightarrow> jshas (tb_teams tb) t"
      using core_refsD [OF assms(1)] by (auto simp: jsget_jsset split: if_splits)
  qed
  moreover have "rows_ok {} (tb\<lparr>tb_groups := ?gs\<rparr>)"
    using unlinked_has_no_rows [OF assms(2)] new by (intro rows_ok_groups [OF assms(2)]) (auto simp: jsget_jsset)
  ultimately show ?thesis by (simp add: t' spares_same)
qed

lemma update_scim_group_ok:
  assumes "core_ok lc tb" "rows_ok {} tb" "update_scim_group l gid display ext tb = Inr tb'"
  shows "core_ok lc tb' \<and> rows_ok {} tb' \<and> spares gid tb tb'"
proof (cases "jsget (tb_groups tb) gid")
  case None
  then show ?thesis using assms by (simp add: update_scim_group_def)
next
  case (Some row)
  let ?gs = "jsset (tb_groups tb) gid (row\<lparr>sg_display := display, sg_external := ext\<rparr>)"
  have t': "tb' = tb\<lparr>tb_groups := ?gs\<rparr>" using assms(3) Some by (simp add: update_scim_group_def split: if_splits)
  have "core_ok lc (tb\<lparr>tb_groups := ?gs\<rparr>)"
  proof (rule core_ok_groups [OF assms(1)])
    show "jsmap_ok ?gs" using core_keysD [OF assms(1)] by (rule jsmap_ok_jsset)
    show "\<forall>g r t. jsget ?gs g = Some r \<longrightarrow> sg_team r = Some t \<longrightarrow> jshas (tb_teams tb) t"
      using core_refsD [OF assms(1)] Some by (auto simp: jsget_jsset split: if_splits)
  qed
  moreover have "rows_ok {} (tb\<lparr>tb_groups := ?gs\<rparr>)"
    using rows_ok_row [OF assms(2)] Some assms(2) unfolding rows_ok_def by (auto simp: jsget_jsset)
  ultimately show ?thesis by (simp add: t' spares_same)
qed

lemma delete_scim_group_ok:
  assumes "core_ok lc tb" "rows_ok {} tb" "\<And>u. (gid, u) \<notin> set (tb_group_members tb)"
  shows "core_ok lc (delete_scim_group gid tb) \<and> rows_ok {} (delete_scim_group gid tb) \<and> spares gid tb (delete_scim_group gid tb) \<and>
    member_role (delete_scim_group gid tb) = member_role tb"
proof -
  note gone = memberless_has_no_rows [OF assms(2,3)]
  have p: "filter (\<lambda>(t, u, g). g \<noteq> gid) (tb_provisioned tb) = tb_provisioned tb" using gone by (auto simp: filter_id_conv)
  have gm: "filter (\<lambda>(g, u). g \<noteq> gid) (tb_group_members tb) = tb_group_members tb" using assms(3) by (auto simp: filter_id_conv)
  have d: "delete_scim_group gid tb = tb\<lparr>tb_groups := jsdelete (tb_groups tb) gid\<rparr>"
    by (simp add: delete_scim_group_def p gm)
  have k: "jsmap_ok (tb_groups tb)" by (rule core_keysD [OF assms(1)])
  have "core_ok lc (tb\<lparr>tb_groups := jsdelete (tb_groups tb) gid\<rparr>)"
  proof (rule core_ok_groups [OF assms(1)])
    show "jsmap_ok (jsdelete (tb_groups tb) gid)" using k by (rule jsmap_ok_jsdelete)
    show "\<forall>g r t. jsget (jsdelete (tb_groups tb) gid) g = Some r \<longrightarrow> sg_team r = Some t \<longrightarrow> jshas (tb_teams tb) t"
      using core_refsD [OF assms(1)] k by (auto simp: jsget_jsdelete split: if_splits)
  qed
  moreover have "rows_ok {} (tb\<lparr>tb_groups := jsdelete (tb_groups tb) gid\<rparr>)"
  proof (rule rows_ok_groups [OF assms(2)])
    fix t u g assume "(t, u, g) \<in> set (tb_provisioned tb)"
    then have "g \<noteq> gid" using gone by auto
    then show "jsget (jsdelete (tb_groups tb) gid) g = jsget (tb_groups tb) g" using k by (simp add: jsget_jsdelete)
  qed
  ultimately show ?thesis by (simp add: d spares_same)
qed

lemma create_group_keeps:
  assumes "core_ok lc tb" "rows_ok {} tb"
  shows "core_ok lc (fst (create_group l gid display ext members tb)) \<and> rows_ok {} (fst (create_group l gid display ext members tb)) \<and>
    spares gid tb (fst (create_group l gid display ext members tb))"
  unfolding create_group_def
proof (rule commit_changes_cases)
  fix tb' ns
  assume "catch uniqueness_or
       (bind_result (assert_users members tb) (\<lambda>_.
        bind_result (insert_scim_group l gid display ext tb) (\<lambda>tb1.
        bind_result (set_group_members gid members [] (tb1, [])) (\<lambda>((tb2, ns), in_ids, out_ids).
        Inr (record_audit By_scim (Group_created gid display (length in_ids)) tb2, []))))) = Inr (tb', ns)"
  then obtain tb1 tb2 ns2 i o2 where i: "insert_scim_group l gid display ext tb = Inr tb1"
    and s: "set_group_members gid members [] (tb1, []) = Inr ((tb2, ns2), i, o2)"
    and t': "tb' = record_audit By_scim (Group_created gid display (length i)) tb2"
    by (auto simp: bind_result_Inr_iff)
  note a = insert_scim_group_ok [OF assms i]
  have b: "core_ok lc tb2 \<and> rows_ok {} tb2 \<and> spares gid tb1 tb2"
    using set_group_members_ok [OF _ _ s] a by blast
  have "spares gid tb tb2" using a b spares_trans by blast
  then have "spares gid tb tb'" by (rule spares_trans) (rule spares_same, simp_all add: t')
  then show "core_ok lc tb' \<and> rows_ok {} tb' \<and> spares gid tb tb'" using b by (simp add: t')
qed (use assms in simp)

lemma update_group_keeps:
  assumes "core_ok lc tb" "rows_ok {} tb"
  shows "core_ok lc (fst (update_group l gid compute tb)) \<and> rows_ok {} (fst (update_group l gid compute tb)) \<and>
    spares gid tb (fst (update_group l gid compute tb))"
  unfolding update_group_def
proof (rule commit_changes_cases)
  let ?members = "group_member_ids gid tb"
  fix tb' ns
  assume "catch uniqueness_or
       (case jsget (tb_groups tb) gid of
          None \<Rightarrow> Inl Scim_group_not_found
        | Some current \<Rightarrow>
            (let members = group_member_ids gid tb in
             bind_result (compute (sg_display current, sg_external current, members)) (\<lambda>(display, ext, next_members).
             let added = filter (\<lambda>u. u \<notin> set members) next_members;
                 removed = filter (\<lambda>u. u \<notin> set next_members) members;
                 fields = (if display \<noteq> sg_display current then [''displayName''] else [])
                          @ (if ext \<noteq> sg_external current then [''externalId''] else []) in
             bind_result (assert_users added tb) (\<lambda>_.
             bind_result (set_group_members gid added removed (tb, [])) (\<lambda>((tb1, ns), in_ids, out_ids).
             if fields \<noteq> [] \<or> in_ids \<noteq> [] \<or> out_ids \<noteq> [] then
               bind_result (update_scim_group l gid display ext tb1) (\<lambda>tb2.
               Inr (record_audit By_scim (Group_updated gid (sg_team current) display fields (length in_ids) (length out_ids)) tb2, ns))
             else Inr (tb1, ns)))))) = Inr (tb', ns)" (is "?tx = _")
  then obtain current where cur: "jsget (tb_groups tb) gid = Some current" by (auto split: option.splits)
  obtain d e nm where c: "compute (sg_display current, sg_external current, ?members) = Inr (d, e, nm)"
    using \<open>?tx = _\<close> cur by (auto simp: bind_result_Inr_iff Let_def)
  define added where "added = filter (\<lambda>u. u \<notin> set ?members) nm"
  define removed where "removed = filter (\<lambda>u. u \<notin> set nm) ?members"
  define fields where "fields = (if d \<noteq> sg_display current then [''displayName''] else [])
      @ (if e \<noteq> sg_external current then [''externalId''] else [])"
  have "bind_result (assert_users added tb) (\<lambda>_.
      bind_result (set_group_members gid added removed (tb, [])) (\<lambda>((tb1, ns), in_ids, out_ids).
      if fields \<noteq> [] \<or> in_ids \<noteq> [] \<or> out_ids \<noteq> [] then
        bind_result (update_scim_group l gid d e tb1) (\<lambda>tb2.
        Inr (record_audit By_scim (Group_updated gid (sg_team current) d fields (length in_ids) (length out_ids)) tb2, ns))
      else Inr (tb1, ns))) = Inr (tb', ns)"
    using \<open>?tx = _\<close> unfolding catch_Inr cur option.case c bind_result.simps prod.case Let_def
      added_def [symmetric] removed_def [symmetric] fields_def [symmetric] .
  then obtain tb1 ns1 i o1 where s: "set_group_members gid added removed (tb, []) = Inr ((tb1, ns1), i, o1)"
    and rest: "(if fields \<noteq> [] \<or> i \<noteq> [] \<or> o1 \<noteq> [] then
        bind_result (update_scim_group l gid d e tb1) (\<lambda>tb2.
        Inr (record_audit By_scim (Group_updated gid (sg_team current) d fields (length i) (length o1)) tb2, ns1))
      else Inr (tb1, ns1)) = Inr (tb', ns)"
    unfolding bind_result_Inr_iff by auto
  have u: "tb' = tb1 \<or> (\<exists>display ext tb2 a. update_scim_group l gid display ext tb1 = Inr tb2 \<and> tb' = record_audit By_scim a tb2)"
    using rest by (auto simp: bind_result_Inr_iff split: if_splits)
  have a: "core_ok lc tb1 \<and> rows_ok {} tb1 \<and> spares gid tb tb1" using set_group_members_ok [OF assms s] by blast
  from u show "core_ok lc tb' \<and> rows_ok {} tb' \<and> spares gid tb tb'"
  proof (elim disjE exE conjE)
    assume "tb' = tb1"
    then show ?thesis using a by simp
  next
    fix display ext tb2 au
    assume u: "update_scim_group l gid display ext tb1 = Inr tb2" and t': "tb' = record_audit By_scim au tb2"
    have b: "core_ok lc tb2 \<and> rows_ok {} tb2 \<and> spares gid tb1 tb2" using update_scim_group_ok [OF _ _ u] a by blast
    have "spares gid tb tb2" using a b spares_trans by blast
    then have "spares gid tb tb'" by (rule spares_trans) (rule spares_same, simp_all add: t')
    then show ?thesis using b by (simp add: t')
  qed
qed (use assms in simp)

text \<open>Deleting a group takes back what is the group's alone.\<close>

lemma delete_group_ok:
  assumes ok: "core_ok lc tb" "rows_ok {} tb" and row: "jsget (tb_groups tb) gid = Some grp"
    and d: "delete_group gid tb = (tb', ns, None)"
  shows "core_ok lc tb' \<and> rows_ok {} tb' \<and> spares gid tb tb' \<and>
    (\<forall>t u. member_role tb' t u = (if sg_team grp = Some t \<and> sole t u gid tb then None else member_role tb t u))"
proof -
  let ?ids = "group_member_ids gid tb"
  obtain tb1 ns1 i o1 where s: "set_group_members gid [] ?ids (tb, []) = Inr ((tb1, ns1), i, o1)"
    and t': "tb' = record_audit By_scim (Group_deleted gid (sg_team grp) (sg_display grp)) (delete_scim_group gid tb1)"
    using d row by (auto simp: delete_group_def commit_changes_def bind_result_Inr_iff split: sum.splits)
  note a = set_group_members_ok [OF ok s]
  have a1: "core_ok lc tb1" "rows_ok {} tb1" and sp1: "spares gid tb tb1"
    and gm: "set (tb_group_members tb1) = (set (tb_group_members tb) \<union> {gid} \<times> set []) - {gid} \<times> set ?ids" using a by blast+
  have none: "(gid, u) \<notin> set (tb_group_members tb1)" for u
    unfolding gm by (force simp: group_member_ids_def)
  note b = delete_scim_group_ok [OF a1 none]
  have "spares gid tb (delete_scim_group gid tb1)" using spares_trans [OF sp1] b by blast
  then have "spares gid tb tb'" by (rule spares_trans) (rule spares_same, simp_all add: t')
  moreover have "core_ok lc tb'" "rows_ok {} tb'" using b by (simp_all add: t')
  moreover have "member_role tb' t u = (if sg_team grp = Some t \<and> sole t u gid tb then None else member_role tb t u)" for t u
  proof -
    define tb2 where "tb2 = fst (remove_group_members gid ?ids tb)"
    define outs where "outs = snd (remove_group_members gid ?ids tb)"
    have r: "remove_group_members gid ?ids tb = (tb2, outs)" by (simp add: tb2_def outs_def)
    have add: "add_group_members gid [] tb = Inr (tb, [])" by (simp add: add_group_members_def)
    have tb2: "tb_groups tb2 = tb_groups tb" "member_role tb2 = member_role tb" "tb_provisioned tb2 = tb_provisioned tb"
      by (simp_all add: tb2_def remove_group_members_def)
    have core2: "core_ok lc tb2" using ok(1) by (simp add: tb2_def remove_group_members_def)
    have outs: "set outs = {u. (gid, u) \<in> set (tb_group_members tb)}"
      by (force simp: outs_def remove_group_members_def group_member_ids_def)
    have rows2: "rows_ok ({gid} \<times> set outs) tb2"
      unfolding tb2_def remove_group_members_def fst_conv
      using rows_ok_members [OF ok(2), of "filter (\<lambda>(g, u). \<not> (g = gid \<and> u \<in> set ?ids)) (tb_group_members tb)" "{gid} \<times> set outs"]
      by (auto simp: outs)
    have last_step: "member_role tb' t u = member_role tb1 t u" using b by (simp add: t')
    have soles: "sole t u gid tb2 = sole t u gid tb" for t u by (simp add: sole_def tb2)
    show ?thesis
    proof (cases "sg_team grp")
      case None
      then have "tb1 = tb2" using s row by (simp add: set_group_members_def add r tb2)
      then show ?thesis using None last_step tb2 by simp
    next
      case (Some tid)
      have "member_role tb1 t u = (if t = tid \<and> u \<in> set outs \<and> sole t u gid tb2 then None else member_role tb2 t u)"
      proof (cases "outs = []")
        case True
        then have "tb1 = tb2" using s row Some by (simp add: set_group_members_def add r tb2)
        then show ?thesis using True by simp
      next
        case False
        then have "for_each (leave_team tid gid) outs (tb2, []) = Inr (tb1, ns1)"
          using s row Some by (auto simp: set_group_members_def add r tb2 bind_result_Inr_iff)
        from leave_all [OF core2 rows2 this] show ?thesis by blast
      qed
      moreover have "u \<in> set outs" if "sole t u gid tb"
        using that rows_ok_row [OF ok(2), of t u gid] by (auto simp: sole_def outs)
      ultimately show ?thesis unfolding last_step soles tb2 Some by (cases "sole t u gid tb"; cases "t = tid") simp_all
    qed
  qed
  ultimately show ?thesis by (intro conjI allI)
qed

lemma delete_group_keeps:
  assumes "core_ok lc tb" "rows_ok {} tb"
  shows "core_ok lc (fst (delete_group gid tb)) \<and> rows_ok {} (fst (delete_group gid tb)) \<and> spares gid tb (fst (delete_group gid tb))"
proof (cases "\<exists>tb' ns. delete_group gid tb = (tb', ns, None)")
  case True
  then obtain tb' ns where d: "delete_group gid tb = (tb', ns, None)" by blast
  then obtain grp where "jsget (tb_groups tb) gid = Some grp"
    by (auto simp: delete_group_def commit_changes_def split: option.splits)
  from delete_group_ok [OF assms this d] show ?thesis by (simp add: d)
next
  case False
  then have "fst (delete_group gid tb) = tb" by (auto simp: delete_group_def commit_changes_def split: sum.splits)
  then show ?thesis using assms by simp
qed


section \<open>The tables under every event\<close>

datatype group_event =
    Link_to string "string option"
  | Create_group string string "string option" "string list"
  | Update_group string "group_state \<Rightarrow> (problem, group_state) result"
  | Delete_group string

definition group_step :: "(string \<Rightarrow> string) \<Rightarrow> tables \<Rightarrow> group_event \<Rightarrow> tables" where
  "group_step lc tb e =
     fst (case e of
            Link_to gid target \<Rightarrow> set_group_link gid target tb
          | Create_group gid display ext members \<Rightarrow> create_group lc gid display ext members tb
          | Update_group gid compute \<Rightarrow> update_group lc gid compute tb
          | Delete_group gid \<Rightarrow> delete_group gid tb)"

text \<open>A request of a principal to the teams module, an accepted invitation, identity's writing of a user row, or a change of a group.\<close>

datatype event = Request principal request | Accepted string string | User_row string user_row | Group group_event

definition team_step :: "(string \<Rightarrow> string) \<Rightarrow> tables \<Rightarrow> event \<Rightarrow> tables" where
  "team_step lc tb e =
     (case e of
        Request p rq \<Rightarrow> fst (serve lc p rq tb)
      | Accepted iid uid \<Rightarrow> (case add_invited_member iid uid tb of Inr tb' \<Rightarrow> tb' | Inl _ \<Rightarrow> tb)
      | User_row uid row \<Rightarrow> tb\<lparr>tb_users := jsset (tb_users tb) uid row\<rparr>
      | Group ge \<Rightarrow> group_step lc tb ge)"

definition no_tables :: tables where
  "no_tables = \<lparr>tb_users = [], tb_teams = [], tb_members = [], tb_workspaces = [], tb_grants = [], tb_invites = [],
     tb_groups = [], tb_group_members = [], tb_provisioned = [], tb_audits = [], tb_repos = []\<rparr>"

definition event_group :: "group_event \<Rightarrow> string" where
  "event_group e = (case e of Link_to g _ \<Rightarrow> g | Create_group g _ _ _ \<Rightarrow> g | Update_group g _ \<Rightarrow> g | Delete_group g \<Rightarrow> g)"

lemma group_step_keeps:
  assumes "tables_ok lc tb"
  shows "tables_ok lc (group_step lc tb e) \<and> spares (event_group e) tb (group_step lc tb e)"
proof -
  have ok: "core_ok lc tb" "rows_ok {} tb" using assms by (simp_all add: tables_ok_split)
  show ?thesis
    using set_group_link_keeps [OF ok] create_group_keeps [OF ok] update_group_keeps [OF ok] delete_group_keeps [OF ok]
    by (cases e) (simp_all add: group_step_def event_group_def tables_ok_split)
qed

lemma user_row_ok: "tables_ok lc tb \<Longrightarrow> tables_ok lc (tb\<lparr>tb_users := jsset (tb_users tb) uid row\<rparr>)"
proof -
  assume ok: "tables_ok lc tb"
  let ?t = "tb\<lparr>tb_users := jsset (tb_users tb) uid row\<rparr>"
  have "refs_ok ?t" using ok by (auto simp: tables_ok_def base_ok_def refs_ok_def jsget_jsset)
  moreover have "grants_ok ?t" using ok by (simp add: tables_ok_def base_ok_def grants_ok_def is_team_member_iff)
  moreover have "admins_ok ?t" "repos_ok ?t" "provisioned_ok ?t"
    using ok by (simp_all add: tables_ok_def base_ok_def admins_ok_def repos_ok_def provisioned_ok_def)
  ultimately show ?thesis using ok by (simp add: tables_ok_def base_parts names_ok_def)
qed

interpretation teams: machine "team_step lc" "tables_ok lc" for lc
proof
  fix tb e assume "tables_ok lc tb"
  then show "tables_ok lc (team_step lc tb e)"
    by (cases e) (auto simp: team_step_def serve_ok user_row_ok group_step_keeps intro: add_invited_member_ok split: sum.split)
qed

interpretation groups: climbing_machine "group_step lc" "tables_ok lc"
    "\<lambda>tb tb'. \<forall>t u role. by_hand t u role tb \<longrightarrow> by_hand t u role tb'" for lc
proof
  fix tb e assume "tables_ok lc tb"
  from group_step_keeps [OF this, of e] show "tables_ok lc (group_step lc tb e)"
    "\<forall>t u role. by_hand t u role tb \<longrightarrow> by_hand t u role (group_step lc tb e)" by (simp_all add: spares_def)
qed auto

lemma no_tables_ok: "tables_ok lc no_tables"
  by (simp add: no_tables_def tables_ok_def ok_defs admins_ok_def repos_ok_def member_role_def is_team_member_iff)


text \<open>C17: Provisioning leaves alone what it did not make: an admin's membership, and a membership that no
  group provisioned, keep their role through any sequence of SCIM changes and group links, and no change of a group
  touches the rows another group provisioned.\<close>

theorem hand_memberships_stay:
  assumes "tables_ok lc tb" "member_role tb t u = Some role"
    and "role = Team_admin \<or> (\<forall>g. (t, u, g) \<notin> set (tb_provisioned tb))"
  shows "member_role (run (group_step lc) tb evs) t u = Some role
    \<and> (g \<noteq> event_group e \<longrightarrow> (t', u', g) \<in> set (tb_provisioned tb) \<longrightarrow> (t', u', g) \<in> set (tb_provisioned (group_step lc tb e)))"
proof
  have "by_hand t u role tb" using assms(2,3) by (auto simp: by_hand_def)
  then have "by_hand t u role (run (group_step lc) tb evs)" using groups.below_run [OF assms(1)] by blast
  then show "member_role (run (group_step lc) tb evs) t u = Some role" by (simp add: by_hand_def)
  show "g \<noteq> event_group e \<longrightarrow> (t', u', g) \<in> set (tb_provisioned tb) \<longrightarrow> (t', u', g) \<in> set (tb_provisioned (group_step lc tb e))"
    using group_step_keeps [OF assms(1), of e] by (simp add: spares_def)
qed

definition ex_group_tables :: tables where
  "ex_group_tables = ex_tables\<lparr>tb_users := tb_users ex_tables @ [(''p'', ex_user ''p@x'')],
     tb_members := tb_members ex_tables @ [((''t'', ''p''), Team_member)],
     tb_groups := [(''g'', \<lparr>sg_display = ''G'', sg_external = None, sg_team = Some ''t''\<rparr>),
                   (''h'', \<lparr>sg_display = ''H'', sg_external = None, sg_team = None\<rparr>)],
     tb_group_members := [(''g'', ''p''), (''g'', ''m''), (''h'', ''p'')], tb_provisioned := [(''t'', ''p'', ''g'')]\<rparr>"

lemma ex_group_rows:
  "member_role ex_group_tables t u = (if t = ''t'' \<and> u = ''p'' then Some Team_member else member_role ex_tables t u)"
  "tb_teams ex_group_tables = tb_teams ex_tables" "tb_workspaces ex_group_tables = tb_workspaces ex_tables"
  "tb_grants ex_group_tables = tb_grants ex_tables" "tb_repos ex_group_tables = tb_repos ex_tables"
  "jshas (tb_users ex_group_tables) u \<longleftrightarrow> jshas (tb_users ex_tables) u \<or> u = ''p''"
  by (auto simp: ex_group_tables_def ex_tables_def member_role_def)

lemma ex_group_tables_ok: "tables_ok lc ex_group_tables"
proof -
  note ok = ex_tables_ok [of lc, unfolded tables_ok_def base_ok_def]
  have "keys_ok ex_group_tables" by (simp add: keys_ok_def ex_group_tables_def ex_tables_def)
  moreover have "refs_ok ex_group_tables"
    using ok unfolding refs_ok_def ex_group_rows by (auto simp: ex_group_tables_def ex_tables_def split: if_splits)
  moreover have "grants_ok ex_group_tables"
    using ok unfolding grants_ok_def is_team_member_iff ex_group_rows by fastforce
  moreover have "provisioned_ok ex_group_tables"
    by (simp add: provisioned_ok_def ex_group_rows) (simp add: ex_group_tables_def)
  moreover have "names_ok lc ex_group_tables" using ok unfolding names_ok_def ex_group_rows by simp
  moreover have "admins_ok ex_group_tables"
    by (auto simp: admins_ok_def ex_group_rows ex_rows split: if_splits intro!: exI [of _ "''a''"])
  moreover have "repos_ok ex_group_tables" using ok unfolding repos_ok_def ex_group_rows by simp
  ultimately show ?thesis by (simp add: tables_ok_def base_ok_def)
qed

lemma hand_memberships_stay_witness:
  "member_role (run (group_step id) ex_group_tables [Delete_group ''g'', Link_to ''h'' (Some ''t''), Delete_group ''h'']) ''t'' ''m''
     = Some Team_member"
proof -
  have m: "member_role ex_group_tables ''t'' ''m'' = Some Team_member" by (simp add: ex_group_rows ex_rows)
  have "Team_member = Team_admin \<or> (\<forall>g. (''t'', ''m'', g) \<notin> set (tb_provisioned ex_group_tables))"
    by (simp add: ex_group_tables_def)
  from hand_memberships_stay [OF ex_group_tables_ok m this] show ?thesis by blast
qed

text \<open>C26: Deleting a group, or unlinking it from its team, takes back exactly the memberships that are the group's alone: those
  it provisioned, that no other group provisioned and that were not promoted since; every other membership, of that
  team and of any other, keeps its role.\<close>

theorem taking_back_is_exact:
  assumes "tables_ok lc tb" "jsget (tb_groups tb) gid = Some grp"
    and "delete_group gid tb = (tb', ns, None) \<or> set_group_link gid None tb = (tb', ns, None)"
  shows "member_role tb' t u =
    (if sg_team grp = Some t \<and> member_role tb t u = Some Team_member \<and> (t, u, gid) \<in> set (tb_provisioned tb) \<and>
        (\<forall>g. g \<noteq> gid \<longrightarrow> (t, u, g) \<notin> set (tb_provisioned tb))
     then None else member_role tb t u)"
proof -
  have ok: "core_ok lc tb" "rows_ok {} tb" using assms(1) by (simp_all add: tables_ok_split)
  from assms(3) have "member_role tb' t u = (if sg_team grp = Some t \<and> sole t u gid tb then None else member_role tb t u)"
  proof
    assume "delete_group gid tb = (tb', ns, None)"
    from delete_group_ok [OF ok assms(2) this] show ?thesis by blast
  next
    assume "set_group_link gid None tb = (tb', ns, None)"
    then have "unlink_group gid grp (tb, []) = Inr (tb', ns)"
      using assms(2) by (auto simp: set_group_link_def commit_changes_def split: sum.splits)
    from unlink_group_ok [OF ok assms(2) this] show ?thesis by blast
  qed
  then show ?thesis unfolding sole_def .
qed

lemma taking_back_is_exact_witness:
  "member_role (fst (delete_group ''g'' ex_group_tables)) ''t'' ''p'' = None
   \<and> member_role (fst (delete_group ''g'' ex_group_tables)) ''t'' ''m'' = Some Team_member"
proof -
  define r where "r = delete_group ''g'' ex_group_tables"
  have g: "jsget (tb_groups ex_group_tables) ''g'' = Some \<lparr>sg_display = ''G'', sg_external = None, sg_team = Some ''t''\<rparr>"
    by (simp add: ex_group_tables_def)
  have "snd (snd r) = None" unfolding r_def
    by (simp add: delete_group_def commit_changes_def g) (simp add: ex_group_tables_def ex_tables_def set_group_members_def
        add_group_members_def remove_group_members_def group_member_ids_def leave_team_def delete_provisioned_def member_role_def
        decide_provisioned_removal_def count_provisioned_def)
  then have "r = (fst r, fst (snd r), None)" by (metis prod.collapse)
  then have d: "delete_group ''g'' ex_group_tables = (fst r, fst (snd r), None) \<or>
      set_group_link ''g'' None ex_group_tables = (fst r, fst (snd r), None)" by (simp add: r_def)
  show ?thesis unfolding r_def [symmetric] taking_back_is_exact [OF ex_group_tables_ok g d]
    by (simp add: ex_group_rows ex_rows) (simp add: ex_group_tables_def)
qed

text \<open>Linking a group to a team makes a member of everyone in the group who is active and was not in the team,
  leaves everyone already in the team with the role they had, and takes back from the team it was linked to
  before what was the group's alone; no other team changes.\<close>

theorem linking_brings_in:
  assumes "tables_ok lc tb" "jsget (tb_groups tb) gid = Some grp" "sg_team grp \<noteq> Some tid"
    and "set_group_link gid (Some tid) tb = (tb', ns, None)"
  shows "member_role tb' tid u =
      (if (gid, u) \<in> set (tb_group_members tb) \<and> member_role tb tid u = None \<and> active u tb then Some Team_member
       else member_role tb tid u)
    \<and> (t \<noteq> tid \<longrightarrow> member_role tb' t u = (if sg_team grp = Some t \<and> sole t u gid tb then None else member_role tb t u))"
proof -
  have ok: "core_ok lc tb" "rows_ok {} tb" using assms(1) by (simp_all add: tables_ok_split)
  have "link_group gid grp tid (tb, []) = Inr (tb', ns)"
    using assms(2,4) by (auto simp: set_group_link_def commit_changes_def split: sum.splits if_splits)
  from link_group_ok [OF ok assms(2) this assms(3)] have roles: "\<And>t u. member_role tb' t u = linked_role gid grp tid tb t u"
    by blast
  show ?thesis unfolding roles linked_role_def by simp
qed

definition ex_link_tables :: tables where
  "ex_link_tables = ex_tables\<lparr>tb_users := tb_users ex_tables @ [(''p'', ex_user ''p@x'')],
     tb_groups := [(''h'', \<lparr>sg_display = ''H'', sg_external = None, sg_team = None\<rparr>)],
     tb_group_members := [(''h'', ''p''), (''h'', ''a'')]\<rparr>"

lemma ex_link_rows:
  "member_role ex_link_tables t u = member_role ex_tables t u"
  "tb_teams ex_link_tables = tb_teams ex_tables" "tb_workspaces ex_link_tables = tb_workspaces ex_tables"
  "tb_grants ex_link_tables = tb_grants ex_tables" "tb_repos ex_link_tables = tb_repos ex_tables"
  "jshas (tb_users ex_link_tables) u \<longleftrightarrow> jshas (tb_users ex_tables) u \<or> u = ''p''"
  by (auto simp: ex_link_tables_def ex_tables_def member_role_def)

lemma ex_link_tables_ok: "tables_ok lc ex_link_tables"
proof -
  note ok = ex_tables_ok [of lc, unfolded tables_ok_def base_ok_def]
  have "keys_ok ex_link_tables" by (simp add: keys_ok_def ex_link_tables_def ex_tables_def)
  moreover have "refs_ok ex_link_tables"
    using ok unfolding refs_ok_def ex_link_rows by (auto simp: ex_link_tables_def ex_tables_def split: if_splits)
  moreover have "grants_ok ex_link_tables" using ok unfolding grants_ok_def is_team_member_iff ex_link_rows by simp
  moreover have "provisioned_ok ex_link_tables" by (simp add: provisioned_ok_def ex_link_tables_def ex_tables_def)
  moreover have "names_ok lc ex_link_tables" using ok unfolding names_ok_def ex_link_rows by simp
  moreover have "admins_ok ex_link_tables" using ok unfolding admins_ok_def ex_link_rows by simp
  moreover have "repos_ok ex_link_tables" using ok unfolding repos_ok_def ex_link_rows by simp
  ultimately show ?thesis by (simp add: tables_ok_def base_ok_def)
qed

lemma linking_brings_in_witness:
  "member_role (fst (set_group_link ''h'' (Some ''t'') ex_link_tables)) ''t'' ''p'' = Some Team_member
   \<and> member_role (fst (set_group_link ''h'' (Some ''t'') ex_link_tables)) ''t'' ''a'' = Some Team_admin"
proof -
  define r where "r = set_group_link ''h'' (Some ''t'') ex_link_tables"
  let ?g = "\<lparr>sg_display = ''H'', sg_external = None, sg_team = None\<rparr>"
  have g: "jsget (tb_groups ex_link_tables) ''h'' = Some ?g" by (simp add: ex_link_tables_def)
  have n: "sg_team ?g \<noteq> Some ''t''" by simp
  have "snd (snd r) = None" unfolding r_def
    by (simp add: set_group_link_def commit_changes_def link_group_def g)
      (simp add: ex_link_tables_def ex_tables_def ex_user_def set_group_team_def group_member_ids_def join_team_def
        insert_member_def insert_provisioned_def member_role_def count_provisioned_def record_audit_def)
  then have "r = (fst r, fst (snd r), None)" by (metis prod.collapse)
  then have d: "set_group_link ''h'' (Some ''t'') ex_link_tables = (fst r, fst (snd r), None)" by (simp add: r_def)
  have "active ''p'' ex_link_tables" by (simp add: active_def ex_link_tables_def ex_tables_def ex_user_def)
  then show ?thesis
    unfolding r_def [symmetric] linking_brings_in [OF ex_link_tables_ok g n d, THEN conjunct1]
    by (simp add: ex_link_rows ex_rows) (simp add: ex_link_tables_def)
qed

end
