(* ===== verification/Dynamic_Values.thy ===== *)
theory Dynamic_Values
  imports Text
begin

text \<open>
  The values a reference generates at send time (\<^verbatim>\<open>packages/core/src/project/dynamic.ts\<close>): how a reference is read
  as a call, and the memory that gives one send one value per call. What a generator draws is the argument
  \<open>gen\<close>, which answers the n-th call that is run (it stands for the random source and the clock); that it
  may refuse the call's arguments is part of its answer.
\<close>

section \<open>Names\<close>

definition GENERATORS :: "string list" where
  "GENERATORS = [
    ''guid'', ''timestamp'', ''isoTimestamp'', ''randomInt'', ''randomBoolean'', ''randomAlphaNumeric'',
     ''firstName'', ''lastName'', ''fullName'', ''userName'', ''email'', ''phone'', ''streetAddress'',
     ''city'', ''country'', ''countryCode'', ''company'', ''lorem'', ''datePast'', ''dateFuture'',
     ''dateRecent'', ''ip'', ''ipv6'', ''mac'', ''url'', ''domain'', ''color'', ''hexColor'', ''currencyCode'',
     ''price'', ''fileName'', ''mimeType'']"

text \<open>An alias names its generator and, for some, the arguments it implies.\<close>

definition ALIASES :: "(string, string \<times> string option) jsmap" where
  "ALIASES = [
    (''uuid'', ''guid'', None), (''randomUUID'', ''guid'', None), (''randomFirstName'', ''firstName'', None),
     (''randomLastName'', ''lastName'', None), (''randomFullName'', ''fullName'', None),
     (''randomUserName'', ''userName'', None), (''randomEmail'', ''email'', None),
     (''randomExampleEmail'', ''email'', None), (''randomPhoneNumber'', ''phone'', None),
     (''randomStreetAddress'', ''streetAddress'', None), (''randomCity'', ''city'', None),
     (''randomCountry'', ''country'', None), (''randomCountryCode'', ''countryCode'', None),
     (''randomCompanyName'', ''company'', None), (''randomWord'', ''lorem'', Some ''words=1''),
     (''randomWords'', ''lorem'', Some ''words=3''), (''randomLoremWord'', ''lorem'', Some ''words=1''),
     (''randomLoremWords'', ''lorem'', Some ''words=3''),
     (''randomLoremSentence'', ''lorem'', Some ''sentences=1''),
     (''randomLoremSentences'', ''lorem'', Some ''sentences=3''),
     (''randomLoremParagraph'', ''lorem'', Some ''paragraphs=1''),
     (''randomLoremParagraphs'', ''lorem'', Some ''paragraphs=3''), (''randomDatePast'', ''datePast'', None),
     (''randomDateFuture'', ''dateFuture'', None), (''randomDateRecent'', ''dateRecent'', None),
     (''randomIP'', ''ip'', None), (''randomIPV6'', ''ipv6'', None), (''randomMACAddress'', ''mac'', None),
     (''randomUrl'', ''url'', None), (''randomDomainName'', ''domain'', None),
     (''randomColor'', ''color'', None), (''randomHexColor'', ''hexColor'', None),
     (''randomCurrencyCode'', ''currencyCode'', None), (''randomPrice'', ''price'', None),
     (''randomFileName'', ''fileName'', None), (''randomMimeType'', ''mimeType'', None)]"

definition is_dynamic_name :: "string \<Rightarrow> bool" where
  "is_dynamic_name name \<longleftrightarrow> name \<in> set GENERATORS \<or> jshas ALIASES name"

section \<open>Reading a call\<close>

datatype refusal_code = Missing_dynamic | Bad_arguments

datatype dynamic_result = Generated string | Refused refusal_code

record call_args =
  ca_positional :: "string list"
  ca_named :: "(string, string) jsmap"

record call =
  cl_name :: string
  cl_args :: call_args
  cl_key :: string

definition is_letter :: "char \<Rightarrow> bool" where
  "is_letter c \<longleftrightarrow> (let n = of_char c :: nat in 65 \<le> n \<and> n \<le> 90 \<or> 97 \<le> n \<and> n \<le> 122)"

definition is_digit :: "char \<Rightarrow> bool" where
  "is_digit c \<longleftrightarrow> (let n = of_char c :: nat in 48 \<le> n \<and> n \<le> 57)"

definition is_alnum :: "char \<Rightarrow> bool" where
  "is_alnum c \<longleftrightarrow> is_letter c \<or> is_digit c"

text \<open>\<^verbatim>\<open>/^([A-Za-z]+)\s*=\s*(.*)$/s\<close> on a trimmed part, the value trimmed.\<close>

definition named_part :: "string \<Rightarrow> (string \<times> string) option" where
  "named_part part =
     (let name = takeWhile is_letter part; tail = dropWhile js_space (dropWhile is_letter part) in
      if name = [] then None
      else case tail of c # v \<Rightarrow> if c = CHR ''='' then Some (name, js_trim v) else None | [] \<Rightarrow> None)"

fun read_parts :: "string list \<Rightarrow> call_args \<Rightarrow> (refusal_code, call_args) result" where
  "read_parts [] a = Inr a"
| "read_parts (p # ps) a =
     (let part = js_trim p in
      case named_part part of
        Some (name, value_of) \<Rightarrow>
          if jshas (ca_named a) name then Inl Bad_arguments
          else read_parts ps (a\<lparr>ca_named := jsset (ca_named a) name value_of\<rparr>)
      | None \<Rightarrow> read_parts ps (a\<lparr>ca_positional := ca_positional a @ [part]\<rparr>))"

definition parse_args :: "string option \<Rightarrow> (refusal_code, call_args) result" where
  "parse_args t =
     (let none = \<lparr>ca_positional = [], ca_named = []\<rparr> in
      case t of
        None \<Rightarrow> Inr none
      | Some s \<Rightarrow> if js_trim s = [] then Inr none else read_parts (split_on (CHR '','') s) none)"

text \<open>\<^verbatim>\<open>/^([A-Za-z][A-Za-z0-9]*)(?:\((.*)\))?$/s\<close>: the name and the arguments as written.\<close>

definition match_call :: "string \<Rightarrow> (string \<times> string option) option" where
  "match_call t =
     (let name = takeWhile is_alnum t; tail = dropWhile is_alnum t in
      if name = [] \<or> \<not> is_letter (hd name) then None
      else if tail = [] then Some (name, None)
      else if length tail \<ge> 2 \<and> hd tail = CHR ''('' \<and> last tail = CHR '')'' then Some (name, Some (butlast (tl tail)))
      else None)"

definition parse_call :: "string \<Rightarrow> (refusal_code, call) result" where
  "parse_call expr =
     (let trimmed = js_trim expr in
      case match_call trimmed of
        None \<Rightarrow>
          (let name = takeWhile is_alnum trimmed in
           if name \<noteq> [] \<and> is_letter (hd name) \<and> is_dynamic_name name then Inl Bad_arguments else Inl Missing_dynamic)
      | Some (written, args_text) \<Rightarrow>
          (let alias = jsget ALIASES written;
               name = (case alias of Some (n, _) \<Rightarrow> n | None \<Rightarrow> written) in
           if name \<notin> set GENERATORS then Inl Missing_dynamic
           else bind_result
                  (parse_args (case args_text of Some s \<Rightarrow> Some s
                     | None \<Rightarrow> (case alias of Some (_, d) \<Rightarrow> d | None \<Rightarrow> None))) (\<lambda>args.
                let named = map (\<lambda>k. k @ ''='' @ the (jsget (ca_named args) k)) (sort (jskeys (ca_named args))) in
                Inr \<lparr>cl_name = name, cl_args = args,
                     cl_key = name @ ''('' @ join '','' (ca_positional args @ named) @ '')''\<rparr>)))"

section \<open>The values of one send\<close>

record dynamic_values =
  dv_values :: "(string, dynamic_result) jsmap"
  dv_runs :: nat

definition new_dynamic_values :: dynamic_values where
  "new_dynamic_values = \<lparr>dv_values = [], dv_runs = 0\<rparr>"

type_synonym generators = "nat \<Rightarrow> call \<Rightarrow> dynamic_result"

definition resolve_dynamic :: "generators \<Rightarrow> string \<Rightarrow> dynamic_values \<Rightarrow> dynamic_result \<times> dynamic_values" where
  "resolve_dynamic gen expr d =
     (case parse_call expr of
        Inl code \<Rightarrow> (Refused code, d)
      | Inr c \<Rightarrow>
          (case jsget (dv_values d) (cl_key c) of
             Some known \<Rightarrow> (known, d)
           | None \<Rightarrow>
               (let r = gen (dv_runs d) c in
                (r, d\<lparr>dv_values := jsset (dv_values d) (cl_key c) r, dv_runs := dv_runs d + 1\<rparr>))))"

text \<open>Once resolved, a call has its value for the rest of the send, and a resolve changes no other call's value.\<close>

lemma resolve_dynamic_remembers:
  assumes "resolve_dynamic gen expr d = (r, d')" "parse_call expr = Inr c"
  shows "jsget (dv_values d') (cl_key c) = Some r"
  using assms by (auto simp: resolve_dynamic_def Let_def jsget_jsset split: option.splits)

lemma resolve_dynamic_keeps:
  assumes "resolve_dynamic gen expr d = (r, d')" "jsget (dv_values d) k = Some v"
  shows "jsget (dv_values d') k = Some v"
  using assms by (auto simp: resolve_dynamic_def Let_def jsget_jsset split: option.splits sum.splits)

lemma resolve_dynamic_again:
  assumes "parse_call expr = Inr c" "jsget (dv_values d) (cl_key c) = Some r"
  shows "resolve_dynamic gen expr d = (r, d)"
  using assms by (simp add: resolve_dynamic_def)

end
