(* ===== verification/Expansion.thy ===== *)
theory Expansion
  imports Dynamic_Values
begin

text \<open>
  Property expansion (\<^verbatim>\<open>packages/core/src/project/properties.ts\<close>, with \<^verbatim>\<open>escape-expansions.ts\<close>, \<^verbatim>\<open>entitize.ts\<close>
  and \<^verbatim>\<open>secret-token.ts\<close>): the scanner of \<^verbatim>\<open>${...}\<close> references, the scopes they are looked up in, the
  recursive expansion, and the search for the secrets a text reaches. An object of the sources is the list of its own
  entries; a lookup by an explicit scope also finds what every object inherits, which is written out.
\<close>

section \<open>Scopes\<close>

datatype scope = Project | Env | Workspace | Global | System | Sequence | Data | Dynamic | Secret

fun show_scope :: "scope \<Rightarrow> string" where
  "show_scope Project = ''Project''"
| "show_scope Env = ''Env''"
| "show_scope Workspace = ''Workspace''"
| "show_scope Global = ''Global''"
| "show_scope System = ''System''"
| "show_scope Sequence = ''Sequence''"
| "show_scope Data = ''Data''"
| "show_scope Dynamic = ''Dynamic''"
| "show_scope Secret = ''Secret''"

text \<open>\<^verbatim>\<open>SCOPE_NAMES\<close>: what may stand between the two \<^verbatim>\<open>#\<close>.\<close>

definition named_scope :: "string \<Rightarrow> scope option" where
  "named_scope s = find (\<lambda>sc. show_scope sc = s) [Project, Env, Workspace, Global, System, Sequence, Data, Dynamic]"

type_synonym property_map = "(string, string) jsmap"

text \<open>\<open>ps_system\<close> is the environment of the process where the caller gives none.\<close>

record property_scopes =
  ps_project :: property_map
  ps_env :: "property_map option"
  ps_workspace :: "property_map option"
  ps_global :: property_map
  ps_system :: property_map
  ps_secrets :: "property_map option"
  ps_sequence :: "property_map option"
  ps_data :: "property_map option"

definition enabled_properties :: "property_map \<Rightarrow> string list \<Rightarrow> property_map" where
  "enabled_properties m disabled = (if disabled = [] then m else filter (\<lambda>(k, v). k \<notin> set disabled) m)"

text \<open>
  What a plain object answers for a name: its own value, or an inherited member, which is a function with the given
  number of parameters (\<^verbatim>\<open>__proto__\<close> is an object without a length, counted as 0).
\<close>

datatype looked_up = Own string | Inherited nat

definition OBJECT_PROTOTYPE :: "(string \<times> nat) list" where
  "OBJECT_PROTOTYPE = [(''constructor'', 1), (''__defineGetter__'', 2), (''__defineSetter__'', 2), (''hasOwnProperty'', 1),
     (''__lookupGetter__'', 1), (''__lookupSetter__'', 1), (''isPrototypeOf'', 1), (''propertyIsEnumerable'', 1),
     (''toString'', 0), (''valueOf'', 0), (''__proto__'', 0), (''toLocaleString'', 0)]"

definition member_of :: "property_map \<Rightarrow> string \<Rightarrow> looked_up option" where
  "member_of m name =
     (case jsget m name of Some v \<Rightarrow> Some (Own v) | None \<Rightarrow> map_option Inherited (map_of OBJECT_PROTOTYPE name))"

definition own_of :: "property_map option \<Rightarrow> string \<Rightarrow> looked_up option" where
  "own_of m name = (case m of None \<Rightarrow> None | Some x \<Rightarrow> map_option Own (jsget x name))"

definition may_be :: "property_map option \<Rightarrow> string \<Rightarrow> looked_up option" where
  "may_be m name = (case m of None \<Rightarrow> None | Some x \<Rightarrow> member_of x name)"

text \<open>\<^verbatim>\<open>SECRET_NAME_PATTERN\<close>.\<close>

definition is_secret_name :: "string \<Rightarrow> bool" where
  "is_secret_name name \<longleftrightarrow>
     (case name of [] \<Rightarrow> False
      | c # cs \<Rightarrow> (is_letter c \<or> c = CHR ''_'') \<and> list_all (\<lambda>x. is_alnum x \<or> x = CHR ''_'') cs)"

definition lookup_in_scope :: "scope \<Rightarrow> string \<Rightarrow> property_scopes \<Rightarrow> looked_up option" where
  "lookup_in_scope sc name s =
     (case sc of
        Project \<Rightarrow> member_of (ps_project s) name
      | Env \<Rightarrow> may_be (ps_env s) name
      | Workspace \<Rightarrow> may_be (ps_workspace s) name
      | Global \<Rightarrow> member_of (ps_global s) name
      | System \<Rightarrow> member_of (ps_system s) name
      | Sequence \<Rightarrow> own_of (ps_sequence s) name
      | Data \<Rightarrow> own_of (ps_data s) name
      | Secret \<Rightarrow> if is_secret_name name then may_be (ps_secrets s) name else None
      | Dynamic \<Rightarrow> None)"

definition lookup_shorthand :: "string \<Rightarrow> property_scopes \<Rightarrow> (scope \<times> string) option" where
  "lookup_shorthand name s =
     (case Option.bind (ps_env s) (\<lambda>m. jsget m name) of Some v \<Rightarrow> Some (Env, v)
      | None \<Rightarrow> (case jsget (ps_project s) name of Some v \<Rightarrow> Some (Project, v)
      | None \<Rightarrow> (case Option.bind (ps_workspace s) (\<lambda>m. jsget m name) of Some v \<Rightarrow> Some (Workspace, v)
      | None \<Rightarrow> (case jsget (ps_global s) name of Some v \<Rightarrow> Some (Global, v) | None \<Rightarrow> None))))"

section \<open>Scanning\<close>

datatype token = Literal string | Expr string string nat nat | Malformed string nat nat

text \<open>Characters up to and with the brace that closes a reference \<open>d\<close> levels deep.\<close>

fun close_at :: "nat \<Rightarrow> string \<Rightarrow> nat option" where
  "close_at d [] = None"
| "close_at d [c] = (if c = CHR ''}'' \<and> d = 1 then Some 1 else None)"
| "close_at d (c # c' # cs) =
     (if c = CHR ''$'' \<and> c' = CHR ''{'' then map_option (\<lambda>n. n + 2) (close_at (d + 1) cs)
      else if c = CHR ''}'' then (if d = 1 then Some 1 else map_option Suc (close_at (d - 1) (c' # cs)))
      else map_option Suc (close_at d (c' # cs)))"

definition flush :: "string \<Rightarrow> token list" where
  "flush literal = (if literal = [] then [] else [Literal literal])"

text \<open>\<open>i\<close> is where the text that is left stands in the whole.\<close>

function scan :: "nat \<Rightarrow> string \<Rightarrow> string \<Rightarrow> token list" where
  "scan i literal cs =
     (if cs = [] then flush literal
      else if starts_with cs ''$${'' then scan (i + 3) (literal @ ''${'') (drop 3 cs)
      else if starts_with cs ''${'' then
        flush literal @
        (case close_at 1 (drop 2 cs) of
           Some n \<Rightarrow> Expr (take (n + 2) cs) (take (n - 1) (drop 2 cs)) i (i + n + 2) # scan (i + n + 2) [] (drop (n + 2) cs)
         | None \<Rightarrow> [Malformed cs i (i + length cs)])
      else scan (i + 1) (literal @ [hd cs]) (tl cs))"
  by pat_completeness auto
termination
  by (relation "measure (\<lambda>(i, l, cs). length cs)") auto

declare scan.simps [simp del]

definition tokenize :: "string \<Rightarrow> token list" where
  "tokenize t = scan 0 [] t"

text \<open>The inside of a reference, at its second \<^verbatim>\<open>#\<close>.\<close>

definition hashed :: "string \<Rightarrow> (string \<times> string) option" where
  "hashed inner =
     (case inner of
        [] \<Rightarrow> None
      | c # rest \<Rightarrow>
          if c = CHR ''#'' \<and> CHR ''#'' \<in> set rest
          then Some (takeWhile (\<lambda>x. x \<noteq> CHR ''#'') rest, tl (dropWhile (\<lambda>x. x \<noteq> CHR ''#'') rest)) else None)"

definition parse_expr :: "string \<Rightarrow> scope option \<times> string" where
  "parse_expr inner =
     (case Option.bind (hashed inner) (\<lambda>(sc, name). map_option (\<lambda>s. (s, name)) (named_scope sc)) of
        Some (s, name) \<Rightarrow> (Some s, name)
      | None \<Rightarrow>
          if length inner > 1 \<and> hd inner = CHR ''$'' then (Some Dynamic, tl inner)
          else if starts_with inner ''secret:'' then (Some Secret, drop 7 inner)
          else (None, inner))"

fun escape_expansions :: "string \<Rightarrow> string" where
  "escape_expansions [] = []"
| "escape_expansions [c] = [c]"
| "escape_expansions (c # c' # cs) =
     (if c = CHR ''$'' \<and> c' = CHR ''{'' then ''$${'' @ escape_expansions cs else c # escape_expansions (c' # cs))"

function unescape_expansions :: "string \<Rightarrow> string" where
  "unescape_expansions cs =
     (if cs = [] then []
      else if starts_with cs ''$${'' then ''${'' @ unescape_expansions (drop 3 cs)
      else hd cs # unescape_expansions (tl cs))"
  by pat_completeness auto
termination
  by (relation "measure length") auto

declare unescape_expansions.simps [simp del]

function has_expansions :: "string \<Rightarrow> bool" where
  "has_expansions cs =
     (if cs = [] then False
      else if starts_with cs ''$${'' then has_expansions (drop 3 cs)
      else if starts_with cs ''${'' then True
      else has_expansions (tl cs))"
  by pat_completeness auto
termination
  by (relation "measure length") auto

declare has_expansions.simps [simp del]

section \<open>Expanding\<close>

definition replace_char :: "char \<Rightarrow> string \<Rightarrow> string \<Rightarrow> string" where
  "replace_char c r s = concat (map (\<lambda>x. if x = c then r else [x]) s)"

definition entitize_value :: "string \<Rightarrow> string" where
  "entitize_value v = replace_char (CHR ''>'') ''&gt;'' (replace_char (CHR ''<'') ''&lt;'' (replace_char (CHR ''&'') ''&amp;'' v))"

datatype ref_code = Missing | Unknown_scope | Cycle | Too_deep | Malformed_ref | Name_from_response | Bad_args

record unresolved_ref =
  ur_expr :: string
  ur_scope :: "string option"
  ur_name :: "string option"
  ur_code :: ref_code
  ur_start :: nat
  ur_end :: nat
  ur_via :: "string list"

text \<open>\<open>ec_reads\<close> is what \<^verbatim>\<open>onSystemRead\<close> was told.\<close>

record expand_ctx =
  ec_unresolved :: "unresolved_ref list"
  ec_used :: "(scope \<times> string) list"
  ec_reads :: "(string \<times> string) list"
  ec_dynamic :: dynamic_values

text \<open>An expansion throws when it is handed a value that is not a string.\<close>

datatype expand_error = Type_error

type_synonym expansion = "(expand_error, string \<times> expand_ctx) result"

type_synonym expander = "string \<Rightarrow> string list \<Rightarrow> (nat \<times> nat) option \<Rightarrow> string list \<Rightarrow> expand_ctx \<Rightarrow> expansion"

definition push_unresolved ::
    "(nat \<times> nat) option \<Rightarrow> string list \<Rightarrow> string \<Rightarrow> string option \<Rightarrow> string option \<Rightarrow> ref_code \<Rightarrow> nat \<Rightarrow> nat \<Rightarrow>
     expand_ctx \<Rightarrow> expand_ctx" where
  "push_unresolved outer via raw sc name code i j ctx =
     (let span = (case outer of Some o1 \<Rightarrow> o1 | None \<Rightarrow> (i, j)) in
      ctx\<lparr>ec_unresolved := ec_unresolved ctx @
        [\<lparr>ur_expr = raw, ur_scope = sc, ur_name = name, ur_code = code,
          ur_start = fst span, ur_end = snd span, ur_via = via\<rparr>]\<rparr>)"

definition substituted :: "bool \<Rightarrow> (nat \<times> nat) option \<Rightarrow> string \<Rightarrow> scope option \<Rightarrow> string" where
  "substituted entitize outer v sc = (if entitize \<and> outer = None \<and> sc \<noteq> Some Secret then entitize_value v else v)"

definition property_key :: "scope \<Rightarrow> string \<Rightarrow> string" where
  "property_key sc name = show_scope sc @ ''#'' @ name"

definition use :: "scope \<Rightarrow> string \<Rightarrow> expand_ctx \<Rightarrow> expand_ctx" where
  "use sc name ctx = ctx\<lparr>ec_used := ec_used ctx @ [(sc, name)]\<rparr>"

text \<open>The value of a property: expanded when it is a string; the loop of the scanner over anything else.\<close>

definition expand_member :: "expander \<Rightarrow> looked_up \<Rightarrow> string list \<Rightarrow> (nat \<times> nat) option \<Rightarrow> string list \<Rightarrow> expand_ctx \<Rightarrow> expansion" where
  "expand_member rec m stack outer via ctx =
     (case m of Own v \<Rightarrow> rec v stack outer via ctx
      | Inherited n \<Rightarrow> if n = 0 then Inr ([], ctx) else Inl Type_error)"

text \<open>A reference whose own text has been expanded to \<open>resolved\<close>; \<open>refuse\<close> leaves it as written.\<close>

definition refer ::
    "generators \<Rightarrow> property_scopes \<Rightarrow> bool \<Rightarrow> expander \<Rightarrow> string list \<Rightarrow> (nat \<times> nat) option \<Rightarrow> string list \<Rightarrow>
     string \<Rightarrow> nat \<Rightarrow> nat \<Rightarrow> string \<Rightarrow> expand_ctx \<Rightarrow> expansion" where
  "refer gen scopes entitize rec stack outer via raw i j resolved ctx =
     (let refuse = (\<lambda>sc name code c. Inr (raw, push_unresolved outer via raw sc name code i j c));
          inner_span = (case outer of Some o1 \<Rightarrow> Some o1 | None \<Rightarrow> Some (i, j)) in
      case parse_expr resolved of
        (Some sc, name) \<Rightarrow>
          if sc = Dynamic then
            (case resolve_dynamic gen name (ec_dynamic ctx) of
               (Refused code, d) \<Rightarrow>
                 refuse (Some (show_scope Dynamic)) (Some name)
                   (case code of Missing_dynamic \<Rightarrow> Missing | Bad_arguments \<Rightarrow> Bad_args) (ctx\<lparr>ec_dynamic := d\<rparr>)
             | (Generated v, d) \<Rightarrow> Inr (substituted entitize outer v (Some sc), use sc name (ctx\<lparr>ec_dynamic := d\<rparr>)))
          else if property_key sc name \<in> set stack then refuse (Some (show_scope sc)) (Some name) Cycle ctx
          else
            (case lookup_in_scope sc name scopes of
               None \<Rightarrow> refuse (Some (show_scope sc)) (Some name) Missing ctx
             | Some m \<Rightarrow>
                 if sc = Sequence \<or> sc = Data then
                   (case m of Own v \<Rightarrow> Inr (substituted entitize outer v (Some sc), use sc name ctx)
                    | Inherited n \<Rightarrow> Inl Type_error)
                 else
                   bind_result (expand_member rec m (stack @ [property_key sc name]) inner_span
                                  (via @ [property_key sc name]) (use sc name ctx)) (\<lambda>(v, c).
                   Inr (substituted entitize outer v (Some sc),
                        if sc = System then c\<lparr>ec_reads := ec_reads c @ [(name, v)]\<rparr> else c)))
      | (None, name) \<Rightarrow>
          (case hashed resolved of
             Some (attempted_scope, attempted_name) \<Rightarrow> refuse (Some attempted_scope) (Some attempted_name) Unknown_scope ctx
           | None \<Rightarrow>
               (case lookup_shorthand name scopes of
                  None \<Rightarrow> refuse None (Some name) Missing ctx
                | Some (sc, v) \<Rightarrow>
                    if property_key sc name \<in> set stack then refuse (Some (show_scope sc)) (Some name) Cycle ctx
                    else
                      bind_result (rec v (stack @ [property_key sc name]) inner_span (via @ [property_key sc name])
                                     (use sc name ctx)) (\<lambda>(t, c). Inr (substituted entitize outer t None, c)))))"

definition from_response :: "expand_ctx \<Rightarrow> expand_ctx \<Rightarrow> bool" where
  "from_response before after \<longleftrightarrow> list_ex (\<lambda>(sc, name). sc = Sequence) (drop (length (ec_used before)) (ec_used after))"

definition expand_token ::
    "generators \<Rightarrow> property_scopes \<Rightarrow> bool \<Rightarrow> expander option \<Rightarrow> string list \<Rightarrow> (nat \<times> nat) option \<Rightarrow> string list \<Rightarrow>
     token \<Rightarrow> expand_ctx \<Rightarrow> expansion" where
  "expand_token gen scopes entitize deeper stack outer via tok ctx =
     (case tok of
        Literal t \<Rightarrow> Inr (t, ctx)
      | Malformed raw i j \<Rightarrow> Inr (raw, push_unresolved outer via raw None None Malformed_ref i j ctx)
      | Expr raw inner i j \<Rightarrow>
          (case deeper of
             None \<Rightarrow> Inr (raw, push_unresolved outer via raw None None Too_deep i j ctx)
           | Some rec \<Rightarrow>
               bind_result (rec inner stack (case outer of Some o1 \<Rightarrow> Some o1 | None \<Rightarrow> Some (i, j)) via ctx) (\<lambda>(resolved, c).
               if from_response ctx c then Inr (raw, push_unresolved outer via raw None None Name_from_response i j c)
               else refer gen scopes entitize rec stack outer via raw i j resolved c)))"

fun each_token :: "(token \<Rightarrow> expand_ctx \<Rightarrow> expansion) \<Rightarrow> token list \<Rightarrow> expand_ctx \<Rightarrow> expansion" where
  "each_token f [] ctx = Inr ([], ctx)"
| "each_token f (t # ts) ctx =
     bind_result (f t ctx) (\<lambda>(s, c). bind_result (each_token f ts c) (\<lambda>(s', c'). Inr (s @ s', c')))"

text \<open>\<open>n\<close> is how many levels are left below \<^verbatim>\<open>maxDepth\<close>.\<close>

primrec expand_at :: "generators \<Rightarrow> property_scopes \<Rightarrow> bool \<Rightarrow> nat \<Rightarrow> expander" where
  "expand_at gen scopes entitize 0 = (\<lambda>t stack outer via.
     each_token (expand_token gen scopes entitize None stack outer via) (tokenize t))"
| "expand_at gen scopes entitize (Suc n) = (\<lambda>t stack outer via.
     each_token (expand_token gen scopes entitize (Some (expand_at gen scopes entitize n)) stack outer via) (tokenize t))"

definition DEFAULT_MAX_DEPTH :: nat where
  "DEFAULT_MAX_DEPTH = 8"

record expand_options =
  eo_max_depth :: "nat option"
  eo_entitize :: "bool option"

record expand_result =
  er_text :: string
  er_unresolved :: "unresolved_ref list"
  er_used :: "(scope \<times> string) list"

fun first_uses :: "string list \<Rightarrow> (scope \<times> string) list \<Rightarrow> (scope \<times> string) list" where
  "first_uses seen [] = []"
| "first_uses seen ((sc, name) # us) =
     (if property_key sc name \<in> set seen then first_uses seen us
      else (sc, name) # first_uses (property_key sc name # seen) us)"

text \<open>\<open>d\<close> is the memo of the send, \<^verbatim>\<open>scopes.dynamic\<close>, or a new one; the context is what the call leaves behind.\<close>

definition expand ::
    "generators \<Rightarrow> property_scopes \<Rightarrow> expand_options \<Rightarrow> dynamic_values option \<Rightarrow> string \<Rightarrow>
     (expand_error, expand_result \<times> expand_ctx) result" where
  "expand gen scopes opts d t =
     bind_result
       (expand_at gen scopes (case eo_entitize opts of Some e \<Rightarrow> e | None \<Rightarrow> False)
          (case eo_max_depth opts of Some n \<Rightarrow> n | None \<Rightarrow> DEFAULT_MAX_DEPTH) t [] None []
          \<lparr>ec_unresolved = [], ec_used = [], ec_reads = [],
           ec_dynamic = (case d of Some x \<Rightarrow> x | None \<Rightarrow> new_dynamic_values)\<rparr>) (\<lambda>(out, ctx).
     Inr (\<lparr>er_text = out, er_unresolved = ec_unresolved ctx, er_used = first_uses [] (ec_used ctx)\<rparr>, ctx))"

section \<open>The secrets a text reaches\<close>

type_synonym visit = "string \<Rightarrow> string list \<Rightarrow> string list \<Rightarrow> (expand_error, string list) result"

text \<open>One reference of the text: what it adds to \<open>found\<close>, itself or through the property it names.\<close>

definition visit_token :: "property_scopes option \<Rightarrow> visit \<Rightarrow> (string list \<Rightarrow> string list \<Rightarrow> (expand_error, string list) result) \<Rightarrow>
    string list \<Rightarrow> token \<Rightarrow> string list \<Rightarrow> (expand_error, string list) result" where
  "visit_token scopes rec other stack tok found =
     (case tok of
        Expr raw inner i j \<Rightarrow>
          (case parse_expr inner of
             (Some sc, name) \<Rightarrow>
               if sc = Secret then Inr (if is_secret_name name then jsadd found name else found)
               else
                 (case scopes of
                    None \<Rightarrow> Inr found
                  | Some s \<Rightarrow>
                      if sc = Sequence \<or> sc = Data \<or> property_key sc name \<in> set stack then Inr found
                      else (case lookup_in_scope sc name s of
                          None \<Rightarrow> Inr found
                        | Some (Own v) \<Rightarrow> rec v (stack @ [property_key sc name]) found
                        | Some (Inherited n) \<Rightarrow> if n = 0 then Inr found else other stack found))
           | (None, name) \<Rightarrow>
               (case scopes of
                  None \<Rightarrow> Inr found
                | Some s \<Rightarrow>
                    (case lookup_shorthand name s of
                       None \<Rightarrow> Inr found
                     | Some (sc, v) \<Rightarrow>
                         if property_key sc name \<in> set stack then Inr found
                         else rec v (stack @ [property_key sc name]) found)))
      | _ \<Rightarrow> Inr found)"

fun visit_each :: "(token \<Rightarrow> string list \<Rightarrow> (expand_error, string list) result) \<Rightarrow> token list \<Rightarrow> string list \<Rightarrow>
    (expand_error, string list) result" where
  "visit_each f [] found = Inr found"
| "visit_each f (t # ts) found = bind_result (f t found) (visit_each f ts)"

text \<open>
  \<open>k\<close> is how many levels may still be visited; below the last one a visit returns at once, also for a value that is not
  a string, which throws on any other level.
\<close>

primrec visit_secrets :: "property_scopes option \<Rightarrow> nat \<Rightarrow> visit" where
  "visit_secrets scopes 0 = (\<lambda>t stack found. Inr found)"
| "visit_secrets scopes (Suc k) = (\<lambda>t stack found.
     visit_each (visit_token scopes (visit_secrets scopes k)
       (\<lambda>stack found. if k = 0 then Inr found else Inl Type_error) stack) (tokenize t) found)"

definition secret_names_in :: "string \<Rightarrow> property_scopes option \<Rightarrow> (expand_error, string list) result" where
  "secret_names_in t scopes = visit_secrets scopes (DEFAULT_MAX_DEPTH + 1) t [] []"

section \<open>Text that holds no reference\<close>

lemma starts_with_simps [simp]:
  "starts_with s []" "\<not> starts_with [] (c # p)" "starts_with (x # s) (c # p) \<longleftrightarrow> x = c \<and> starts_with s p"
  by (auto simp: starts_with_def)

lemma scan_Nil [simp]: "scan i l [] = flush l"
  by (simp add: scan.simps)

text \<open>What escaped text begins with: never the opening of a reference.\<close>

lemma escape_head: "\<exists>r. escape_expansions (c # cs) = c # r \<and> (c = CHR ''$'' \<longrightarrow> r = [] \<or> hd r \<noteq> CHR ''{'')"
proof (cases cs)
  case (Cons c' cs')
  have "\<exists>r. escape_expansions (c' # cs') = c' # r"
    by (cases cs') simp_all
  then show ?thesis using Cons by auto
qed simp

lemma scan_escaped: "scan i l (escape_expansions s) = flush (l @ s)"
proof (induction s arbitrary: i l rule: escape_expansions.induct)
  case (2 c)
  then show ?case by (simp add: scan.simps)
next
  case (3 c c' cs)
  show ?case
  proof (cases "c = CHR ''$'' \<and> c' = CHR ''{''")
    case True
    then show ?thesis using "3.IH"(1) [of "i + 3" "l @ ''${''"] by (simp add: scan.simps)
  next
    case False
    obtain r where r: "escape_expansions (c' # cs) = c' # r" "c' = CHR ''$'' \<longrightarrow> r = [] \<or> hd r \<noteq> CHR ''{''"
      using escape_head by blast
    have "\<not> starts_with (c # c' # r) ''${''" "\<not> starts_with (c # c' # r) ''$${''"
      using False r(2) by (cases r; auto)+
    then have "scan i l (c # c' # r) = scan (i + 1) (l @ [c]) (c' # r)" by (subst scan.simps) auto
    then show ?thesis using "3.IH"(2) [OF False, of "i + 1" "l @ [c]"] False r(1) by auto
  qed
qed simp

lemma each_token_flush: "each_token (expand_token gen sc en deeper stack outer via) (flush l) ctx = Inr (l, ctx)"
  by (simp add: flush_def expand_token_def)

lemma expand_at_flush:
  "tokenize t = flush l \<Longrightarrow> expand_at gen sc en n t stack outer via ctx = Inr (l, ctx)"
  by (cases n) (simp_all add: each_token_flush)

lemma expand_flush:
  "tokenize t = flush l \<Longrightarrow> map_sum id fst (expand gen sc opts d t) = Inr \<lparr>er_text = l, er_unresolved = [], er_used = []\<rparr>"
  by (simp add: expand_def expand_at_flush)

text \<open>C25: Escaped text reaches the wire as it was written: whatever the scopes, the options and the text, expanding
  the escaped text gives the text back, resolves nothing, uses no property and leaves nothing unresolved.\<close>

theorem escaped_text_is_verbatim:
  "map_sum id fst (expand gen scopes opts d (escape_expansions t)) = Inr \<lparr>er_text = t, er_unresolved = [], er_used = []\<rparr>"
  by (rule expand_flush) (simp add: tokenize_def scan_escaped)

lemma scan_plain: "\<not> has_expansions s \<Longrightarrow> scan i l s = flush (l @ unescape_expansions s)"
proof (induction s arbitrary: i l rule: has_expansions.induct)
  case (1 cs)
  show ?case
  proof (cases "cs = []")
    case True
    then show ?thesis by (simp add: unescape_expansions.simps)
  next
    case ne: False
    show ?thesis
    proof (cases "starts_with cs ''$${''")
      case True
      then show ?thesis using "1.IH"(1) [OF ne True, of "i + 3" "l @ ''${''"] "1.prems" ne
        by (simp add: scan.simps [of i l cs] unescape_expansions.simps [of cs] has_expansions.simps [of cs])
    next
      case no: False
      then have open1: "\<not> starts_with cs ''${''" using "1.prems" ne by (simp add: has_expansions.simps [of cs] split: if_splits)
      then show ?thesis using "1.IH"(2) [OF ne no open1, of "i + 1" "l @ [hd cs]"] "1.prems" ne no
        by (simp add: scan.simps [of i l cs] unescape_expansions.simps [of cs] has_expansions.simps [of cs])
    qed
  qed
qed

lemma scan_reference: "has_expansions s \<Longrightarrow> \<exists>tok \<in> set (scan i l s). \<forall>t. tok \<noteq> Literal t"
proof (induction s arbitrary: i l rule: has_expansions.induct)
  case (1 cs)
  have ne: "cs \<noteq> []" using "1.prems" by (auto simp: has_expansions.simps)
  show ?case
  proof (cases "starts_with cs ''$${''")
    case True
    then show ?thesis using "1.IH"(1) [OF ne True] "1.prems" ne by (simp add: scan.simps [of i l cs] has_expansions.simps [of cs])
  next
    case no: False
    show ?thesis
    proof (cases "starts_with cs ''${''")
      case True
      then show ?thesis using ne no by (auto simp: scan.simps [of i l cs] split: option.split)
    next
      case False
      then show ?thesis using "1.IH"(2) [OF ne no False] "1.prems" ne no
        by (simp add: scan.simps [of i l cs] has_expansions.simps [of cs])
    qed
  qed
qed

text \<open>The quick check agrees with the expansion: a text it says holds no reference is expanded to the text
  with its escapes undone and nothing else, and a text it says holds one has a token that is not literal.\<close>

theorem has_expansions_exact:
  "(\<not> has_expansions t \<longrightarrow>
      map_sum id fst (expand gen scopes opts d t) = Inr \<lparr>er_text = unescape_expansions t, er_unresolved = [], er_used = []\<rparr>)
   \<and> (has_expansions t \<longleftrightarrow> (\<exists>tok \<in> set (tokenize t). \<forall>l. tok \<noteq> Literal l))"
proof (intro conjI impI)
  assume n: "\<not> has_expansions t"
  then show "map_sum id fst (expand gen scopes opts d t) = Inr \<lparr>er_text = unescape_expansions t, er_unresolved = [], er_used = []\<rparr>"
    using scan_plain [OF n, of 0 "[]"] by (intro expand_flush) (simp add: tokenize_def)
next
  show "has_expansions t \<longleftrightarrow> (\<exists>tok \<in> set (tokenize t). \<forall>l. tok \<noteq> Literal l)"
  proof (cases "has_expansions t")
    case True
    then show ?thesis using scan_reference [of t 0 "[]"] by (simp add: tokenize_def)
  next
    case False
    then show ?thesis using scan_plain [of t 0 "[]"] by (simp add: tokenize_def flush_def)
  qed
qed

lemma has_expansions_exact_witness:
  "map_sum id fst (expand (\<lambda>n c. Refused Missing_dynamic)
     \<lparr>ps_project = [], ps_env = None, ps_workspace = None, ps_global = [], ps_system = [], ps_secrets = None,
      ps_sequence = None, ps_data = None\<rparr> \<lparr>eo_max_depth = None, eo_entitize = None\<rparr> None ''a$${b'')
   = Inr \<lparr>er_text = ''a${b'', er_unresolved = [], er_used = []\<rparr>"
proof -
  have "\<not> has_expansions ''a$${b''" "unescape_expansions ''a$${b'' = ''a${b''"
    by (simp_all add: has_expansions.simps unescape_expansions.simps)
  then show ?thesis using has_expansions_exact [of "''a$${b''"] by metis
qed

section \<open>A response's values choose nothing\<close>

text \<open>Two contexts that tell the same story: the same references used and refused, the same System names told.\<close>

definition agree :: "expand_ctx \<Rightarrow> expand_ctx \<Rightarrow> bool" where
  "agree c c' \<longleftrightarrow> ec_unresolved c' = ec_unresolved c \<and> ec_used c' = ec_used c \<and> ec_dynamic c' = ec_dynamic c \<and>
     map fst (ec_reads c') = map fst (ec_reads c)"

definition uses_sequence :: "(scope \<times> string) list \<Rightarrow> bool" where
  "uses_sequence us \<longleftrightarrow> list_ex (\<lambda>(sc, name). sc = Sequence) us"

text \<open>Two runs from the context \<open>c\<close> that agree, with the same text unless a Sequence value went into it.\<close>

definition alike :: "expand_ctx \<Rightarrow> expansion \<Rightarrow> expansion \<Rightarrow> bool" where
  "alike c r r' \<longleftrightarrow>
     (case r of
        Inl e \<Rightarrow> r' = Inl e
      | Inr (s, x) \<Rightarrow> (\<exists>s' x' us. r' = Inr (s', x') \<and> agree x x' \<and> ec_used x = ec_used c @ us \<and>
          (\<not> uses_sequence us \<longrightarrow> s' = s)))"

lemma agree_refl [simp]: "agree c c"
  by (simp add: agree_def)

lemma agree_push [simp]: "agree c c' \<Longrightarrow> agree (push_unresolved o1 via raw sc name code i j c) (push_unresolved o1 via raw sc name code i j c')"
  by (simp add: agree_def push_unresolved_def Let_def)

lemma agree_use [simp]: "agree c c' \<Longrightarrow> agree (use sc name c) (use sc name c')"
  by (simp add: agree_def use_def)

lemma used_push [simp]: "ec_used (push_unresolved o1 via raw sc name code i j c) = ec_used c"
  by (simp add: push_unresolved_def Let_def)

lemma used_use [simp]: "ec_used (use sc name c) = ec_used c @ [(sc, name)]"
  by (simp add: use_def)

lemma alike_refuse: "agree c c' \<Longrightarrow>
  alike c (Inr (raw, push_unresolved o1 via raw sc name code i j c)) (Inr (raw, push_unresolved o1 via raw sc name code i j c'))"
  by (simp add: alike_def)

definition expanders_alike :: "expander \<Rightarrow> expander \<Rightarrow> bool" where
  "expanders_alike f g \<longleftrightarrow> (\<forall>t stack outer via c c'. agree c c' \<longrightarrow> alike c (f t stack outer via c) (g t stack outer via c'))"

text \<open>A property's value, expanded after its use was recorded.\<close>


lemma alike_value:
  assumes "alike (use sc name c) r r'" "sc \<noteq> Sequence"
  shows "alike c (bind_result r (\<lambda>(v, x). Inr (substituted en o1 v q, if tell then x\<lparr>ec_reads := ec_reads x @ [(name, v)]\<rparr> else x)))
      (bind_result r' (\<lambda>(v, x). Inr (substituted en o1 v q, if tell then x\<lparr>ec_reads := ec_reads x @ [(name, v)]\<rparr> else x)))"
proof (cases r)
  case (Inl e)
  then show ?thesis using assms(1) by (simp add: alike_def)
next
  case (Inr p)
  obtain s x where p: "p = (s, x)" by (cases p)
  obtain s' x' us where r': "r' = Inr (s', x')" and a: "agree x x'" and u: "ec_used x = ec_used c @ (sc, name) # us"
      and t: "\<not> uses_sequence us \<longrightarrow> s' = s"
    using assms(1) Inr p by (auto simp: alike_def)
  have "\<not> uses_sequence ((sc, name) # us) \<longrightarrow> s' = s" using t assms(2) by (simp add: uses_sequence_def)
  then show ?thesis using a u by (auto simp: alike_def Inr p r' agree_def)
qed

text \<open>The scopes differ in the values of the Sequence scope only.\<close>

definition same_names :: "property_map \<Rightarrow> property_map \<Rightarrow> bool" where
  "same_names p q \<longleftrightarrow> set (jskeys p) = set (jskeys q)"

lemma same_names_get: "same_names p q \<Longrightarrow> jsget p name = None \<longleftrightarrow> jsget q name = None"
  by (auto simp: same_names_def map_of_eq_None_iff)

lemma refer_alike:
  assumes "expanders_alike f g" "agree c c'" "same_names p q"
  shows "alike c (refer gen (s\<lparr>ps_sequence := Some p\<rparr>) en f stack o1 via raw i j resolved c)
      (refer gen (s\<lparr>ps_sequence := Some q\<rparr>) en g stack o1 via raw i j resolved c')"
proof -
  obtain osc name where pe: "parse_expr resolved = (osc, name)" by (cases "parse_expr resolved")
  have fg: "alike d (f t st ou vi d) (g t st ou vi d')" if "agree d d'" for t st ou vi d d'
    using assms(1) that by (simp add: expanders_alike_def)
  show ?thesis
  proof (cases osc)
    case None
    have l: "lookup_shorthand name (s\<lparr>ps_sequence := Some p\<rparr>) = lookup_shorthand name (s\<lparr>ps_sequence := Some q\<rparr>)"
      by (simp add: lookup_shorthand_def cong: option.case_cong)
    show ?thesis
    proof (cases "hashed resolved = None")
      case False
      then show ?thesis using assms(2) by (auto simp: refer_def Let_def pe None alike_refuse)
    next
      case plain: True
      show ?thesis
      proof (cases "lookup_shorthand name (s\<lparr>ps_sequence := Some q\<rparr>)")
        case None
        then show ?thesis using assms(2) plain \<open>osc = None\<close> l by (simp add: refer_def Let_def pe alike_refuse)
      next
        case (Some r)
        obtain sc v where r: "r = (sc, v)" by (cases r)
        have ns: "sc \<noteq> Sequence" using Some r by (auto simp: lookup_shorthand_def split: option.splits)
        show ?thesis
        proof (cases "property_key sc name \<in> set stack")
          case True
          then show ?thesis using assms(2) plain \<open>osc = None\<close> l Some r by (simp add: refer_def Let_def pe alike_refuse)
        next
          case False
          then show ?thesis
            using alike_value [OF fg [OF agree_use [OF assms(2)]] ns, where tell = False] plain \<open>osc = None\<close> l Some r
            by (simp add: refer_def Let_def pe)
        qed
      qed
    qed
  next
    case (Some sc)
    consider (dynamic) "sc = Dynamic" | (cycle) "sc \<noteq> Dynamic" "property_key sc name \<in> set stack"
      | (response) "sc = Sequence" "property_key sc name \<notin> set stack"
      | (other) "sc \<noteq> Dynamic" "sc \<noteq> Sequence" "property_key sc name \<notin> set stack" by blast
    then show ?thesis
    proof cases
      case dynamic
      have "ec_dynamic c' = ec_dynamic c" using assms(2) by (simp add: agree_def)
      then show ?thesis using assms(2)
        by (auto simp: refer_def Let_def pe Some dynamic alike_def agree_def push_unresolved_def use_def
            split: prod.splits dynamic_result.splits)
    next
      case cycle
      then show ?thesis using assms(2) by (simp add: refer_def Let_def pe Some alike_refuse)
    next
      case response
      show ?thesis
      proof (cases "jsget p name")
        case None
        then show ?thesis using assms(2) response same_names_get [OF assms(3), of name]
          by (simp add: refer_def Let_def pe Some lookup_in_scope_def own_of_def alike_refuse)
      next
        case (Some v)
        then obtain v' where "jsget q name = Some v'" using same_names_get [OF assms(3), of name] by auto
        then show ?thesis using assms(2) response Some \<open>osc = Some sc\<close>
          by (simp add: refer_def Let_def pe lookup_in_scope_def own_of_def alike_def uses_sequence_def)
      qed
    next
      case other
      have l: "lookup_in_scope sc name (s\<lparr>ps_sequence := Some p\<rparr>) = lookup_in_scope sc name (s\<lparr>ps_sequence := Some q\<rparr>)"
        using other by (simp add: lookup_in_scope_def split: scope.split)
      show ?thesis
      proof (cases "lookup_in_scope sc name (s\<lparr>ps_sequence := Some q\<rparr>)")
        case None
        then show ?thesis using assms(2) other l by (simp add: refer_def Let_def pe Some alike_refuse)
      next
        case m: (Some m)
        show ?thesis
        proof (cases "sc = Data")
          case True
          then show ?thesis using assms(2) other l m
            by (auto simp: refer_def Let_def pe Some alike_def split: looked_up.split)
        next
          case False
          have "alike (use sc name c) (expand_member f m (stack @ [property_key sc name]) ou vi (use sc name c))
              (expand_member g m (stack @ [property_key sc name]) ou vi (use sc name c'))" for ou vi
            using fg [OF agree_use [OF assms(2)]] agree_use [OF assms(2)]
            by (simp add: expand_member_def alike_def split: looked_up.split)
          from alike_value [OF this other(2), where tell = "sc = System"] show ?thesis
            using other l m False by (simp add: refer_def Let_def pe Some)
        qed
      qed
    qed
  qed
qed

lemma alike_from: "alike c r r' \<Longrightarrow> ec_used c = ec_used d @ vs \<Longrightarrow> \<not> uses_sequence vs \<Longrightarrow> alike d r r'"
  by (auto simp: alike_def uses_sequence_def split: sum.splits)

lemma token_alike:
  assumes "rel_option expanders_alike f g" "agree c c'" "same_names p q"
  shows "alike c (expand_token gen (s\<lparr>ps_sequence := Some p\<rparr>) en f stack o1 via tok c)
      (expand_token gen (s\<lparr>ps_sequence := Some q\<rparr>) en g stack o1 via tok c')"
proof (cases tok)
  case (Literal t)
  then show ?thesis using assms(2) by (simp add: expand_token_def alike_def)
next
  case (Malformed raw i j)
  then show ?thesis using assms(2) by (simp add: expand_token_def alike_refuse)
next
  case (Expr raw inner i j)
  let ?ou = "case o1 of Some o2 \<Rightarrow> Some o2 | None \<Rightarrow> Some (i, j)"
  show ?thesis
  proof (cases f)
    case None
    then have "g = None" using assms(1) by simp
    then show ?thesis using None assms(2) Expr by (simp add: expand_token_def alike_refuse)
  next
    case (Some f1)
    then obtain g1 where g: "g = Some g1" and fg: "expanders_alike f1 g1" using assms(1) by (cases g) auto
    have a: "alike c (f1 inner stack ?ou via c) (g1 inner stack ?ou via c')"
      using fg assms(2) unfolding expanders_alike_def by blast
    show ?thesis
    proof (cases "f1 inner stack ?ou via c")
      case (Inl e)
      then show ?thesis using a by (simp add: expand_token_def Expr Some g alike_def)
    next
      case (Inr r)
      obtain t x where r: "r = (t, x)" by (cases r)
      obtain t' x' us where i': "g1 inner stack ?ou via c' = Inr (t', x')" and ax: "agree x x'" and u: "ec_used x = ec_used c @ us"
        and tt: "\<not> uses_sequence us \<longrightarrow> t' = t"
        using a Inr r by (auto simp: alike_def)
      have fr: "from_response c x \<longleftrightarrow> uses_sequence us" "from_response c' x' \<longleftrightarrow> uses_sequence us"
        using u ax assms(2) by (simp_all add: from_response_def uses_sequence_def agree_def)
      show ?thesis
      proof (cases "uses_sequence us")
        case True
        then show ?thesis using fr ax u by (auto simp: expand_token_def Expr Some g Inr r i' alike_def)
      next
        case False
        have "alike x (refer gen (s\<lparr>ps_sequence := Some p\<rparr>) en f1 stack o1 via raw i j t x)
            (refer gen (s\<lparr>ps_sequence := Some q\<rparr>) en g1 stack o1 via raw i j t x')"
          by (rule refer_alike [OF fg ax assms(3)])
        from alike_from [OF this u False] show ?thesis
          using fr False tt by (simp add: expand_token_def Expr Some g Inr r i')
      qed
    qed
  qed
qed

lemma each_token_alike:
  assumes "\<And>tok c c'. agree c c' \<Longrightarrow> alike c (f tok c) (g tok c')" "agree c c'"
  shows "alike c (each_token f ts c) (each_token g ts c')"
  using assms(2)
proof (induction ts arbitrary: c c')
  case (Cons tok ts)
  show ?case
  proof (cases "f tok c")
    case (Inl e)
    then show ?thesis using assms(1) [OF Cons.prems, of tok] by (simp add: alike_def)
  next
    case (Inr r)
    obtain t x where r: "r = (t, x)" by (cases r)
    obtain t' x' us where g: "g tok c' = Inr (t', x')" and a: "agree x x'" and u: "ec_used x = ec_used c @ us"
      and tt: "\<not> uses_sequence us \<longrightarrow> t' = t"
      using assms(1) [OF Cons.prems, of tok] Inr r by (auto simp: alike_def)
    show ?thesis
    proof (cases "each_token f ts x")
      case (Inl e)
      then show ?thesis using Cons.IH [OF a] by (simp add: Inr r g alike_def)
    next
      case tail: (Inr r2)
      obtain t2 x2 where r2: "r2 = (t2, x2)" by (cases r2)
      obtain t2' x2' us2 where g2: "each_token g ts x' = Inr (t2', x2')" and a2: "agree x2 x2'"
        and u2: "ec_used x2 = ec_used x @ us2" and tt2: "\<not> uses_sequence us2 \<longrightarrow> t2' = t2"
        using Cons.IH [OF a] tail r2 by (auto simp: alike_def)
      have "\<not> uses_sequence (us @ us2) \<longrightarrow> t' @ t2' = t @ t2" using tt tt2 by (auto simp: uses_sequence_def)
      moreover have "ec_used x2 = ec_used c @ (us @ us2)" using u u2 by simp
      ultimately show ?thesis using a2 unfolding alike_def each_token.simps Inr r g bind_result.simps prod.case tail r2 g2 sum.case
        by blast
    qed
  qed
qed (simp add: alike_def)

lemma expand_at_alike:
  assumes "same_names p q"
  shows "expanders_alike (expand_at gen (s\<lparr>ps_sequence := Some p\<rparr>) en n) (expand_at gen (s\<lparr>ps_sequence := Some q\<rparr>) en n)"
proof (induction n)
  case 0
  show ?case using token_alike [OF _ _ assms, of None None]
    by (auto simp: expanders_alike_def intro!: each_token_alike)
next
  case (Suc n)
  show ?case using token_alike [OF _ _ assms, of "Some _" "Some _"] Suc
    by (auto simp: expanders_alike_def intro!: each_token_alike)
qed

text \<open>What two expansions have in common.\<close>

definition same_story :: "(expand_error, expand_result \<times> expand_ctx) result \<Rightarrow> (expand_error, expand_result \<times> expand_ctx) result \<Rightarrow> bool" where
  "same_story r r' \<longleftrightarrow>
     (case (r, r') of
        (Inl e, Inl e') \<Rightarrow> e = e'
      | (Inr (x, c), Inr (x', c')) \<Rightarrow>
          er_used x' = er_used x \<and> er_unresolved x' = er_unresolved x \<and> map fst (ec_reads c') = map fst (ec_reads c) \<and>
          ec_dynamic c' = ec_dynamic c \<and> (er_text x' = er_text x \<or> (\<exists>name. (Sequence, name) \<in> set (ec_used c)))
      | _ \<Rightarrow> False)"

text \<open>C5: A response chooses nothing (ADR-0015): whatever values earlier responses left in the Sequence scope, a text
  reads the same properties, secrets and System variables in the same order, generates the same dynamic values and
  leaves the same references unresolved for the same reasons; and unless it reads a Sequence value, its text is the same.\<close>

theorem responses_choose_nothing:
  assumes "set (jskeys p) = set (jskeys q)"
  shows "same_story (expand gen (scopes\<lparr>ps_sequence := Some p\<rparr>) opts d t) (expand gen (scopes\<lparr>ps_sequence := Some q\<rparr>) opts d t)"
proof -
  let ?c = "\<lparr>ec_unresolved = [], ec_used = [], ec_reads = [],
           ec_dynamic = (case d of Some x \<Rightarrow> x | None \<Rightarrow> new_dynamic_values)\<rparr>"
  let ?en = "case eo_entitize opts of Some e \<Rightarrow> e | None \<Rightarrow> False"
  let ?n = "case eo_max_depth opts of Some n \<Rightarrow> n | None \<Rightarrow> DEFAULT_MAX_DEPTH"
  have a: "alike ?c (expand_at gen (scopes\<lparr>ps_sequence := Some p\<rparr>) ?en ?n t [] None [] ?c)
      (expand_at gen (scopes\<lparr>ps_sequence := Some q\<rparr>) ?en ?n t [] None [] ?c)"
    using expand_at_alike [of p q gen scopes ?en ?n] assms by (simp add: same_names_def expanders_alike_def)
  show ?thesis
  proof (cases "expand_at gen (scopes\<lparr>ps_sequence := Some p\<rparr>) ?en ?n t [] None [] ?c")
    case (Inl e)
    then show ?thesis using a by (simp add: alike_def expand_def same_story_def)
  next
    case (Inr r)
    then show ?thesis using a
      by (cases r) (auto simp: alike_def expand_def same_story_def agree_def uses_sequence_def list_ex_iff)
  qed
qed

definition no_scopes :: property_scopes where
  "no_scopes = \<lparr>ps_project = [], ps_env = None, ps_workspace = None, ps_global = [], ps_system = [], ps_secrets = None,
     ps_sequence = None, ps_data = None\<rparr>"

definition plain_options :: expand_options where
  "plain_options = \<lparr>eo_max_depth = None, eo_entitize = None\<rparr>"

definition no_generators :: generators where
  "no_generators n c = Refused Missing_dynamic"

lemma responses_choose_nothing_witness:
  "same_story
     (expand no_generators (no_scopes\<lparr>ps_secrets := Some [(''s'', ''hidden'')], ps_sequence := Some [(''n'', ''secret:s'')]\<rparr>)
        plain_options None ''${${#Sequence#n}}'')
     (expand no_generators (no_scopes\<lparr>ps_secrets := Some [(''s'', ''hidden'')], ps_sequence := Some [(''n'', ''id'')]\<rparr>)
        plain_options None ''${${#Sequence#n}}'')"
proof -
  have "set (jskeys [(''n'', ''secret:s'')]) = set (jskeys [(''n'', ''id'')])" by simp
  from responses_choose_nothing [OF this] show ?thesis by blast
qed

text \<open>A cell of a data file, which is held to the same rule by its documentation, does choose: it reads the secret it names.\<close>

lemma data_cell_names_a_secret:
  "map_sum id (er_text \<circ> fst) (expand no_generators
     (no_scopes\<lparr>ps_secrets := Some [(''s'', ''hidden'')], ps_data := Some [(''c'', ''secret:s'')]\<rparr>)
     plain_options None ''${${#Data#c}}'') = Inr ''hidden''"
  by code_simp

text \<open>The value of a stored secret is expanded like any other, so it does not go out as it was stored.\<close>

lemma stored_secret_is_expanded:
  "map_sum id (er_text \<circ> fst) (expand no_generators
     (no_scopes\<lparr>ps_secrets := Some [(''s'', ''pa$${ss'')]\<rparr>) plain_options None ''${secret:s}'') = Inr ''pa${ss''"
  by code_simp

text \<open>An explicit scope finds what every object inherits: a function there is handed to the scanner, which throws.\<close>

lemma inherited_member_throws:
  "expand no_generators no_scopes plain_options None ''${#Project#constructor}'' = Inl Type_error"
  "map_sum id (er_text \<circ> fst) (expand no_generators no_scopes plain_options None ''a${#Project#toString}b'') = Inr ''ab''"
  by code_simp+

section \<open>Where an unresolved reference points\<close>

lemma close_at_bounds: "close_at d cs = Some n \<Longrightarrow> 1 \<le> n \<and> n \<le> length cs"
  by (induction d cs arbitrary: n rule: close_at.induct) (fastforce split: if_splits)+

text \<open>A token's span is where its text stands: from an opening to at most the end.\<close>

definition opens_at :: "string \<Rightarrow> nat \<Rightarrow> nat \<Rightarrow> bool" where
  "opens_at t i j \<longleftrightarrow> i < j \<and> j \<le> length t \<and> starts_with (drop i t) ''${''"

lemma scan_spans:
  "\<lbrakk>i \<le> length t; cs = drop i t; tok \<in> set (scan i l cs)\<rbrakk> \<Longrightarrow>
   (case tok of Literal _ \<Rightarrow> True | Expr raw inner a b \<Rightarrow> opens_at t a b \<and> raw = take (b - a) (drop a t)
    | Malformed raw a b \<Rightarrow> opens_at t a b \<and> raw = take (b - a) (drop a t))"
proof (induction i l cs rule: scan.induct)
  case (1 i l cs)
  show ?case
  proof (cases "cs = []")
    case True
    then show ?thesis using "1.prems" by (auto simp: flush_def split: if_splits)
  next
    case ne: False
    then have i: "i < length t" using "1.prems" by auto
    have len: "length cs = length t - i" using "1.prems" by simp
    show ?thesis
    proof (cases "starts_with cs ''$${''")
      case esc: True
      then have three: "3 \<le> length cs" by (cases cs; cases "tl cs"; cases "tl (tl cs)") auto
      have "scan i l cs = scan (i + 3) (l @ ''${'') (drop 3 cs)" using ne esc by (subst scan.simps) simp
      then have "tok \<in> set (scan (i + 3) (l @ ''${'') (drop 3 cs))" using "1.prems"(3) by simp
      then show ?thesis using "1.IH"(1) [OF ne esc] three len "1.prems"(2) by (simp add: add.commute)
    next
      case no: False
      show ?thesis
      proof (cases "starts_with cs ''${''")
        case op: True
        then have two: "2 \<le> length cs" by (cases cs; cases "tl cs") auto
        show ?thesis
        proof (cases "close_at 1 (drop 2 cs)")
          case None
          have "tok \<in> set (flush l) \<or> tok = Malformed cs i (i + length cs)"
            using "1.prems"(3) ne no op None by (auto simp: scan.simps [of i l cs])
          moreover have "opens_at t i (i + length cs)" using op ne len i "1.prems"(2) by (simp add: opens_at_def)
          ultimately show ?thesis using "1.prems"(2) len by (auto simp: flush_def split: if_splits)
        next
          case (Some n)
          then have n: "1 \<le> n" "n + 2 \<le> length cs" using close_at_bounds [OF Some] two by auto
          have "tok \<in> set (flush l) \<or> tok = Expr (take (n + 2) cs) (take (n - 1) (drop 2 cs)) i (i + n + 2) \<or>
              tok \<in> set (scan (i + n + 2) [] (drop (n + 2) cs))"
            using "1.prems"(3) ne no op Some by (auto simp: scan.simps [of i l cs])
          moreover have "opens_at t i (i + n + 2)" using op n len "1.prems"(2) by (simp add: opens_at_def)
          moreover have "drop (n + 2) cs = drop (i + n + 2) t" using "1.prems"(2) by (simp add: add.commute add.left_commute)
          ultimately show ?thesis using "1.IH"(2) [OF ne no op Some] "1.prems"(2) n len
            by (auto simp: flush_def split: if_splits)
        qed
      next
        case False
        have "scan i l cs = scan (i + 1) (l @ [hd cs]) (tl cs)" using ne no False by (subst scan.simps) simp
        then have "tok \<in> set (scan (i + 1) (l @ [hd cs]) (tl cs))" using "1.prems"(3) by simp
        then show ?thesis using "1.IH"(3) [OF ne no False] i "1.prems"(2) by (simp add: drop_Suc tl_drop)
      qed
    qed
  qed
qed

text \<open>A run only adds to what is unresolved, and what it adds has the property \<open>P\<close>.\<close>

definition adds :: "(unresolved_ref \<Rightarrow> bool) \<Rightarrow> expand_ctx \<Rightarrow> expansion \<Rightarrow> bool" where
  "adds P c r \<longleftrightarrow> (\<forall>s x. r = Inr (s, x) \<longrightarrow> (\<exists>us. ec_unresolved x = ec_unresolved c @ us \<and> list_all P us))"

lemma adds_nothing: "ec_unresolved x = ec_unresolved c \<Longrightarrow> adds P c (Inr (s, x))"
  by (simp add: adds_def)

lemma adds_Inl [simp]: "adds P c (Inl e)"
  by (simp add: adds_def)

lemma adds_refuse:
  "P \<lparr>ur_expr = raw, ur_scope = sc, ur_name = name, ur_code = code, ur_start = fst (case o1 of Some o2 \<Rightarrow> o2 | None \<Rightarrow> (i, j)),
       ur_end = snd (case o1 of Some o2 \<Rightarrow> o2 | None \<Rightarrow> (i, j)), ur_via = via\<rparr> \<Longrightarrow>
   ec_unresolved c' = ec_unresolved c \<Longrightarrow> adds P c (Inr (raw, push_unresolved o1 via raw sc name code i j c'))"
  by (simp add: adds_def push_unresolved_def Let_def)

lemma adds_bind:
  assumes "adds P c r" "\<And>s x. r = Inr (s, x) \<Longrightarrow> adds P x (f (s, x))"
  shows "adds P c (bind_result r f)"
proof (cases r)
  case (Inr p)
  obtain s x where p: "p = (s, x)" by (cases p)
  obtain us where u: "ec_unresolved x = ec_unresolved c @ us" "list_all P us" using assms(1) Inr p by (auto simp: adds_def)
  show ?thesis using assms(2) [of s x] u by (fastforce simp: adds_def Inr p)
qed simp

lemma adds_from: "adds P c' r \<Longrightarrow> ec_unresolved c' = ec_unresolved c \<Longrightarrow> adds P c r"
  by (simp add: adds_def)

lemma adds_each:
  assumes "\<And>tok c. tok \<in> set ts \<Longrightarrow> adds P c (f tok c)"
  shows "adds P c (each_token f ts c)"
  using assms
proof (induction ts arbitrary: c)
  case (Cons tok ts)
  have "adds P x (bind_result (each_token f ts x) (\<lambda>(s', c'). Inr (s @ s', c')))" for s x
    by (rule adds_bind) (auto simp: Cons intro: adds_nothing)
  note tail = this
  show ?case
    unfolding each_token.simps
  proof (rule adds_bind)
    show "adds P c (f tok c)" using Cons.prems by simp
  qed (simp add: tail)
qed (simp add: adds_nothing)

definition spans :: "nat \<times> nat \<Rightarrow> unresolved_ref \<Rightarrow> bool" where
  "spans o1 u \<longleftrightarrow> (ur_start u, ur_end u) = o1"

lemma unresolved_use [simp]: "ec_unresolved (use sc name c) = ec_unresolved c"
  by (simp add: use_def)

lemma refer_spans:
  assumes "\<And>t stack via c o2. adds (spans o2) c (f t stack (Some o2) via c)"
  shows "adds (spans (case o1 of Some o2 \<Rightarrow> o2 | None \<Rightarrow> (i, j))) c (refer gen s en f stack o1 via raw i j resolved c)"
proof -
  define o2 where "o2 = (case o1 of Some o2 \<Rightarrow> o2 | None \<Rightarrow> (i, j))"
  have inner: "(case o1 of Some o2 \<Rightarrow> Some o2 | None \<Rightarrow> Some (i, j)) = Some o2" by (simp add: o2_def split: option.split)
  have refuse: "adds (spans o2) c (Inr (raw, push_unresolved o1 via raw sc name code i j c'))"
    if "ec_unresolved c' = ec_unresolved c" for sc name code c'
    by (rule adds_refuse) (simp_all add: spans_def o2_def that)
  have m: "adds (spans o2) c (expand_member f m st (Some o2) vi (use sc name c))" for m st vi sc name
    using adds_from [OF assms, of "use sc name c" c] by (auto simp: expand_member_def intro: adds_nothing split: looked_up.split)
  have rec: "adds (spans o2) c (f t st (Some o2) vi (use sc name c))" for t st vi sc name
    using adds_from [OF assms, of "use sc name c" c] by simp
  show ?thesis
    unfolding refer_def Let_def o2_def [symmetric] inner
    by (auto split: prod.splits option.splits dynamic_result.splits looked_up.splits
        intro!: refuse adds_bind m rec intro: adds_nothing)
qed

fun token_span :: "token \<Rightarrow> nat \<times> nat" where
  "token_span (Literal t) = (0, 0)"
| "token_span (Expr raw inner i j) = (i, j)"
| "token_span (Malformed raw i j) = (i, j)"

lemma token_spans:
  assumes "\<And>f t stack via c o2. g = Some f \<Longrightarrow> adds (spans o2) c (f t stack (Some o2) via c)"
  shows "adds (spans (case o1 of Some o2 \<Rightarrow> o2 | None \<Rightarrow> token_span tok)) c (expand_token gen s en g stack o1 via tok c)"
proof (cases tok)
  case (Literal t)
  then show ?thesis by (simp add: expand_token_def adds_nothing)
next
  case (Malformed raw i j)
  then show ?thesis by (auto simp: expand_token_def spans_def intro!: adds_refuse split: option.split)
next
  case (Expr raw inner i j)
  define o2 where "o2 = (case o1 of Some o2 \<Rightarrow> o2 | None \<Rightarrow> (i, j))"
  have inn: "(case o1 of Some o2 \<Rightarrow> Some o2 | None \<Rightarrow> Some (i, j)) = Some o2" by (simp add: o2_def split: option.split)
  have refuse: "adds (spans o2) c' (Inr (raw, push_unresolved o1 via raw None None code i j c'))" for code c'
    by (rule adds_refuse) (simp_all add: spans_def o2_def)
  have o2': "(case o1 of Some o2 \<Rightarrow> o2 | None \<Rightarrow> token_span tok) = o2" by (simp add: o2_def Expr split: option.split)
  show ?thesis
    unfolding o2'
  proof (cases g)
    case None
    then show "adds (spans o2) c (expand_token gen s en g stack o1 via tok c)" by (simp add: expand_token_def Expr refuse)
  next
    case (Some f)
    have f: "adds (spans o2) c (f t stack (Some o2) via c)" for t stack via c by (rule assms [OF Some])
    have "adds (spans o2) x (refer gen s en f stack o1 via raw i j t x)" for t x
      unfolding o2_def by (rule refer_spans) (rule assms [OF Some])
    then show "adds (spans o2) c (expand_token gen s en g stack o1 via tok c)"
      by (auto simp: expand_token_def Expr Some inn refuse f intro!: adds_bind)
  qed
qed

lemma expand_at_spans: "adds (spans o2) c (expand_at gen s en n t stack (Some o2) via c)"
proof (induction n arbitrary: t stack via c o2)
  case 0
  have "adds (spans o2) c (expand_token gen s en None stack (Some o2) via tok c)" for tok c
    using token_spans [where g = None and ?o1.0 = "Some o2" and tok = tok] by simp
  then show ?case by (simp add: adds_each)
next
  case (Suc n)
  have "adds (spans o2) c (expand_token gen s en (Some (expand_at gen s en n)) stack (Some o2) via tok c)" for tok c
  proof -
    have "adds (spans (case Some o2 of Some o3 \<Rightarrow> o3 | None \<Rightarrow> token_span tok)) c
        (expand_token gen s en (Some (expand_at gen s en n)) stack (Some o2) via tok c)"
      by (rule token_spans) (auto simp: Suc)
    then show ?thesis by simp
  qed
  then show ?case by (simp add: adds_each)
qed

lemma expand_at_top:
  "adds (\<lambda>u. opens_at t (ur_start u) (ur_end u)) c (expand_at gen s en n t [] None [] c)"
proof -
  have tok: "adds (\<lambda>u. opens_at t (ur_start u) (ur_end u)) c (expand_token gen s en g [] None [] tok c)"
    if "tok \<in> set (tokenize t)" and g: "\<And>f t stack via c o2. g = Some f \<Longrightarrow> adds (spans o2) c (f t stack (Some o2) via c)" for g tok c
  proof (cases tok)
    case (Literal l)
    then show ?thesis by (simp add: expand_token_def adds_nothing)
  next
    case (Expr raw inner i j)
    then have "opens_at t i j" using scan_spans [of 0 t t tok "[]"] that(1) by (simp add: tokenize_def)
    moreover have "adds (spans (i, j)) c (expand_token gen s en g [] None [] tok c)"
      using token_spans [where g = g and ?o1.0 = None and tok = tok] g Expr by simp
    ultimately show ?thesis by (fastforce simp: adds_def spans_def list_all_iff)
  next
    case (Malformed raw i j)
    then have "opens_at t i j" using scan_spans [of 0 t t tok "[]"] that(1) by (simp add: tokenize_def)
    moreover have "adds (spans (i, j)) c (expand_token gen s en g [] None [] tok c)"
      using token_spans [where g = g and ?o1.0 = None and tok = tok] g Malformed by simp
    ultimately show ?thesis by (fastforce simp: adds_def spans_def list_all_iff)
  qed
  show ?thesis by (cases n) (auto intro!: adds_each tok expand_at_spans)
qed

text \<open>C36: Every reference left unresolved, however deep in the properties' values it was met, is reported at a
  place of the text the user wrote: its span is not empty, lies inside that text and starts at an opening brace.\<close>

theorem unresolved_point_into_text:
  assumes "expand gen scopes opts d t = Inr (r, c)" "u \<in> set (er_unresolved r)"
  shows "ur_start u < ur_end u \<and> ur_end u \<le> length t \<and> starts_with (drop (ur_start u) t) ''${''"
  using assms expand_at_top [of t] unfolding expand_def
  by (fastforce simp: bind_result_Inr_iff adds_def list_all_iff opens_at_def)

lemma unresolved_point_into_text_witness:
  "\<exists>u r c. expand no_generators (no_scopes\<lparr>ps_project := [(''a'', ''x${nope}'')]\<rparr>) plain_options None ''v=${a};'' = Inr (r, c)
     \<and> u \<in> set (er_unresolved r) \<and> ur_code u = Missing \<and> ur_via u = [''Project#a'']
     \<and> ur_start u < ur_end u \<and> ur_end u \<le> 7 \<and> starts_with (drop (ur_start u) ''v=${a};'') ''${''"
proof -
  define e where "e = expand no_generators (no_scopes\<lparr>ps_project := [(''a'', ''x${nope}'')]\<rparr>) plain_options None ''v=${a};''"
  define q where "q = fst (projr e)"
  have e: "e = Inr (q, snd (projr e))"
  proof -
    have "isl e = False" unfolding e_def by code_simp
    then show ?thesis by (cases e) (simp_all add: q_def)
  qed
  have u: "map (\<lambda>u. (ur_code u, ur_via u)) (er_unresolved q) = [(Missing, [''Project#a''])]"
    unfolding q_def e_def by code_simp
  then obtain u where m: "u \<in> set (er_unresolved q)" "ur_code u = Missing" "ur_via u = [''Project#a'']"
    by (cases "er_unresolved q") auto
  have "ur_start u < ur_end u \<and> ur_end u \<le> length ''v=${a};'' \<and> starts_with (drop (ur_start u) ''v=${a};'') ''${''"
    by (rule unresolved_point_into_text [OF e [unfolded e_def] m(1)])
  moreover have "length ''v=${a};'' = 7" by simp
  ultimately show ?thesis using e [unfolded e_def] m by metis
qed

section \<open>Secrets are found before a send\<close>

text \<open>
  \<^verbatim>\<open>packages/core/src/run/send-helpers.ts\<close> and \<^verbatim>\<open>secrets/resolve.ts\<close>: the strings of what is to be sent, the secrets they
  reach, and the scopes with those secrets' values. \<open>get\<close> stands for the host's \<^verbatim>\<open>GetSecret\<close>; binary data and other values
  hold no text.
\<close>

datatype send_value = Text_value string | List_value "send_value list" | Object_value "(string \<times> send_value) list" | Other_value

fun texts_of :: "send_value \<Rightarrow> string list" where
  "texts_of (Text_value t) = [t]"
| "texts_of (List_value vs) = concat (map texts_of vs)"
| "texts_of (Object_value fs) = concat (map (\<lambda>(k, v). texts_of v) fs)"
| "texts_of Other_value = []"

fun has_substring :: "'a list \<Rightarrow> 'a list \<Rightarrow> bool" where
  "has_substring [] p \<longleftrightarrow> p = []"
| "has_substring (c # cs) p \<longleftrightarrow> starts_with (c # cs) p \<or> has_substring cs p"

fun names_in_texts :: "property_scopes \<Rightarrow> string list \<Rightarrow> string list \<Rightarrow> (expand_error, string list) result" where
  "names_in_texts scopes [] found = Inr found"
| "names_in_texts scopes (t # ts) found =
     (if has_substring t ''${'' then bind_result (secret_names_in t (Some scopes)) (\<lambda>names. names_in_texts scopes ts (foldl jsadd found names))
      else names_in_texts scopes ts found)"

definition secret_names_in_value :: "send_value \<Rightarrow> property_scopes \<Rightarrow> (expand_error, string list) result" where
  "secret_names_in_value v scopes = names_in_texts scopes (texts_of v) []"

datatype send_error = Thrown expand_error | Secret_missing string

fun resolve_secret_tokens :: "(string \<Rightarrow> string option) \<Rightarrow> string list \<Rightarrow> property_map \<Rightarrow> (send_error, property_map) result" where
  "resolve_secret_tokens get [] values = Inr values"
| "resolve_secret_tokens get (n # ns) values =
     (if jshas values n then resolve_secret_tokens get ns values
      else case get (''secret:'' @ n) of
          None \<Rightarrow> Inl (Secret_missing n)
        | Some v \<Rightarrow> resolve_secret_tokens get ns (jsset values n v))"

definition with_secrets ::
    "(string \<Rightarrow> string option) \<Rightarrow> send_value \<Rightarrow> property_scopes \<Rightarrow> (send_error, property_scopes) result" where
  "with_secrets get v scopes =
     (case secret_names_in_value v scopes of
        Inl e \<Rightarrow> Inl (Thrown e)
      | Inr names \<Rightarrow>
          if names = [] then Inr scopes
          else bind_result (resolve_secret_tokens get names []) (\<lambda>vs. Inr (scopes\<lparr>ps_secrets := Some vs\<rparr>)))"

text \<open>A text whose references hold no reference of their own, and scopes that hold nothing else.\<close>

definition plain_text :: "string \<Rightarrow> bool" where
  "plain_text t \<longleftrightarrow> list_all (\<lambda>tok. case tok of Expr raw inner i j \<Rightarrow> tokenize inner = flush inner | _ \<Rightarrow> True) (tokenize t)"

definition plain_map :: "property_map \<Rightarrow> bool" where
  "plain_map m \<longleftrightarrow> list_all (\<lambda>(k, v). plain_text v) m"

definition plain_scopes :: "property_scopes \<Rightarrow> bool" where
  "plain_scopes s \<longleftrightarrow> plain_map (ps_project s) \<and> plain_map (case ps_env s of None \<Rightarrow> [] | Some m \<Rightarrow> m) \<and>
     plain_map (case ps_workspace s of None \<Rightarrow> [] | Some m \<Rightarrow> m) \<and> plain_map (ps_global s) \<and> plain_map (ps_system s)"

lemma plain_map_get: "plain_map m \<Longrightarrow> jsget m k = Some v \<Longrightarrow> plain_text v"
  by (auto simp: plain_map_def list_all_iff dest: map_of_SomeD)

lemma plain_member: "plain_map m \<Longrightarrow> member_of m k = Some (Own v) \<Longrightarrow> plain_text v"
  by (auto simp: member_of_def plain_map_get split: option.splits)

lemma plain_lookup:
  "plain_scopes s \<Longrightarrow> sc \<noteq> Sequence \<Longrightarrow> sc \<noteq> Data \<Longrightarrow> sc \<noteq> Secret \<Longrightarrow> lookup_in_scope sc k s = Some (Own v) \<Longrightarrow> plain_text v"
  by (auto simp: plain_scopes_def lookup_in_scope_def may_be_def plain_member split: scope.splits option.splits)

lemma plain_shorthand: "plain_scopes s \<Longrightarrow> lookup_shorthand k s = Some (sc, v) \<Longrightarrow> plain_text v \<and> sc \<noteq> Secret"
  by (auto simp: plain_scopes_def lookup_shorthand_def plain_map_get bind_eq_Some_conv split: option.splits)

text \<open>A visit only adds names.\<close>

lemma visit_token_mono:
  assumes "\<And>t st fo fo'. rec t st fo = Inr fo' \<Longrightarrow> set fo \<subseteq> set fo'" "\<And>st fo fo'. other st fo = Inr fo' \<Longrightarrow> set fo \<subseteq> set fo'"
    and "visit_token scopes rec other stack tok found = Inr found'"
  shows "set found \<subseteq> set found'"
  using assms(3) assms(1,2)
  by (fastforce simp: visit_token_def set_jsadd split: token.splits prod.splits option.splits if_splits looked_up.splits)

lemma visit_each_mono:
  assumes "\<And>tok fo fo'. f tok fo = Inr fo' \<Longrightarrow> set fo \<subseteq> set fo'" "visit_each f ts found = Inr found'"
  shows "set found \<subseteq> set found'"
  using assms(2) assms(1) by (induction ts arbitrary: found) (auto simp: bind_result_Inr_iff, blast)

lemma visit_secrets_mono: "visit_secrets scopes k t stack found = Inr found' \<Longrightarrow> set found \<subseteq> set found'"
proof (induction k arbitrary: t stack found found')
  case (Suc k)
  have "set fo \<subseteq> set fo'" if "visit_token scopes (visit_secrets scopes k)
       (\<lambda>stack found. if k = 0 then Inr found else Inl Type_error) stack tok fo = Inr fo'" for tok fo fo'
    by (rule visit_token_mono [OF _ _ that]) (auto simp: Suc.IH split: if_splits)
  then show ?case using visit_each_mono Suc.prems by simp blast
qed simp

lemma visit_each_member:
  assumes "\<And>tok fo fo'. f tok fo = Inr fo' \<Longrightarrow> set fo \<subseteq> set fo'" "visit_each f ts found = Inr found'" "tok \<in> set ts"
  shows "\<exists>fo fo'. f tok fo = Inr fo' \<and> set fo' \<subseteq> set found'"
  using assms(2,3)
proof (induction ts arbitrary: found)
  case (Cons u us)
  then obtain fo where f: "f u found = Inr fo" "visit_each f us fo = Inr found'" by (auto simp: bind_result_Inr_iff)
  have "set fo \<subseteq> set found'" by (rule visit_each_mono [OF _ f(2)]) (rule assms(1))
  then show ?case using Cons.IH [OF f(2)] Cons.prems(2) f(1) by (cases "tok = u") auto
qed simp

lemma visit_secrets_member:
  assumes "visit_secrets scopes (Suc k) t stack found = Inr found'" "tok \<in> set (tokenize t)"
  shows "\<exists>fo fo'. visit_token scopes (visit_secrets scopes k) (\<lambda>stack found. if k = 0 then Inr found else Inl Type_error)
      stack tok fo = Inr fo' \<and> set fo' \<subseteq> set found'"
proof (rule visit_each_member [OF _ _ assms(2)])
  show "visit_each (visit_token scopes (visit_secrets scopes k)
      (\<lambda>stack found. if k = 0 then Inr found else Inl Type_error) stack) (tokenize t) found = Inr found'"
    using assms(1) by simp
  show "set fo \<subseteq> set fo'" if "visit_token scopes (visit_secrets scopes k)
       (\<lambda>stack found. if k = 0 then Inr found else Inl Type_error) stack tok fo = Inr fo'" for tok fo fo'
    by (rule visit_token_mono [OF _ _ that]) (auto simp: visit_secrets_mono split: if_splits)
qed

text \<open>A secret the expansion wanted and did not have.\<close>

definition wanting :: "unresolved_ref \<Rightarrow> bool" where
  "wanting u \<longleftrightarrow> ur_scope u = Some ''Secret'' \<and> ur_code u = Missing \<and> is_secret_name (the (ur_name u))"

definition has_secrets :: "property_scopes \<Rightarrow> string set \<Rightarrow> bool" where
  "has_secrets s names \<longleftrightarrow> (\<forall>n \<in> names. \<exists>v. may_be (ps_secrets s) n = Some (Own v) \<and> \<not> has_expansions v)"

lemma no_reference_flush: "\<not> has_expansions t \<Longrightarrow> tokenize t = flush (unescape_expansions t)"
  by (simp add: tokenize_def scan_plain)

lemma show_scope_inject: "show_scope sc = show_scope sc' \<longleftrightarrow> sc = sc'"
  by (cases sc; cases sc') simp_all


text \<open>A reference that the visit met is expanded without wanting a secret, when the names found have their values.\<close>

lemma refer_wants_nothing:
  assumes visit: "visit_token (Some s0) rv other stack (Expr raw inner i j) fo = Inr fo'" "set fo' \<subseteq> names"
    and has: "has_secrets s names"
    and lk: "\<And>sc name. sc \<noteq> Secret \<Longrightarrow> lookup_in_scope sc name s = lookup_in_scope sc name s0"
    and sh: "\<And>name. lookup_shorthand name s = lookup_shorthand name s0"
    and plain: "plain_scopes s0"
    and deeper: "\<And>v st fo fo' ou vi c. \<lbrakk>plain_text v; rv v st fo = Inr fo'; set fo' \<subseteq> names\<rbrakk> \<Longrightarrow>
      adds (\<lambda>u. \<not> wanting u) c (f v st ou vi c)"
    and flat: "\<And>v st ou vi c. \<not> has_expansions v \<Longrightarrow> f v st ou vi c = Inr (unescape_expansions v, c)"
  shows "adds (\<lambda>u. \<not> wanting u) c (refer gen s en f stack o1 via raw i j inner c)"
proof -
  obtain osc name where pe: "parse_expr inner = (osc, name)" by (cases "parse_expr inner")
  have refuse: "adds (\<lambda>u. \<not> wanting u) c (Inr (raw, push_unresolved o1 via raw sc nm code i j c'))"
    if "ec_unresolved c' = ec_unresolved c" "sc = Some ''Secret'' \<longrightarrow> code = Missing \<longrightarrow> \<not> is_secret_name (the nm)" for sc nm code c'
    using that by (intro adds_refuse) (auto simp: wanting_def)
  show ?thesis
  proof (cases osc)
    case None
    show ?thesis
    proof (cases "hashed inner")
      case (Some h)
      then show ?thesis by (cases h) (simp add: refer_def Let_def pe \<open>osc = None\<close> refuse)
    next
      case hash: None
      show ?thesis
      proof (cases "lookup_shorthand name s0")
        case None
        then show ?thesis by (simp add: refer_def Let_def pe \<open>osc = None\<close> hash sh refuse)
      next
        case (Some r)
        obtain sc v where r: "r = (sc, v)" by (cases r)
        have pv: "plain_text v" "sc \<noteq> Secret" using plain_shorthand [OF plain Some [unfolded r]] by simp_all
        show ?thesis
        proof (cases "property_key sc name \<in> set stack")
          case True
          then show ?thesis by (simp add: refer_def Let_def pe \<open>osc = None\<close> hash sh Some r refuse)
        next
          case False
          then have "rv v (stack @ [property_key sc name]) fo = Inr fo'"
            using visit(1) by (simp add: visit_token_def pe \<open>osc = None\<close> Some r)
          then have "adds (\<lambda>u. \<not> wanting u) (use sc name c) (f v (stack @ [property_key sc name]) ou vi (use sc name c))" for ou vi
            using deeper pv visit(2) by blast
          then have "adds (\<lambda>u. \<not> wanting u) c (f v (stack @ [property_key sc name]) ou vi (use sc name c))" for ou vi
            by (rule adds_from) simp
          then show ?thesis using False
            by (auto simp: refer_def Let_def pe \<open>osc = None\<close> hash sh Some r intro!: adds_bind intro: adds_nothing)
        qed
      qed
    qed
  next
    case (Some sc)
    consider (dynamic) "sc = Dynamic" | (cycle) "sc \<noteq> Dynamic" "property_key sc name \<in> set stack"
      | (secret) "sc = Secret" "property_key sc name \<notin> set stack"
      | (data) "sc = Sequence \<or> sc = Data" "property_key sc name \<notin> set stack"
      | (other) "sc \<notin> {Dynamic, Secret, Sequence, Data}" "property_key sc name \<notin> set stack" by blast
    then show ?thesis
    proof cases
      case dynamic
      then show ?thesis
        by (auto simp: refer_def Let_def pe Some intro!: refuse intro: adds_nothing split: prod.split dynamic_result.split)
    next
      case cycle
      then show ?thesis by (simp add: refer_def Let_def pe Some refuse)
    next
      case secret
      show ?thesis
      proof (cases "is_secret_name name")
        case False
        then show ?thesis using secret by (simp add: refer_def Let_def pe Some lookup_in_scope_def refuse)
      next
        case True
        then have "name \<in> names" using visit by (auto simp: visit_token_def pe Some secret set_jsadd)
        then obtain v where "may_be (ps_secrets s) name = Some (Own v)" "\<not> has_expansions v" using has by (auto simp: has_secrets_def)
        then show ?thesis using secret True
          by (simp add: refer_def Let_def pe Some lookup_in_scope_def expand_member_def flat adds_nothing)
      qed
    next
      case data
      then have l: "lookup_in_scope sc name s = lookup_in_scope sc name s0" "sc \<noteq> Secret" "sc \<noteq> Dynamic" using lk by auto
      show ?thesis using data l show_scope_inject [of sc Secret]
        by (auto simp: refer_def Let_def pe Some intro!: refuse intro: adds_nothing split: option.split looked_up.split)
    next
      case other
      then have l: "lookup_in_scope sc name s = lookup_in_scope sc name s0" using lk by auto
      show ?thesis
      proof (cases "lookup_in_scope sc name s0")
        case None
        then show ?thesis using other l show_scope_inject [of sc Secret] by (auto simp: refer_def Let_def pe Some intro!: refuse)
      next
        case m: (Some m)
        have "adds (\<lambda>u. \<not> wanting u) (use sc name c)
            (expand_member f m (stack @ [property_key sc name]) ou vi (use sc name c))" for ou vi
        proof (cases m)
          case (Own v)
          then have "rv v (stack @ [property_key sc name]) fo = Inr fo'"
            using visit(1) other m by (simp add: visit_token_def pe Some)
          moreover have "plain_text v" using plain_lookup [OF plain] m other Own by blast
          ultimately have "adds (\<lambda>u. \<not> wanting u) (use sc name c) (f v (stack @ [property_key sc name]) ou vi (use sc name c))"
            using deeper visit(2) by blast
          then show ?thesis using Own by (simp add: expand_member_def)
        qed (simp add: expand_member_def adds_nothing)
        then have "adds (\<lambda>u. \<not> wanting u) c
            (expand_member f m (stack @ [property_key sc name]) ou vi (use sc name c))" for ou vi
          by (rule adds_from) simp
        then show ?thesis using other l m
          by (auto simp: refer_def Let_def pe Some intro!: adds_bind intro: adds_nothing)
      qed
    qed
  qed
qed

lemma expand_at_no_reference:
  "\<not> has_expansions v \<Longrightarrow> expand_at gen s en n v st ou vi c = Inr (unescape_expansions v, c)"
  by (rule expand_at_flush) (rule no_reference_flush)

lemma expand_at_wants_nothing:
  assumes has: "has_secrets s names"
    and lk: "\<And>sc name. sc \<noteq> Secret \<Longrightarrow> lookup_in_scope sc name s = lookup_in_scope sc name s0"
    and sh: "\<And>name. lookup_shorthand name s = lookup_shorthand name s0"
    and plain: "plain_scopes s0"
  shows "\<lbrakk>plain_text t; visit_secrets (Some s0) k t stack fo = Inr fo'; n < k; set fo' \<subseteq> names\<rbrakk> \<Longrightarrow>
    adds (\<lambda>u. \<not> wanting u) c (expand_at gen s en n t stack o1 via c)"
proof (induction n arbitrary: t k stack fo fo' o1 via c)
  case 0
  show ?case
    by (auto simp: expand_token_def wanting_def intro!: adds_each adds_refuse intro: adds_nothing split: token.split)
next
  case (Suc n)
  then obtain k' where k: "k = Suc k'" "n < k'" by (cases k) auto
  have "adds (\<lambda>u. \<not> wanting u) c (expand_token gen s en (Some (expand_at gen s en n)) stack o1 via tok c)"
    if tok: "tok \<in> set (tokenize t)" for tok c
  proof (cases tok)
    case (Literal l)
    then show ?thesis by (simp add: expand_token_def adds_nothing)
  next
    case (Malformed raw i j)
    then show ?thesis by (auto simp: expand_token_def wanting_def intro!: adds_refuse)
  next
    case (Expr raw inner i j)
    have flat: "tokenize inner = flush inner" using Suc.prems(1) tok Expr by (force simp: plain_text_def list_all_iff)
    obtain f1 f2 where v: "visit_token (Some s0) (visit_secrets (Some s0) k')
        (\<lambda>stack found. if k' = 0 then Inr found else Inl Type_error) stack (Expr raw inner i j) f1 = Inr f2" "set f2 \<subseteq> set fo'"
      using visit_secrets_member [OF Suc.prems(2) [unfolded k] tok] Expr by blast
    have "adds (\<lambda>u. \<not> wanting u) c (refer gen s en (expand_at gen s en n) stack o1 via raw i j inner c)"
    proof (rule refer_wants_nothing [OF v(1) _ has lk sh plain])
      show "set f2 \<subseteq> names" using v(2) Suc.prems(4) by blast
      show "adds (\<lambda>u. \<not> wanting u) c (expand_at gen s en n v st ou vi c)"
        if "plain_text v" "visit_secrets (Some s0) k' v st fo = Inr fo'" "set fo' \<subseteq> names" for v st fo fo' ou vi c
        by (rule Suc.IH [OF that(1,2) k(2) that(3)])
    qed (simp_all add: expand_at_no_reference)
    moreover have "\<not> from_response c c" by (simp add: from_response_def)
    ultimately show ?thesis by (simp add: expand_token_def Expr expand_at_flush [OF flat])
  qed
  then show ?case by (simp add: adds_each)
qed

text \<open>The names of each text are among the names found, and each name found has its value.\<close>

lemma set_foldl_jsadd: "set (foldl jsadd fo ns) = set fo \<union> set ns"
  by (induction ns arbitrary: fo) (auto simp: set_jsadd)

lemma names_in_texts_mono: "names_in_texts s ts fo = Inr names \<Longrightarrow> set fo \<subseteq> set names"
proof (induction ts arbitrary: fo)
  case (Cons t ts)
  then show ?case by (fastforce simp: bind_result_Inr_iff set_foldl_jsadd split: if_splits)
qed simp

lemma names_in_texts_member:
  assumes "names_in_texts s ts fo = Inr names" "t \<in> set ts" "has_substring t ''${''"
  shows "\<exists>ns. secret_names_in t (Some s) = Inr ns \<and> set ns \<subseteq> set names"
  using assms(1,2)
proof (induction ts arbitrary: fo)
  case (Cons u us)
  show ?case
  proof (cases "t = u")
    case True
    then obtain ns where "secret_names_in t (Some s) = Inr ns" "names_in_texts s us (foldl jsadd fo ns) = Inr names"
      using Cons.prems(1) assms(3) by (auto simp: bind_result_Inr_iff)
    then show ?thesis using names_in_texts_mono [of s us "foldl jsadd fo ns"] by (auto simp: set_foldl_jsadd)
  next
    case False
    then show ?thesis using Cons by (auto simp: bind_result_Inr_iff split: if_splits)
  qed
qed simp

lemma has_expansions_substring: "has_expansions t \<Longrightarrow> has_substring t ''${''"
proof (induction t rule: has_expansions.induct)
  case (1 cs)
  then obtain c cs' where cs: "cs = c # cs'" by (cases cs) (auto simp: has_expansions.simps)
  show ?case
  proof (cases "starts_with cs ''$${''")
    case True
    then show ?thesis unfolding cs by (cases cs') auto
  next
    case False
    then show ?thesis using 1 by (auto simp: cs has_expansions.simps [of "c # cs'"] split: if_splits)
  qed
qed

lemma resolve_secret_tokens_values:
  assumes "resolve_secret_tokens get ns vs = Inr vs'"
  shows "(\<forall>n. n \<in> set ns \<or> jshas vs n \<longrightarrow> jshas vs' n) \<and>
    (\<forall>n v. jsget vs' n = Some v \<longrightarrow> jsget vs n = Some v \<or> get (''secret:'' @ n) = Some v)"
  using assms
proof (induction ns arbitrary: vs)
  case (Cons n ns)
  show ?case
  proof (cases "jshas vs n")
    case True
    then show ?thesis using Cons by fastforce
  next
    case False
    then obtain v where v: "get (''secret:'' @ n) = Some v" "resolve_secret_tokens get ns (jsset vs n v) = Inr vs'"
      using Cons.prems by (auto split: option.splits)
    then show ?thesis using Cons.IH [OF v(2)] by (auto simp: jsget_jsset split: if_splits)
  qed
qed simp

lemma with_secrets_lookups:
  assumes "with_secrets get input scopes = Inr s"
  shows "(sc \<noteq> Secret \<longrightarrow> lookup_in_scope sc name s = lookup_in_scope sc name scopes) \<and>
    lookup_shorthand name s = lookup_shorthand name scopes"
proof -
  obtain q where "s = scopes\<lparr>ps_secrets := q\<rparr>"
    using assms by (auto simp: with_secrets_def bind_result_Inr_iff split: sum.splits if_splits)
      (metis property_scopes.surjective property_scopes.update_convs(6))+
  then show ?thesis by (simp add: lookup_in_scope_def lookup_shorthand_def cong: option.case_cong split: scope.split)
qed

text \<open>C15: What a send needs is found before it: once the secrets of an input are loaded, no text of the input wants a
  secret that was not, however its references lead there through the properties, as long as no reference is built
  from another and no secret holds a reference; a secret that has no value stops the send before that.\<close>

theorem secrets_found_beforehand:
  assumes "with_secrets get input scopes = Inr s" "t \<in> set (texts_of input)"
    and "plain_text t" "plain_scopes scopes" "\<And>r v. get r = Some v \<Longrightarrow> \<not> has_expansions v"
    and "expand gen s \<lparr>eo_max_depth = None, eo_entitize = en\<rparr> d t = Inr (r, c)" "u \<in> set (er_unresolved r)"
  shows "\<not> (ur_scope u = Some ''Secret'' \<and> ur_code u = Missing \<and> is_secret_name (the (ur_name u)))"
proof -
  let ?c = "\<lparr>ec_unresolved = [], ec_used = [], ec_reads = [],
           ec_dynamic = (case d of Some x \<Rightarrow> x | None \<Rightarrow> new_dynamic_values)\<rparr>"
  let ?en = "case en of Some e \<Rightarrow> e | None \<Rightarrow> False"
  obtain names where names: "names_in_texts scopes (texts_of input) [] = Inr names"
    using assms(1) by (auto simp: with_secrets_def secret_names_in_value_def split: sum.splits)
  have has: "has_secrets s (set names)"
  proof (cases "names = []")
    case False
    then obtain vs where vs: "resolve_secret_tokens get names [] = Inr vs" "s = scopes\<lparr>ps_secrets := Some vs\<rparr>"
      using assms(1) names by (auto simp: with_secrets_def secret_names_in_value_def bind_result_Inr_iff)
    have "\<exists>v. jsget vs n = Some v \<and> \<not> has_expansions v" if "n \<in> set names" for n
      using resolve_secret_tokens_values [OF vs(1)] that assms(5) by fastforce
    then show ?thesis by (fastforce simp: has_secrets_def vs(2) may_be_def member_of_def)
  qed (simp add: has_secrets_def)
  have "adds (\<lambda>u. \<not> wanting u) ?c (expand_at gen s ?en DEFAULT_MAX_DEPTH t [] None [] ?c)"
  proof (cases "has_expansions t")
    case False
    then show ?thesis by (simp add: expand_at_no_reference adds_nothing)
  next
    case True
    then obtain ns where ns: "visit_secrets (Some scopes) (DEFAULT_MAX_DEPTH + 1) t [] [] = Inr ns" "set ns \<subseteq> set names"
      using names_in_texts_member [OF names assms(2) has_expansions_substring] unfolding secret_names_in_def by blast
    show ?thesis
      using with_secrets_lookups [OF assms(1)] by (intro expand_at_wants_nothing [OF has _ _ assms(4,3) ns(1) _ ns(2)]) simp_all
  qed
  then show ?thesis
    using assms(6,7) by (fastforce simp: expand_def bind_result_Inr_iff adds_def list_all_iff wanting_def)
qed

lemma secrets_found_beforehand_witness:
  "\<exists>s r c. with_secrets (\<lambda>ref. if ref = ''secret:key'' then Some ''hidden'' else None)
       (Object_value [(''url'', Text_value ''${base}/x'')]) (no_scopes\<lparr>ps_project := [(''base'', ''a?k=${secret:key}'')]\<rparr>) = Inr s
     \<and> expand no_generators s \<lparr>eo_max_depth = None, eo_entitize = None\<rparr> None ''${base}/x'' = Inr (r, c)
     \<and> er_text r = ''a?k=hidden/x''
     \<and> (\<forall>u \<in> set (er_unresolved r). \<not> (ur_scope u = Some ''Secret'' \<and> ur_code u = Missing \<and> is_secret_name (the (ur_name u))))"
proof -
  define get where "get = (\<lambda>ref. if ref = ''secret:key'' then Some ''hidden'' else None)"
  define input where "input = Object_value [(''url'', Text_value ''${base}/x'')]"
  define sc where "sc = no_scopes\<lparr>ps_project := [(''base'', ''a?k=${secret:key}'')]\<rparr>"
  define s where "s = sc\<lparr>ps_secrets := Some [(''key'', ''hidden'')]\<rparr>"
  have w: "with_secrets get input sc = Inr s" unfolding get_def input_def sc_def s_def by code_simp
  have t: "''${base}/x'' \<in> set (texts_of input)" by (simp add: input_def)
  have p: "plain_text ''${base}/x''" "plain_scopes sc" unfolding sc_def by code_simp+
  have g: "\<not> has_expansions v" if "get ref = Some v" for ref v
  proof -
    have "v = ''hidden''" using that by (simp add: get_def split: if_splits)
    moreover have "\<not> has_expansions ''hidden''" by code_simp
    ultimately show ?thesis by simp
  qed
  define e where "e = expand no_generators s \<lparr>eo_max_depth = None, eo_entitize = None\<rparr> None ''${base}/x''"
  have shown: "map_sum id (er_text \<circ> fst) e = Inr ''a?k=hidden/x''" unfolding e_def s_def sc_def by code_simp
  then obtain r c where e: "e = Inr (r, c)" "er_text r = ''a?k=hidden/x''" by (cases e) auto
  have "\<forall>u \<in> set (er_unresolved r). \<not> (ur_scope u = Some ''Secret'' \<and> ur_code u = Missing \<and> is_secret_name (the (ur_name u)))"
  proof
    fix u assume u: "u \<in> set (er_unresolved r)"
    show "\<not> (ur_scope u = Some ''Secret'' \<and> ur_code u = Missing \<and> is_secret_name (the (ur_name u)))"
      by (rule secrets_found_beforehand [OF w t p _ e(1) [unfolded e_def] u]) (rule g)
  qed
  then show ?thesis using w e unfolding get_def input_def sc_def e_def by blast
qed

end
