(* ===== verification/Masking.thy ===== *)
theory Masking
  imports Utf8 Expansion "HOL-Library.Sublist"
begin

text \<open>
  The masker of known secret values (\<^verbatim>\<open>packages/core/src/redact/literal.ts\<close>): the forms a value takes on the wire,
  every place of a text where one stands, and the text with those places replaced by a marker. Texts are
  strings of Unicode scalars; \<open>decode64\<close> stands for the runtime's \<^verbatim>\<open>Buffer.from(s, 'base64').toString('utf8')\<close>.
\<close>

section \<open>The forms of a value\<close>

definition REDACTED_MARKER :: ustring where
  "REDACTED_MARKER = ustring_of ''<redacted>''"

definition REDACTED_XML_MARKER :: ustring where
  "REDACTED_XML_MARKER = ustring_of ''&lt;redacted&gt;''"

definition MIN_MASKED_LENGTH :: nat where
  "MIN_MASKED_LENGTH = 4"

text \<open>\<^verbatim>\<open>length\<close> counts UTF-16 units.\<close>

definition units :: "ustring \<Rightarrow> nat" where
  "units s = sum_list (map (\<lambda>c. if c < 0x10000 then 1 else 2) s)"

definition is_word :: "nat \<Rightarrow> bool" where
  "is_word c \<longleftrightarrow> 48 \<le> c \<and> c \<le> 57 \<or> 65 \<le> c \<and> c \<le> 90 \<or> 97 \<le> c \<and> c \<le> 122 \<or> c = 95"

definition is_one_of :: "string \<Rightarrow> nat \<Rightarrow> bool" where
  "is_one_of s c \<longleftrightarrow> c \<in> set (ustring_of s)"

definition upper_hex :: "nat \<Rightarrow> nat" where
  "upper_hex n = (if n < 10 then 48 + n else 55 + n)"

definition percent :: "byte \<Rightarrow> ustring" where
  "percent b = [37, upper_hex (unat b div 16), upper_hex (unat b mod 16)]"

definition replace_each :: "(nat \<Rightarrow> bool) \<Rightarrow> (nat \<Rightarrow> ustring) \<Rightarrow> ustring \<Rightarrow> ustring" where
  "replace_each p r s = concat (map (\<lambda>c. if p c then r c else [c]) s)"

definition encode_uri_component :: "ustring \<Rightarrow> ustring" where
  "encode_uri_component =
     replace_each (\<lambda>c. \<not> (is_word c \<or> is_one_of ''-.!~*'' c \<or> c = 39 \<or> c = 40 \<or> c = 41)) (\<lambda>c. concat (map percent (utf8_char c)))"

text \<open>\<^verbatim>\<open>/%20/g\<close> to \<^verbatim>\<open>+\<close>, in text where every percent sign starts an escape.\<close>

fun plus_for_space :: "ustring \<Rightarrow> ustring" where
  "plus_for_space (a # b # c # s) =
     (if a = 37 \<and> b = 50 \<and> c = 48 then 43 # plus_for_space s else a # plus_for_space (b # c # s))"
| "plus_for_space s = s"

definition form_encoded :: "ustring \<Rightarrow> ustring" where
  "form_encoded v = plus_for_space (replace_each (\<lambda>c. is_one_of ''!*'' c \<or> c = 39 \<or> c = 40 \<or> c = 41)
     (\<lambda>c. percent (byte_of c)) (encode_uri_component v))"

text \<open>\<^verbatim>\<open>URLSearchParams\<close>' serialisation of one value.\<close>

definition search_param :: "ustring \<Rightarrow> ustring" where
  "search_param = replace_each (\<lambda>c. \<not> (is_word c \<or> is_one_of ''*-.'' c))
     (\<lambda>c. if c = 32 then [43] else concat (map percent (utf8_char c)))"

definition replace_unit :: "nat \<Rightarrow> string \<Rightarrow> ustring \<Rightarrow> ustring" where
  "replace_unit c r = replace_each (\<lambda>x. x = c) (\<lambda>x. ustring_of r)"

definition xml3 :: "ustring \<Rightarrow> ustring" where
  "xml3 v = replace_unit 62 ''&gt;'' (replace_unit 60 ''&lt;'' (replace_unit 38 ''&amp;'' v))"

definition xml5 :: "ustring \<Rightarrow> ustring" where
  "xml5 v = replace_unit 39 ''&apos;'' (replace_unit 34 ''&quot;'' (xml3 v))"

text \<open>\<^verbatim>\<open>JSON.stringify\<close> of a string, without the quotes around it.\<close>

definition json_escape :: "nat \<Rightarrow> ustring" where
  "json_escape c =
     (if c = 34 then [92, 34] else if c = 92 then [92, 92]
      else if c = 8 then [92, 98] else if c = 12 then [92, 102] else if c = 10 then [92, 110]
      else if c = 13 then [92, 114] else if c = 9 then [92, 116]
      else if c < 32 then ustring_of (CHR 0x5C # ''u00'' @ hex_byte c) else [c])"

definition json_content :: "ustring \<Rightarrow> ustring" where
  "json_content s = concat (map json_escape s)"

definition encoded_forms :: "ustring \<Rightarrow> ustring list" where
  "encoded_forms v =
     [encode_uri_component v, form_encoded v, search_param v, xml3 v, xml5 v, json_content v]"

definition needles_of :: "ustring list \<Rightarrow> ustring list" where
  "needles_of plain =
     foldl (\<lambda>ns v. foldl (\<lambda>ms f. if units f \<ge> MIN_MASKED_LENGTH then jsadd ms f else ms) (jsadd ns v) (encoded_forms v)) [] plain"

section \<open>Ranges\<close>

text \<open>A span of the text, the end exclusive.\<close>

type_synonym range = "nat \<times> nat"

definition slice :: "nat \<Rightarrow> nat \<Rightarrow> 'a list \<Rightarrow> 'a list" where
  "slice a b t = take (b - a) (drop a t)"

text \<open>Every occurrence, overlapping ones included; a needle is never empty.\<close>

definition needle_ranges :: "ustring \<Rightarrow> ustring list \<Rightarrow> range list" where
  "needle_ranges t needles =
     concat (map (\<lambda>n. map (\<lambda>i. (i, i + length n)) (filter (\<lambda>i. starts_with (drop i t) n) [0..<length t])) needles)"

definition is_base64 :: "nat \<Rightarrow> bool" where
  "is_base64 c \<longleftrightarrow> is_word c \<and> c \<noteq> 95 \<or> c = 43 \<or> c = 47 \<or> c = 61"

text \<open>\<^verbatim>\<open>\s\<close> of a regular expression.\<close>

definition is_space :: "nat \<Rightarrow> bool" where
  "is_space c \<longleftrightarrow> 9 \<le> c \<and> c \<le> 13 \<or> c \<in> {32, 160, 0x1680, 0x2028, 0x2029, 0x202F, 0x205F, 0x3000, 0xFEFF} \<or> 0x2000 \<le> c \<and> c \<le> 0x200A"

text \<open>\<open>Basic\<close>, white space and a run of base64 at the head of a text: how long both are, and the run.\<close>

definition basic_at :: "ustring \<Rightarrow> (nat \<times> ustring) option" where
  "basic_at s =
     (let rest = drop 5 s; run = takeWhile is_base64 (dropWhile is_space rest) in
      if starts_with s (ustring_of ''Basic'') \<and> takeWhile is_space rest \<noteq> []
      then Some (5 + length (takeWhile is_space rest) + length run, run) else None)"

lemma basic_at_pos: "basic_at s = Some (n, run) \<Longrightarrow> 0 < n"
  by (auto simp: basic_at_def Let_def split: if_splits)

text \<open>\<^verbatim>\<open>matchAll\<close> from position \<open>i\<close> on; \<open>inside\<close> when the character before it is a word character, where \<^verbatim>\<open>\b\<close> does not match.\<close>

function basic_ranges :: "(ustring \<Rightarrow> ustring) \<Rightarrow> ustring list \<Rightarrow> nat \<Rightarrow> bool \<Rightarrow> ustring \<Rightarrow> range list" where
  "basic_ranges decode64 plain i inside s =
     (if s = [] then []
      else case (if inside then None else basic_at s) of
          None \<Rightarrow> basic_ranges decode64 plain (i + 1) (is_word (hd s)) (tl s)
        | Some (n, run) \<Rightarrow>
            if length run < 8 then basic_ranges decode64 plain (i + 1) (is_word (hd s)) (tl s)
            else (if list_ex (has_substring (decode64 run)) plain then [(i + n - length run, i + n)] else []) @
                 basic_ranges decode64 plain (i + n) (is_word (last run)) (drop n s))"
  by pat_completeness auto
termination
  by (relation "measure (\<lambda>(d, p, i, b, s). length s)") (auto split: if_splits dest: basic_at_pos)

declare basic_ranges.simps [simp del]

text \<open>\<^verbatim>\<open>/\bBasic\s+([A-Za-z0-9+/=]+)$/\<close>: how long the run at the end is.\<close>

definition cut_basic :: "ustring \<Rightarrow> nat option" where
  "cut_basic head =
     (let run = takeWhile is_base64 (rev head); rest = dropWhile is_base64 (rev head); before = dropWhile is_space rest in
      if run \<noteq> [] \<and> takeWhile is_space rest \<noteq> [] \<and> starts_with before (rev (ustring_of ''Basic'')) \<and>
         (drop 5 before = [] \<or> \<not> is_word (hd (drop 5 before)))
      then Some (length run) else None)"

definition longest_cut :: "ustring \<Rightarrow> ustring list \<Rightarrow> nat" where
  "longest_cut head needles =
     foldl (\<lambda>longest n.
       case find (\<lambda>l. drop (length head - l) head = take l n) (rev [Suc longest ..< Suc (min (length n - 1) (length head))]) of
         Some l \<Rightarrow> l | None \<Rightarrow> longest) 0 needles"

definition cut_tail_length :: "ustring \<Rightarrow> ustring list \<Rightarrow> nat" where
  "cut_tail_length head needles = (case cut_basic head of Some l \<Rightarrow> l | None \<Rightarrow> longest_cut head needles)"

definition CUT_MARKER :: nat where
  "CUT_MARKER = 0x2026"

primrec back_over :: "ustring \<Rightarrow> nat \<Rightarrow> nat \<Rightarrow> nat" where
  "back_over t start 0 = 0"
| "back_over t start (Suc e) = (if Suc e > start \<and> t ! e = 0xFFFD then back_over t start e else Suc e)"

text \<open>One range for each cut that was made inside a needle; \<open>start\<close> is the end of the cut before.\<close>

fun cut_prefix_ranges :: "ustring \<Rightarrow> ustring list \<Rightarrow> nat \<Rightarrow> nat list \<Rightarrow> range list" where
  "cut_prefix_ranges t needles start [] = []"
| "cut_prefix_ranges t needles start (a # cuts) =
     (let e = back_over t start (if a > start \<and> t ! (a - 1) = 10 then a - 1 else a);
          l = cut_tail_length (slice start e t) needles in
      (if l > 0 then [(e - l, e)] else []) @ cut_prefix_ranges t needles (a + 1) cuts)"

section \<open>Masking\<close>

fun replace_from :: "'a list \<Rightarrow> 'a list \<Rightarrow> 'a list \<Rightarrow> nat \<Rightarrow> range \<Rightarrow> range list \<Rightarrow> 'a list" where
  "replace_from t marker out kept current [] = out @ slice kept (fst current) t @ marker @ drop (snd current) t"
| "replace_from t marker out kept current (r # rs) =
     (if fst r \<le> snd current then replace_from t marker out kept (fst current, max (snd current) (snd r)) rs
      else replace_from t marker (out @ slice kept (fst current) t @ marker) (snd current) r rs)"

definition replace_ranges :: "'a list \<Rightarrow> range list \<Rightarrow> 'a list \<Rightarrow> 'a list" where
  "replace_ranges t ranges marker =
     (case sort_key fst ranges of [] \<Rightarrow> t | r # rs \<Rightarrow> replace_from t marker [] 0 r rs)"

definition create_secret_masker ::
    "(ustring \<Rightarrow> ustring) \<Rightarrow> ustring list \<Rightarrow> ustring option \<Rightarrow> ustring \<Rightarrow> ustring" where
  "create_secret_masker decode64 values marker t =
     (let plain = filter (\<lambda>v. units v \<ge> MIN_MASKED_LENGTH) values; needles = needles_of plain in
      replace_ranges t
        (basic_ranges decode64 plain 0 False t @ needle_ranges t needles @
         cut_prefix_ranges t needles 0 (filter (\<lambda>i. t ! i = CUT_MARKER) [0..<length t]))
        (case marker of Some m \<Rightarrow> m | None \<Rightarrow> REDACTED_MARKER))"

section \<open>Nothing known stays\<close>

text \<open>What is kept of the text lies outside every range.\<close>

definition kept_piece :: "'a list \<Rightarrow> range list \<Rightarrow> nat \<Rightarrow> 'a list \<Rightarrow> bool" where
  "kept_piece t rs from p \<longleftrightarrow> (\<exists>a b. from \<le> a \<and> p = slice a b t \<and> (\<forall>r \<in> set rs. snd r \<le> a \<or> b \<le> fst r))"

lemma kept_pieceD:
  "kept_piece t rs from p \<Longrightarrow> from' \<le> from \<Longrightarrow> (\<And>r a b. r \<in> set rs' \<Longrightarrow> from \<le> a \<Longrightarrow>
     \<forall>q \<in> set rs. snd q \<le> a \<or> b \<le> fst q \<Longrightarrow> snd r \<le> a \<or> b \<le> fst r) \<Longrightarrow> kept_piece t rs' from' p"
proof -
  assume k: "kept_piece t rs from p" and f: "from' \<le> from" and h: "\<And>r a b. r \<in> set rs' \<Longrightarrow> from \<le> a \<Longrightarrow>
     \<forall>q \<in> set rs. snd q \<le> a \<or> b \<le> fst q \<Longrightarrow> snd r \<le> a \<or> b \<le> fst r"
  obtain a b where p: "from \<le> a" "p = slice a b t" "\<forall>r \<in> set rs. snd r \<le> a \<or> b \<le> fst r"
    using k by (auto simp: kept_piece_def)
  have "\<forall>r \<in> set rs'. snd r \<le> a \<or> b \<le> fst r" using h [OF _ p(1,3)] by blast
  then show ?thesis using p(1,2) f unfolding kept_piece_def by (intro exI [of _ a] exI [of _ b]) simp
qed

lemma replace_from_pieces:
  assumes "sorted (map fst (c # rs))" "kept \<le> fst c" "\<forall>r \<in> set (c # rs). fst r \<le> snd r"
  shows "\<exists>ps. replace_from t marker out kept c rs = out @ join marker ps \<and> ps \<noteq> [] \<and> list_all (kept_piece t (c # rs) kept) ps"
  using assms
proof (induction rs arbitrary: out kept c)
  case Nil
  have "kept_piece t [c] kept (slice kept (fst c) t)" by (auto simp: kept_piece_def)
  moreover have "kept_piece t [c] kept (drop (snd c) t)"
    using Nil unfolding kept_piece_def
    by (intro exI [of _ "snd c"] exI [of _ "length t"]) (auto simp: slice_def)
  ultimately show ?case by (intro exI [of _ "[slice kept (fst c) t, drop (snd c) t]"]) simp
next
  case (Cons r rs)
  show ?case
  proof (cases "fst r \<le> snd c")
    case True
    let ?c = "(fst c, max (snd c) (snd r))"
    obtain ps where ps: "replace_from t marker out kept ?c rs = out @ join marker ps" "ps \<noteq> []"
        "list_all (kept_piece t (?c # rs) kept) ps"
    proof -
      have "\<exists>ps. replace_from t marker out kept ?c rs = out @ join marker ps \<and> ps \<noteq> [] \<and>
          list_all (kept_piece t (?c # rs) kept) ps"
        by (rule Cons.IH) (use Cons.prems in \<open>auto simp: le_max_iff_disj\<close>)
      then show ?thesis using that by blast
    qed
    have "kept_piece t (c # r # rs) kept p" if "kept_piece t (?c # rs) kept p" for p
      using that Cons.prems(1) by (rule_tac kept_pieceD [OF that order_refl]) auto
    then show ?thesis using ps True by (intro exI [of _ ps]) (auto simp: list_all_iff)
  next
    case False
    let ?p = "slice kept (fst c) t"
    obtain ps where ps: "replace_from t marker (out @ ?p @ marker) (snd c) r rs = (out @ ?p @ marker) @ join marker ps" "ps \<noteq> []"
        "list_all (kept_piece t (r # rs) (snd c)) ps"
      using Cons.IH [of r "snd c" "out @ ?p @ marker"] Cons.prems False by auto
    have "kept_piece t (c # r # rs) kept ?p" unfolding kept_piece_def
      by (rule exI [of _ kept], rule exI [of _ "fst c"]) (use Cons.prems in auto)
    moreover have "kept_piece t (c # r # rs) kept p" if "kept_piece t (r # rs) (snd c) p" for p
      using Cons.prems by (rule_tac kept_pieceD [OF that]) auto
    ultimately show ?thesis using ps False by (intro exI [of _ "?p # ps"]) (auto simp: list_all_iff)
  qed
qed

lemma replace_ranges_pieces:
  assumes "\<forall>r \<in> set ranges. fst r \<le> snd r"
  shows "\<exists>ps. replace_ranges t ranges marker = join marker ps \<and> ps \<noteq> [] \<and> list_all (kept_piece t ranges 0) ps"
proof (cases "sort_key fst ranges")
  case Nil
  then have "ranges = []" by (metis length_0_conv length_sort)
  then have "kept_piece t ranges 0 t"
    unfolding kept_piece_def by (intro exI [of _ 0] exI [of _ "length t"]) (simp add: slice_def)
  then show ?thesis using Nil by (intro exI [of _ "[t]"]) (simp add: replace_ranges_def)
next
  case (Cons r rs)
  have s: "set (r # rs) = set ranges" using Cons by (metis set_sort)
  have "sorted (map fst (r # rs))" using Cons by (metis sorted_sort_key)
  then obtain ps where "replace_from t marker [] 0 r rs = [] @ join marker ps" "ps \<noteq> []" "list_all (kept_piece t (r # rs) 0) ps"
    using replace_from_pieces [of r rs 0 t marker "[]"] assms s by auto
  moreover have "kept_piece t (r # rs) 0 = kept_piece t ranges 0" by (rule ext) (simp only: kept_piece_def s)
  ultimately show ?thesis using Cons by (auto simp: replace_ranges_def)
qed

text \<open>Every way the masker ranges are made gives a start that is not after its end.\<close>

lemma basic_ranges_ordered: "r \<in> set (basic_ranges d plain i inside s) \<Longrightarrow> fst r \<le> snd r"
proof (induction d plain i inside s rule: basic_ranges.induct)
  case (1 d plain i inside s)
  show ?case
  proof (cases "s = []")
    case True
    then show ?thesis using "1.prems" by (simp add: basic_ranges.simps)
  next
    case ne: False
    show ?thesis
    proof (cases "if inside then None else basic_at s")
      case None
      then show ?thesis using "1.prems" "1.IH"(1) [OF ne None] ne by (simp add: basic_ranges.simps [of d plain i inside s])
    next
      case (Some nr)
      obtain n run where nr: "nr = (n, run)" by (cases nr)
      show ?thesis
      proof (cases "length run < 8")
        case True
        then show ?thesis using "1.prems" "1.IH"(2) [OF ne Some nr [symmetric] True] ne Some nr
          by (simp add: basic_ranges.simps [of d plain i inside s])
      next
        case False
        then show ?thesis using "1.prems" "1.IH"(3) [OF ne Some nr [symmetric] False] ne Some nr
          by (auto simp: basic_ranges.simps [of d plain i inside s] split: if_splits)
      qed
    qed
  qed
qed

lemma cut_prefix_ranges_ordered: "r \<in> set (cut_prefix_ranges t needles start cuts) \<Longrightarrow> fst r \<le> snd r"
  by (induction t needles start cuts rule: cut_prefix_ranges.induct) (auto simp: Let_def split: if_splits)

lemma needle_ranges_mem:
  "n \<in> set needles \<Longrightarrow> n \<noteq> [] \<Longrightarrow> starts_with (drop i t) n \<Longrightarrow> (i, i + length n) \<in> set (needle_ranges t needles)"
proof -
  assume n: "n \<in> set needles" "n \<noteq> []" and s: "starts_with (drop i t) n"
  have "i < length t" using n(2) s by (cases "i < length t") (auto simp: starts_with_def)
  then show ?thesis using n(1) s by (fastforce simp: needle_ranges_def)
qed

text \<open>A needle that stood in a kept piece would have a range inside it.\<close>

lemma kept_piece_clean:
  assumes "kept_piece t rs from p" "set (needle_ranges t needles) \<subseteq> set rs" "n \<in> set needles" "n \<noteq> []"
  shows "\<not> sublist n p"
proof
  assume "sublist n p"
  then obtain pre post where p: "p = pre @ n @ post" by (auto simp: sublist_def)
  obtain a b where ab: "p = slice a b t" "\<forall>r \<in> set rs. snd r \<le> a \<or> b \<le> fst r" using assms(1) by (auto simp: kept_piece_def)
  have "drop (a + length pre) t = drop (length pre) (drop a t)" by (simp add: add.commute)
  also have "take (length n) \<dots> = n"
  proof -
    have "take (length n) (drop (length pre) p) = n" by (simp add: p)
    then have "take (length n) (drop (length pre) (take (b - a) (drop a t))) = n" by (simp add: ab(1) slice_def)
    moreover have "length pre + length n \<le> b - a"
    proof -
      have "length p \<le> b - a" by (simp add: ab(1) slice_def)
      then show ?thesis by (simp add: p)
    qed
    then have "length n \<le> b - (a + length pre)" by simp
    ultimately show ?thesis by (simp add: drop_take min_def add.commute)
  qed
  finally have "starts_with (drop (a + length pre) t) n" by (simp add: starts_with_def)
  then have "(a + length pre, a + length pre + length n) \<in> set rs" using needle_ranges_mem [OF assms(3,4)] assms(2) by blast
  then have "a + length pre + length n \<le> a \<or> b \<le> a + length pre" using ab(2) by fastforce
  moreover have "length p \<le> b - a" by (simp add: ab(1) slice_def)
  ultimately show False using assms(4) by (cases n) (auto simp: p)
qed

lemma units_pos: "units v \<ge> MIN_MASKED_LENGTH \<Longrightarrow> v \<noteq> []"
  by (auto simp: units_def MIN_MASKED_LENGTH_def)

lemma needles_of_mem:
  assumes "v \<in> set plain" "f = v \<or> f \<in> set (encoded_forms v) \<and> units f \<ge> MIN_MASKED_LENGTH"
  shows "f \<in> set (needles_of plain)"
proof -
  have inner: "set (foldl (\<lambda>ms f. if units f \<ge> MIN_MASKED_LENGTH then jsadd ms f else ms) ms fs) =
      set ms \<union> {f \<in> set fs. units f \<ge> MIN_MASKED_LENGTH}" for ms fs
    by (induction fs arbitrary: ms) (auto simp: set_jsadd)
  have "set (foldl (\<lambda>ns v. foldl (\<lambda>ms f. if units f \<ge> MIN_MASKED_LENGTH then jsadd ms f else ms) (jsadd ns v) (encoded_forms v)) ns vs) =
      set ns \<union> set vs \<union> (\<Union>v \<in> set vs. {f \<in> set (encoded_forms v). units f \<ge> MIN_MASKED_LENGTH})" for ns vs
    by (induction vs arbitrary: ns) (auto simp: inner set_jsadd)
  then show ?thesis using assms by (auto simp: needles_of_def)
qed

text \<open>A word without a letter \<open>c\<close> stands on one side of every \<open>c\<close>.\<close>

lemma sublist_split_at:
  assumes "sublist v (xs @ c # ys)" "c \<notin> set v"
  shows "sublist v xs \<or> sublist v ys"
proof -
  obtain p q where e: "xs @ c # ys = p @ v @ q" using assms(1) by (auto simp: sublist_def)
  show ?thesis
  proof (cases "length p + length v \<le> length xs")
    case True
    then have "xs = p @ v @ take (length xs - length p - length v) q"
      using arg_cong [OF e, of "take (length xs)"] by simp
    then show ?thesis by (metis sublist_appendI)
  next
    case False
    have "length p > length xs"
    proof (rule ccontr)
      assume "\<not> length xs < length p"
      then have l: "\<not> length xs < length p" "length xs - length p < length v" using False by linarith+
      then have "(p @ v @ q) ! length xs = v ! (length xs - length p)" by (simp add: nth_append)
      moreover have "(p @ v @ q) ! length xs = c" by (simp add: e [symmetric])
      ultimately show False using assms(2) l(2) by (metis nth_mem)
    qed
    then have "ys = drop (Suc (length xs)) p @ v @ q"
      using arg_cong [OF e, of "drop (Suc (length xs))"] by simp
    then show ?thesis by (metis sublist_appendI)
  qed
qed

lemma sublist_join:
  assumes "sublist v (join (c # inner @ [d]) ps)" "c \<notin> set v" "d \<notin> set v" "\<not> sublist v inner"
  shows "\<exists>p \<in> set ps. sublist v p"
  using assms(1)
proof (induction ps)
  case Nil
  then have "v = []" by (simp add: sublist_def)
  then show ?case using assms(4) by simp
next
  case (Cons x ps)
  show ?case
  proof (cases "ps = []")
    case True
    then show ?thesis using Cons.prems by simp
  next
    case False
    then have "sublist v (x @ c # (inner @ d # join (c # inner @ [d]) ps))" using Cons.prems by simp
    then have "sublist v x \<or> sublist v (inner @ d # join (c # inner @ [d]) ps)" by (rule sublist_split_at) (rule assms(2))
    then have "sublist v x \<or> sublist v inner \<or> sublist v (join (c # inner @ [d]) ps)"
      using sublist_split_at [of v inner d] assms(3) by blast
    then show ?thesis using Cons.IH assms(4) by auto
  qed
qed

text \<open>C6: Masking hides what it knows: of a text that has gone through the masker nothing is left but pieces of it around
  markers, and in no piece stands a known value of the masked length, or one of the forms it takes in a URL, a form, XML
  or JSON; so a value or form without angle brackets, and that is not a piece of the marker's word, stands nowhere in the
  masked text.\<close>

theorem masked_text_hides_secrets:
  assumes "v \<in> set values" "units v \<ge> MIN_MASKED_LENGTH"
    and "f = v \<or> f \<in> set (encoded_forms v) \<and> units f \<ge> MIN_MASKED_LENGTH"
  shows "(\<exists>ps. create_secret_masker decode64 values None t = join REDACTED_MARKER ps \<and>
      (\<forall>p \<in> set ps. sublist p t \<and> \<not> sublist f p))
    \<and> (60 \<notin> set f \<and> 62 \<notin> set f \<and> \<not> sublist f (ustring_of ''redacted'') \<longrightarrow>
       \<not> sublist f (create_secret_masker decode64 values None t))"
proof -
  define plain where "plain = filter (\<lambda>v. units v \<ge> MIN_MASKED_LENGTH) values"
  define needles where "needles = needles_of plain"
  define ranges where "ranges = basic_ranges decode64 plain 0 False t @ needle_ranges t needles @
        cut_prefix_ranges t needles 0 (filter (\<lambda>i. t ! i = CUT_MARKER) [0..<length t])"
  have m: "create_secret_masker decode64 values None t = replace_ranges t ranges REDACTED_MARKER"
    by (simp add: create_secret_masker_def Let_def ranges_def needles_def plain_def)
  have "\<forall>r \<in> set ranges. fst r \<le> snd r"
    by (auto simp: ranges_def needle_ranges_def dest: basic_ranges_ordered cut_prefix_ranges_ordered)
  then obtain ps where ps: "replace_ranges t ranges REDACTED_MARKER = join REDACTED_MARKER ps" "list_all (kept_piece t ranges 0) ps"
    using replace_ranges_pieces by blast
  have f: "f \<in> set needles" "f \<noteq> []"
    using needles_of_mem [of v plain f] assms units_pos by (auto simp: needles_def plain_def)
  have sub: "set (needle_ranges t needles) \<subseteq> set ranges" by (auto simp: ranges_def)
  have clean: "\<not> sublist f p" if "p \<in> set ps" for p
  proof (rule kept_piece_clean [OF _ sub f])
    show "kept_piece t ranges 0 p" using ps(2) that by (simp add: list_all_iff)
  qed
  have piece: "sublist p t" if "p \<in> set ps" for p
  proof -
    have "kept_piece t ranges 0 p" using ps(2) that by (simp add: list_all_iff)
    then obtain a b where "p = slice a b t" by (auto simp: kept_piece_def)
    then have "t = take a t @ p @ drop (b - a) (drop a t)" unfolding slice_def by (metis append_take_drop_id)
    then show ?thesis by (metis sublist_appendI)
  qed
  have marker: "REDACTED_MARKER = 60 # ustring_of ''redacted'' @ [62]" by (simp add: REDACTED_MARKER_def ustring_of_def)
  have "\<not> sublist f (join REDACTED_MARKER ps)"
    if "60 \<notin> set f" "62 \<notin> set f" "\<not> sublist f (ustring_of ''redacted'')"
    using sublist_join [of f 60 "ustring_of ''redacted''" 62 ps] clean that unfolding marker by blast
  then show ?thesis using ps(1) clean piece unfolding m by auto
qed

lemma masked_text_hides_secrets_witness:
  "\<not> sublist (ustring_of ''hunter2!'') (create_secret_masker id [ustring_of ''hunter2!''] None (ustring_of ''a=hunter2!hunter2!&b''))"
proof -
  have "units (ustring_of ''hunter2!'') \<ge> MIN_MASKED_LENGTH" by (simp add: units_def MIN_MASKED_LENGTH_def ustring_of_def)
  moreover have "60 \<notin> set (ustring_of ''hunter2!'')" "62 \<notin> set (ustring_of ''hunter2!'')"
    by (simp_all add: ustring_of_def)
  moreover have "\<not> sublist (ustring_of ''hunter2!'') (ustring_of ''redacted'')" by (simp add: ustring_of_def sublist_code)
  ultimately show ?thesis
    using masked_text_hides_secrets [of "ustring_of ''hunter2!''" "[ustring_of ''hunter2!'']" "ustring_of ''hunter2!''"] by simp
qed

text \<open>
  A stored secret that holds an escape goes out expanded (see \<open>stored_secret_is_expanded\<close>), and the masker, which knows it as
  it was stored, leaves what went out.
\<close>

lemma expanded_secret_is_not_masked:
  "create_secret_masker id [ustring_of ''pa$${ss''] None (ustring_of ''key=pa${ss'') = ustring_of ''key=pa${ss''"
  by (simp add: create_secret_masker_def Let_def units_def MIN_MASKED_LENGTH_def ustring_of_def needles_of_def encoded_forms_def
      encode_uri_component_def form_encoded_def search_param_def xml3_def xml5_def json_content_def json_escape_def
      replace_unit_def replace_each_def is_word_def is_one_of_def utf8_char_def percent_def upper_hex_def jsadd_def
      needle_ranges_def upt_rec basic_ranges.simps basic_at_def CUT_MARKER_def replace_ranges_def)

end
