(* ===== verification/Stream_Masker.thy ===== *)
theory Stream_Masker
  imports Utf8 Machine
begin

text \<open>
  The masker of a session's output as it streams (\<^verbatim>\<open>packages/ssh/src/stream-masker.ts\<close>): terminal bytes arrive in
  chunks of any size, every occurrence of a known value becomes one mask, and a chunk's tail that may still become a
  value is held back. The state is the code's closure: the values, their bytes, the length of the longest, the bytes
  held and how many of them stand behind a mask already emitted. A reference masks a whole text at once, position by
  position; the routine is an instance of the chunked parsers and gives the reference's text at every chunking.
\<close>

section \<open>The routine\<close>

definition SECRET_MASK :: ustring where
  "SECRET_MASK = [0x2022, 0x2022, 0x2022, 0x2022]"

definition mask_bytes :: bytes where
  "mask_bytes = utf8 SECRET_MASK"

record masker =
  ma_values :: "ustring list"
  ma_needles :: "bytes list"
  ma_longest :: nat
  ma_held :: bytes
  ma_covered :: nat

definition create_stream_masker :: masker where
  "create_stream_masker = \<lparr>ma_values = [], ma_needles = [], ma_longest = 0, ma_held = [], ma_covered = 0\<rparr>"

type_synonym range = "nat \<times> nat"

text \<open>\<^verbatim>\<open>buf.indexOf(needle, from)\<close>, of a needle that is not empty; \<open>None\<close> for -1.\<close>

definition index_of :: "bytes \<Rightarrow> bytes \<Rightarrow> nat \<Rightarrow> nat option" where
  "index_of buf needle k = List.find (\<lambda>i. take (length needle) (drop i buf) = needle) [k..<length buf]"

lemma find_upt_Some:
  assumes "List.find P [a..<b] = Some k"
  shows "a \<le> k \<and> k < b \<and> P k \<and> (\<forall>j. a \<le> j \<and> j < k \<longrightarrow> \<not> P j)"
proof -
  obtain d where d: "d < b - a" "k = a + d" "P k" "\<And>j. j < d \<Longrightarrow> \<not> P (a + j)"
    using assms by (auto simp: find_Some_iff)
  have "\<not> P j" if "a \<le> j" "j < k" for j using d(4) [of "j - a"] d(2) that by simp
  then show ?thesis using d by auto
qed

lemma index_of_Some:
  "index_of buf n k = Some i \<Longrightarrow> k \<le> i \<and> i < length buf \<and> take (length n) (drop i buf) = n \<and>
    (\<forall>j. k \<le> j \<and> j < i \<longrightarrow> take (length n) (drop j buf) \<noteq> n)"
  unfolding index_of_def by (rule find_upt_Some)

function find_all :: "bytes \<Rightarrow> bytes \<Rightarrow> nat \<Rightarrow> range list" where
  "find_all buf needle k =
     (case index_of buf needle k of
        None \<Rightarrow> []
      | Some i \<Rightarrow> (i, i + length needle) # find_all buf needle (i + 1))"
  by pat_completeness auto
termination
  by (relation "measure (\<lambda>(buf, needle, k). length buf - k)") (auto dest!: index_of_Some)

declare find_all.simps [simp del]

text \<open>The step of the merging loop: the list is kept newest first, so \<^verbatim>\<open>merged.at(-1)\<close> is its head.\<close>

fun merge_range :: "range list \<Rightarrow> range \<Rightarrow> range list" where
  "merge_range [] r = [r]"
| "merge_range ((s0, e0) # m) (s, e) = (if s < e0 then (s0, max e0 e) # m else (s, e) # (s0, e0) # m)"

definition found_ranges :: "masker \<Rightarrow> bytes \<Rightarrow> range list" where
  "found_ranges m buf =
     (if ma_covered m > 0 then [(0, ma_covered m)] else []) @ concat (map (\<lambda>n. find_all buf n 0) (ma_needles m))"

definition ranges :: "masker \<Rightarrow> bytes \<Rightarrow> range list" where
  "ranges m buf = rev (foldl merge_range [] (sort_key fst (found_ranges m buf)))"

definition starts_value :: "bytes list \<Rightarrow> bytes \<Rightarrow> bool" where
  "starts_value needles tail \<longleftrightarrow> (\<exists>n \<in> set needles. length n > length tail \<and> take (length tail) n = tail)"

definition hold_from :: "masker \<Rightarrow> bytes \<Rightarrow> nat" where
  "hold_from m buf =
     (case List.find (\<lambda>i. starts_value (ma_needles m) (drop i buf)) [length buf - (ma_longest m - 1)..<length buf] of
        Some i \<Rightarrow> i | None \<Rightarrow> length buf)"

definition subarray :: "'a list \<Rightarrow> nat \<Rightarrow> nat \<Rightarrow> 'a list" where
  "subarray buf i j = drop i (take j buf)"

fun render_from :: "bytes \<Rightarrow> nat \<Rightarrow> nat \<Rightarrow> nat \<Rightarrow> range list \<Rightarrow> bytes" where
  "render_from buf covered up_to i [] = subarray buf i up_to"
| "render_from buf covered up_to i ((s, e) # rs) =
     (if s \<ge> up_to then subarray buf i up_to
      else subarray buf i s @ (if s = 0 \<and> covered > 0 then [] else mask_bytes) @
           render_from buf covered up_to (min e up_to) rs)"

definition render :: "masker \<Rightarrow> bytes \<Rightarrow> range list \<Rightarrow> nat \<Rightarrow> bytes" where
  "render m buf merged up_to = render_from buf (ma_covered m) up_to 0 merged"

definition masker_add :: "ustring list \<Rightarrow> masker \<Rightarrow> masker" where
  "masker_add added m =
     (let vs = foldl jsadd (ma_values m) (filter (\<lambda>v. v \<noteq> []) added); ns = map utf8 vs in
      m\<lparr>ma_values := vs, ma_needles := ns, ma_longest := foldl max 0 (map length ns)\<rparr>)"

definition masker_push :: "masker \<Rightarrow> bytes \<Rightarrow> masker \<times> bytes" where
  "masker_push m chunk =
     (if ma_needles m = [] then (m, chunk)
      else let buf = ma_held m @ chunk; merged = ranges m buf; cut = hold_from m buf; out = render m buf merged cut;
               crossing = List.find (\<lambda>(s, e). (s < cut \<or> (s = 0 \<and> ma_covered m > 0)) \<and> e > cut) merged in
        (m\<lparr>ma_covered := (case crossing of Some (s, e) \<Rightarrow> e - cut | None \<Rightarrow> 0), ma_held := drop cut buf\<rparr>, out))"

definition masker_flush :: "masker \<Rightarrow> masker \<times> bytes" where
  "masker_flush m =
     (if ma_held m = [] then (m, [])
      else (m\<lparr>ma_held := [], ma_covered := 0\<rparr>, render m (ma_held m) (ranges m (ma_held m)) (length (ma_held m))))"

definition masker_holding :: "masker \<Rightarrow> bool" where
  "masker_holding m \<longleftrightarrow> ma_held m \<noteq> []"

datatype masker_op = Add_values "ustring list" | Push_chunk bytes | Flush_held

fun masker_step :: "masker \<Rightarrow> masker_op \<Rightarrow> masker" where
  "masker_step m (Add_values vs) = masker_add vs m"
| "masker_step m (Push_chunk c) = fst (masker_push m c)"
| "masker_step m Flush_held = fst (masker_flush m)"

section \<open>The reference: masking a whole text\<close>

text \<open>
  Where the values stand in a text, and what becomes of the byte at a position: nothing inside an occurrence, the mask
  at its start unless another occurrence runs over it, and itself elsewhere.
\<close>

definition stands_at :: "bytes \<Rightarrow> bytes \<Rightarrow> nat \<Rightarrow> bool" where
  "stands_at n w s \<longleftrightarrow> n \<noteq> [] \<and> take (length n) (drop s w) = n"

definition inside_value :: "bytes list \<Rightarrow> bytes \<Rightarrow> nat \<Rightarrow> bool" where
  "inside_value ns w i \<longleftrightarrow> (\<exists>n \<in> set ns. \<exists>s \<in> set [0..<i]. i < s + length n \<and> stands_at n w s)"

definition begins_value :: "bytes list \<Rightarrow> bytes \<Rightarrow> nat \<Rightarrow> bool" where
  "begins_value ns w i \<longleftrightarrow> (\<exists>n \<in> set ns. stands_at n w i)"

definition mask_position :: "bytes list \<Rightarrow> bytes \<Rightarrow> nat \<Rightarrow> bytes" where
  "mask_position ns w i = (if inside_value ns w i then [] else if begins_value ns w i then mask_bytes else [w ! i])"

definition mask_text :: "bytes list \<Rightarrow> bytes \<Rightarrow> bytes" where
  "mask_text ns w = concat (map (mask_position ns w) [0..<length w])"

section \<open>The ranges\<close>

lemma find_all_set:
  "n \<noteq> [] \<Longrightarrow> set (find_all buf n k) = {(s, s + length n) |s. k \<le> s \<and> stands_at n buf s}"
proof (induction buf n k rule: find_all.induct)
  case (1 buf n k)
  show ?case
  proof (cases "index_of buf n k")
    case None
    then have none: "take (length n) (drop s buf) \<noteq> n" if "k \<le> s" "s < length buf" for s
      using that by (auto simp: index_of_def find_None_iff)
    have "\<not> stands_at n buf s" if "k \<le> s" for s
    proof (cases "s < length buf")
      case False
      then show ?thesis using 1(2) by (simp add: stands_at_def)
    qed (use none that in \<open>simp add: stands_at_def\<close>)
    then show ?thesis using None by (auto simp: find_all.simps [of buf n k])
  next
    case (Some i)
    note i = index_of_Some [OF this]
    have "{(s, s + length n) |s. k \<le> s \<and> stands_at n buf s} =
        insert (i, i + length n) {(s, s + length n) |s. i + 1 \<le> s \<and> stands_at n buf s}"
      using i 1(2) by (auto simp: stands_at_def not_less_eq_eq [symmetric])
    then show ?thesis using Some 1 by (simp add: find_all.simps [of buf n k])
  qed
qed

text \<open>What a list of ranges says of a position.\<close>

definition within :: "range list \<Rightarrow> nat \<Rightarrow> bool" where
  "within rs i \<longleftrightarrow> (\<exists>(s, e) \<in> set rs. s < i \<and> i < e)"

definition opens :: "range list \<Rightarrow> nat \<Rightarrow> bool" where
  "opens rs i \<longleftrightarrow> i \<in> fst ` set rs"

definition apart :: "range list \<Rightarrow> bool" where
  "apart rs \<longleftrightarrow> sorted_wrt (\<lambda>r r'. snd r \<le> fst r') rs \<and> (\<forall>r \<in> set rs. fst r < snd r)"

text \<open>The merging loop keeps what is inside a range and where a range opens, and leaves the ranges apart.\<close>

definition merges :: "range list \<Rightarrow> range list \<Rightarrow> bool" where
  "merges acc rs \<longleftrightarrow> apart (rev acc) \<and> within acc = within rs \<and> (\<forall>i. opens acc i \<longleftrightarrow> opens rs i \<and> \<not> within rs i)"

lemma within_simps [simp]:
  "within [] i = False" "within (r # rs) i = (fst r < i \<and> i < snd r \<or> within rs i)"
  "within (rs @ ss) i = (within rs i \<or> within ss i)"
  by (auto simp: within_def split: prod.splits)

lemma opens_simps [simp]:
  "opens [] i = False" "opens (r # rs) i = (i = fst r \<or> opens rs i)" "opens (rs @ ss) i = (opens rs i \<or> opens ss i)"
  by (auto simp: opens_def)

lemma apart_Cons: "apart (r # rs) \<longleftrightarrow> fst r < snd r \<and> (\<forall>r' \<in> set rs. snd r \<le> fst r') \<and> apart rs"
  by (auto simp: apart_def)

lemma apart_snoc: "apart (rs @ [r]) \<longleftrightarrow> fst r < snd r \<and> (\<forall>r' \<in> set rs. snd r' \<le> fst r) \<and> apart rs"
  by (auto simp: apart_def sorted_wrt_append)

lemma apart_rev_Cons: "apart (rev (r # rs)) \<longleftrightarrow> fst r < snd r \<and> (\<forall>r' \<in> set rs. snd r' \<le> fst r) \<and> apart (rev rs)"
  by (simp only: rev.simps apart_snoc set_rev)

lemma merge_range_merges:
  assumes m: "merges acc rs" and se: "s < e" and last: "\<forall>r \<in> set rs. fst r \<le> s"
  shows "merges (merge_range acc (s, e)) (rs @ [(s, e)])"
proof (cases acc)
  case Nil
  have no: "\<not> opens rs i" for i
  proof
    assume o: "opens rs i"
    define k where "k = (LEAST k. opens rs k)"
    have k: "opens rs k" unfolding k_def using o by (rule LeastI)
    have "\<not> within rs k"
    proof
      assume "within rs k"
      then obtain r where "r \<in> set rs" "fst r < k" by (auto simp: within_def split: prod.splits)
      then have "opens rs (fst r)" "fst r < k" by (simp_all add: opens_def)
      then show False unfolding k_def using not_less_Least by blast
    qed
    then show False using m k Nil by (simp add: merges_def)
  qed
  then have "rs = []" by (cases rs) (auto simp: opens_def)
  then show ?thesis using Nil se by (auto simp: merges_def apart_def fun_eq_iff)
next
  case (Cons r0 acc')
  obtain s0 e0 where r0: "r0 = (s0, e0)" by (cases r0)
  have ap: "s0 < e0" "\<forall>r \<in> set acc'. snd r \<le> s0" "apart (rev acc')"
    using m unfolding merges_def Cons r0 apart_rev_Cons by auto
  have wi: "within rs i \<longleftrightarrow> s0 < i \<and> i < e0 \<or> within acc' i" for i
    using m Cons r0 by (auto simp: merges_def fun_eq_iff)
  have op: "i = s0 \<or> opens acc' i \<longleftrightarrow> opens rs i \<and> \<not> within rs i" for i
    using m Cons r0 by (auto simp: merges_def)
  have rs_le: "i \<le> s" if "opens rs i" for i using that last by (auto simp: opens_def)
  have s0s: "s0 \<le> s" using op rs_le by blast
  have acc_le: "i < s0" if "within acc' i" for i
    using that ap(2) by (fastforce simp: within_def split: prod.splits)
  show ?thesis
  proof (cases "s < e0")
    case True
    have "apart (rev ((s0, max e0 e) # acc'))" using ap unfolding apart_rev_Cons by auto
    moreover have "within ((s0, max e0 e) # acc') i = within (rs @ [(s, e)]) i" for i
      using True s0s by (auto simp: wi)
    moreover have "opens ((s0, max e0 e) # acc') i \<longleftrightarrow> opens (rs @ [(s, e)]) i \<and> \<not> within (rs @ [(s, e)]) i" for i
      using op [of i] rs_le [of i] wi [of s] True s0s op [of s0] by auto
    ultimately show ?thesis using Cons r0 True by (simp add: merges_def fun_eq_iff)
  next
    case False
    have "apart (rev ((s, e) # (s0, e0) # acc'))" using ap se False unfolding apart_rev_Cons by fastforce
    moreover have "within ((s, e) # (s0, e0) # acc') i = within (rs @ [(s, e)]) i" for i
      by (auto simp: wi)
    moreover have "\<not> within rs s" using wi [of s] acc_le [of s] False s0s by auto
    then have "opens ((s, e) # (s0, e0) # acc') i \<longleftrightarrow> opens (rs @ [(s, e)]) i \<and> \<not> within (rs @ [(s, e)]) i" for i
      using op [of i] rs_le [of i] by auto
    ultimately show ?thesis using Cons r0 False by (simp add: merges_def fun_eq_iff)
  qed
qed

lemma foldl_merges:
  assumes "sorted (map fst xs)" "\<forall>r \<in> set xs. fst r < snd r"
  shows "merges (foldl merge_range [] xs) xs"
  using assms
proof (induction xs rule: rev_induct)
  case Nil
  show ?case by (simp add: merges_def apart_def)
next
  case (snoc r xs)
  then show ?case
    using merge_range_merges [of "foldl merge_range [] xs" xs "fst r" "snd r"] by (simp add: sorted_append)
qed

section \<open>Rendering\<close>

lemma upt_split: "i \<le> j \<Longrightarrow> j \<le> k \<Longrightarrow> [i..<k] = [i..<j] @ [j..<k]"
  by (metis upt_add_eq_append le_add_diff_inverse)

text \<open>What a byte of the buffer becomes: the rendered mask is left out where the covered lead had it already.\<close>

definition shown_at :: "range list \<Rightarrow> nat \<Rightarrow> bytes \<Rightarrow> nat \<Rightarrow> bytes" where
  "shown_at rs covered buf i =
     (if within rs i then []
      else if opens rs i then (if i = 0 \<and> covered > 0 then [] else mask_bytes)
      else [buf ! i])"

lemma shown_plain:
  "i \<le> j \<Longrightarrow> j \<le> length buf \<Longrightarrow> (\<And>k. i \<le> k \<Longrightarrow> k < j \<Longrightarrow> \<not> within rs k \<and> \<not> opens rs k) \<Longrightarrow>
   concat (map (shown_at rs covered buf) [i..<j]) = subarray buf i j"
proof (induction j)
  case (Suc j)
  show ?case
  proof (cases "i = Suc j")
    case False
    then have "i \<le> j" using Suc.prems by simp
    then have "concat (map (shown_at rs covered buf) [i..<j]) = subarray buf i j" using Suc by simp
    moreover have "shown_at rs covered buf j = [buf ! j]" using Suc.prems \<open>i \<le> j\<close> by (simp add: shown_at_def)
    ultimately show ?thesis using Suc.prems \<open>i \<le> j\<close> by (simp add: subarray_def take_Suc_conv_app_nth)
  qed (simp add: subarray_def)
qed (simp add: subarray_def)

lemma render_from_shown:
  assumes "apart rs" "\<forall>r \<in> set rs. i \<le> fst r" "i \<le> up_to" "up_to \<le> length buf"
  shows "render_from buf covered up_to i rs = concat (map (shown_at rs covered buf) [i..<up_to])"
  using assms
proof (induction rs arbitrary: i)
  case Nil
  then show ?case by (simp add: shown_plain)
next
  case (Cons r rs)
  obtain s e where r: "r = (s, e)" by (cases r)
  have ap: "s < e" "\<forall>r' \<in> set rs. e \<le> fst r'" "apart rs" using Cons.prems(1) by (auto simp: apart_Cons r)
  have late: "e \<le> k" if "within rs k \<or> opens rs k" for k
    using that ap(2) by (fastforce simp: within_def opens_def split: prod.splits)
  have lead: "concat (map (shown_at (r # rs) covered buf) [i..<j]) = subarray buf i j"
    if "i \<le> j" "j \<le> s" "j \<le> length buf" for j
  proof (rule shown_plain)
    fix k assume "i \<le> k" "k < j"
    then show "\<not> within (r # rs) k \<and> \<not> opens (r # rs) k" using that late [of k] ap(1) by (auto simp: r)
  qed (use that in auto)
  show ?case
  proof (cases "s \<ge> up_to")
    case True
    then show ?thesis using lead [of up_to] Cons.prems by (simp add: r)
  next
    case False
    let ?at = "min e up_to" and ?f = "shown_at (r # rs) covered buf"
    have at: "s < ?at" "?at \<le> up_to" "i \<le> s" using ap False Cons.prems by (auto simp: r)
    have split: "[i..<up_to] = [i..<s] @ s # [Suc s..<?at] @ [?at..<up_to]"
      using at upt_split [of i s up_to] upt_split [of "Suc s" ?at up_to] by (simp add: upt_conv_Cons)
    have "concat (map ?f [Suc s..<?at]) = []" by (auto simp: shown_at_def r)
    moreover have "?f s = (if s = 0 \<and> covered > 0 then [] else mask_bytes)"
      using late [of s] ap(1) by (auto simp: shown_at_def r)
    moreover have "concat (map ?f [?at..<up_to]) = concat (map (shown_at rs covered buf) [?at..<up_to])"
    proof (intro arg_cong [where f = concat] map_cong refl)
      fix k assume "k \<in> set [?at..<up_to]"
      then have "e \<le> k" by auto
      then show "?f k = shown_at rs covered buf k" using ap(1) by (simp add: shown_at_def r)
    qed
    moreover have "render_from buf covered up_to ?at rs = concat (map (shown_at rs covered buf) [?at..<up_to])"
    proof (cases "e \<le> up_to")
      case True
      then show ?thesis using Cons.IH [of ?at] ap Cons.prems by simp
    next
      case False
      have "render_from buf covered up_to up_to rs = []"
      proof (cases rs)
        case (Cons r' rs')
        then show ?thesis using ap(2) False by (cases r') (simp add: subarray_def)
      qed (simp add: subarray_def)
      then show ?thesis using False by simp
    qed
    ultimately show ?thesis using lead [of s] at False Cons.prems by (simp add: r split)
  qed
qed

section \<open>The masker follows the reference\<close>

definition masker_ok :: "masker \<Rightarrow> bool" where
  "masker_ok m \<longleftrightarrow> ma_needles m = map utf8 (ma_values m) \<and> [] \<notin> set (ma_values m) \<and>
     (\<forall>n \<in> set (ma_needles m). length n \<le> ma_longest m) \<and> (ma_needles m = [] \<longrightarrow> ma_held m = []) \<and>
     ma_covered m \<le> length (ma_held m)"

lemma utf8_eq_Nil [simp]: "utf8 v = [] \<longleftrightarrow> v = []"
  by (cases v) (simp_all add: utf8_char_def)

lemma needle_not_empty: "masker_ok m \<Longrightarrow> n \<in> set (ma_needles m) \<Longrightarrow> n \<noteq> []"
  by (auto simp: masker_ok_def)

text \<open>The state after the text \<open>w\<close>: the first \<open>d\<close> of its bytes are settled, the rest is held.\<close>

definition settled :: "bytes list \<Rightarrow> bytes \<Rightarrow> nat \<Rightarrow> bool" where
  "settled ns w d \<longleftrightarrow> d \<le> length w \<and> (\<forall>i < d. \<not> starts_value ns (drop i w)) \<and>
     (d < length w \<longrightarrow> starts_value ns (drop d w))"

definition covers :: "bytes list \<Rightarrow> bytes \<Rightarrow> nat \<Rightarrow> nat \<Rightarrow> bool" where
  "covers ns w d c \<longleftrightarrow> (\<forall>i. d \<le> i \<and> i < d + c \<longrightarrow> inside_value ns w i) \<and> \<not> inside_value ns w (d + c)"

definition masks :: "masker \<Rightarrow> bytes \<Rightarrow> bytes \<Rightarrow> bool" where
  "masks m w out \<longleftrightarrow> masker_ok m \<and> (\<exists>d. settled (ma_needles m) w d \<and> covers (ma_needles m) w d (ma_covered m) \<and>
     ma_held m = drop d w \<and> out = concat (map (mask_position (ma_needles m) w) [0..<d]))"

lemma found_ranges_set:
  assumes "masker_ok m"
  shows "set (found_ranges m buf) = (if ma_covered m > 0 then {(0, ma_covered m)} else {}) \<union>
    {(s, s + length n) |s n. n \<in> set (ma_needles m) \<and> stands_at n buf s}"
proof -
  have "set (find_all buf n 0) = {(s, s + length n) |s. stands_at n buf s}" if "n \<in> set (ma_needles m)" for n
    using find_all_set [OF needle_not_empty [OF assms that], of buf 0] by simp
  then have "(\<Union>n \<in> set (ma_needles m). set (find_all buf n 0)) =
      (\<Union>n \<in> set (ma_needles m). {(s, s + length n) |s. stands_at n buf s})" by simp
  also have "\<dots> = {(s, s + length n) |s n. n \<in> set (ma_needles m) \<and> stands_at n buf s}" by blast
  finally show ?thesis by (simp add: found_ranges_def)
qed

lemma inside_value_iff:
  "inside_value ns w i \<longleftrightarrow> (\<exists>s n. n \<in> set ns \<and> stands_at n w s \<and> s < i \<and> i < s + length n)"
  by (simp add: inside_value_def Bex_def) blast

lemma ranges_merge:
  assumes "masker_ok m"
  shows "apart (ranges m buf)"
    "within (ranges m buf) i \<longleftrightarrow> 0 < i \<and> i < ma_covered m \<or> inside_value (ma_needles m) buf i"
    "opens (ranges m buf) i \<longleftrightarrow> (i = 0 \<and> ma_covered m > 0 \<or> begins_value (ma_needles m) buf i) \<and> \<not> within (ranges m buf) i"
proof -
  let ?f = "found_ranges m buf"
  have pos: "fst r < snd r" if "r \<in> set ?f" for r
    using that by (auto simp: found_ranges_set [OF assms] stands_at_def split: if_splits)
  have wi: "within ?f i \<longleftrightarrow> 0 < i \<and> i < ma_covered m \<or> inside_value (ma_needles m) buf i" for i
    unfolding within_def found_ranges_set [OF assms] inside_value_iff by auto
  have op: "opens ?f i \<longleftrightarrow> i = 0 \<and> ma_covered m > 0 \<or> begins_value (ma_needles m) buf i" for i
    by (auto simp: opens_def found_ranges_set [OF assms] begins_value_def image_iff)
  have "merges (foldl merge_range [] (sort_key fst ?f)) (sort_key fst ?f)"
    by (rule foldl_merges) (use pos in auto)
  moreover have "within (sort_key fst ?f) = within ?f" "opens (sort_key fst ?f) = opens ?f"
    by (simp_all add: within_def opens_def fun_eq_iff)
  moreover have "within (rev rs) = within rs" "opens (rev rs) = opens rs" for rs
    by (simp_all add: within_def opens_def fun_eq_iff)
  ultimately show "apart (ranges m buf)"
    "within (ranges m buf) i \<longleftrightarrow> 0 < i \<and> i < ma_covered m \<or> inside_value (ma_needles m) buf i"
    "opens (ranges m buf) i \<longleftrightarrow> (i = 0 \<and> ma_covered m > 0 \<or> begins_value (ma_needles m) buf i) \<and> \<not> within (ranges m buf) i"
    unfolding ranges_def by (simp_all add: merges_def wi op)
qed


section \<open>One push\<close>

lemma stands_at_iff: "stands_at n w s \<longleftrightarrow> n \<noteq> [] \<and> (\<exists>b. drop s w = n @ b)"
  by (metis append_eq_conv_conj append_take_drop_id stands_at_def)

lemma starts_value_iff: "starts_value ns t \<longleftrightarrow> (\<exists>n \<in> set ns. \<exists>b. b \<noteq> [] \<and> n = t @ b)"
proof -
  have "length t < length n \<and> take (length t) n = t \<longleftrightarrow> (\<exists>b. b \<noteq> [] \<and> n = t @ b)" for n :: bytes
  proof
    assume "length t < length n \<and> take (length t) n = t"
    then show "\<exists>b. b \<noteq> [] \<and> n = t @ b"
      by (intro exI [of _ "drop (length t) n"]) (metis append_take_drop_id drop_eq_Nil linorder_not_le)
  qed auto
  then show ?thesis by (simp add: starts_value_def)
qed

lemma stands_at_le: "stands_at n w s \<Longrightarrow> s + length n \<le> length w"
proof -
  assume "stands_at n w s"
  then obtain b where "n \<noteq> []" "drop s w = n @ b" by (auto simp: stands_at_iff)
  then have "length w - s = length n + length b" "0 < length n" by (metis length_append length_drop, simp)
  then show ?thesis by linarith
qed

lemma stands_at_append: "stands_at n w s \<Longrightarrow> stands_at n (w @ x) s"
  using stands_at_le [of n w s] by (simp add: stands_at_def)

lemma drop_of_append: "d \<le> length w \<Longrightarrow> drop (d + i) (w @ x) = drop i (drop d w @ x)"
  using drop_drop [of i d "w @ x"] by (simp add: add.commute)

lemma stands_at_shift: "d \<le> length w \<Longrightarrow> stands_at n (w @ x) (d + i) \<longleftrightarrow> stands_at n (drop d w @ x) i"
  by (simp only: stands_at_def drop_of_append)

lemma stands_at_settled:
  assumes "stands_at n (w @ x) s" "s < length w" "\<not> starts_value ns (drop s w)" "n \<in> set ns"
  shows "stands_at n w s"
proof -
  obtain b where b: "n \<noteq> []" "drop s w @ x = n @ b" using assms(1,2) by (auto simp: stands_at_iff)
  then obtain u where "drop s w = n @ u \<or> n = drop s w @ u" by (auto simp: append_eq_append_conv2)
  then show ?thesis
  proof
    assume n: "n = drop s w @ u"
    then have "u = []" using assms(3,4) by (auto simp: starts_value_iff)
    then show ?thesis using n b(1) by (simp add: stands_at_iff)
  qed (use b(1) in \<open>simp add: stands_at_iff\<close>)
qed

lemma starts_value_append: "starts_value ns (a @ b) \<Longrightarrow> starts_value ns a"
  unfolding starts_value_iff by (metis append_assoc append_is_Nil_conv)

lemma inside_value_less:
  assumes "inside_value ns w i"
  shows "i < length w"
proof -
  obtain s n where "stands_at n w s" "i < s + length n" using assms unfolding inside_value_iff by blast
  then show ?thesis using stands_at_le [of n w s] by simp
qed

lemma begins_value_less:
  assumes "begins_value ns w i"
  shows "i < length w"
proof -
  obtain n where n: "stands_at n w i" using assms unfolding begins_value_def by blast
  then have "0 < length n" by (simp add: stands_at_def)
  then show ?thesis using stands_at_le [OF n] by linarith
qed

lemma inside_value_append: "inside_value ns w i \<Longrightarrow> inside_value ns (w @ x) i"
  using stands_at_append unfolding inside_value_iff by blast

lemma inside_value_shift:
  assumes "settled ns w d" "covers ns w d c"
  shows "inside_value ns (w @ x) (d + i) \<longleftrightarrow> i < c \<or> inside_value ns (drop d w @ x) i"
proof
  assume "inside_value ns (w @ x) (d + i)"
  then obtain s n where n: "n \<in> set ns" "stands_at n (w @ x) s" "s < d + i" "d + i < s + length n"
    by (auto simp: inside_value_iff)
  have d: "d \<le> length w" using assms(1) by (simp add: settled_def)
  show "i < c \<or> inside_value ns (drop d w @ x) i"
  proof (cases "s < d")
    case True
    then have "stands_at n w s" using stands_at_settled n(1,2) assms(1) d by (auto simp: settled_def)
    then have "inside_value ns w (d + c)" if "c \<le> i"
      using n True that unfolding inside_value_iff by (intro exI [of _ s]) auto
    then show ?thesis using assms(2) by (auto simp: covers_def not_less)
  next
    case False
    then have "stands_at n (drop d w @ x) (s - d)" using n(2) stands_at_shift [OF d, of n x "s - d"] by simp
    then show ?thesis using n False unfolding inside_value_iff by (intro disjI2 exI [of _ "s - d"]) auto
  qed
next
  assume "i < c \<or> inside_value ns (drop d w @ x) i"
  then show "inside_value ns (w @ x) (d + i)"
  proof
    assume "i < c"
    then show ?thesis using assms(2) by (intro inside_value_append) (simp add: covers_def)
  next
    assume "inside_value ns (drop d w @ x) i"
    then obtain s n where n: "n \<in> set ns" "stands_at n (drop d w @ x) s" "s < i" "i < s + length n"
      by (auto simp: inside_value_iff)
    then have "stands_at n (w @ x) (d + s)" using stands_at_shift assms(1) by (simp add: settled_def)
    then show ?thesis using n unfolding inside_value_iff by (intro exI [of _ "d + s"] exI [of _ n]) auto
  qed
qed

lemma begins_value_shift:
  "settled ns w d \<Longrightarrow> begins_value ns (w @ x) (d + i) \<longleftrightarrow> begins_value ns (drop d w @ x) i"
  by (simp add: begins_value_def settled_def stands_at_shift)

lemma mask_position_settled:
  assumes "settled ns w d" "i < d"
  shows "mask_position ns (w @ x) i = mask_position ns w i"
proof -
  have st: "stands_at n (w @ x) s \<longleftrightarrow> stands_at n w s" if "s \<le> i" "n \<in> set ns" for n s
    using that assms stands_at_settled [of n w x s ns] stands_at_append [of n w s x] by (auto simp: settled_def)
  then have "inside_value ns (w @ x) i = inside_value ns w i" unfolding inside_value_def by auto
  moreover have "begins_value ns (w @ x) i = begins_value ns w i" using st by (auto simp: begins_value_def)
  ultimately show ?thesis using assms by (auto simp: mask_position_def settled_def nth_append)
qed

text \<open>The buffer's ranges, rendered up to any position, are the reference's masks of the whole text.\<close>

lemma within_ranges:
  assumes "masker_ok m" "settled (ma_needles m) w d" "covers (ma_needles m) w d (ma_covered m)" "ma_held m = drop d w"
  shows "inside_value (ma_needles m) (w @ x) (d + i) \<longleftrightarrow>
    within (ranges m (ma_held m @ x)) i \<or> i = 0 \<and> ma_covered m > 0"
  unfolding inside_value_shift [OF assms(2,3)] ranges_merge(2) [OF assms(1)] assms(4)
  by (auto simp: inside_value_def)

lemma render_masks:
  assumes "masker_ok m" "settled (ma_needles m) w d" "covers (ma_needles m) w d (ma_covered m)" "ma_held m = drop d w"
    and "k \<le> length (ma_held m @ x)"
  shows "concat (map (mask_position (ma_needles m) w) [0..<d]) @ render m (ma_held m @ x) (ranges m (ma_held m @ x)) k =
    concat (map (mask_position (ma_needles m) (w @ x)) [0..<d + k])"
proof -
  let ?ns = "ma_needles m" and ?buf = "ma_held m @ x"
  have "shown_at (ranges m ?buf) (ma_covered m) ?buf i = mask_position ?ns (w @ x) (d + i)" if "i < k" for i
  proof -
    have "(w @ x) ! (d + i) = ?buf ! i"
      using assms(2) nth_drop [of d "w @ x" i] by (simp add: assms(4) settled_def)
    moreover have "opens (ranges m ?buf) i \<longleftrightarrow>
        (i = 0 \<and> ma_covered m > 0 \<or> begins_value ?ns (w @ x) (d + i)) \<and> \<not> within (ranges m ?buf) i"
      unfolding ranges_merge(3) [OF assms(1)] begins_value_shift [OF assms(2)] assms(4) ..
    ultimately show ?thesis
      unfolding shown_at_def mask_position_def within_ranges [OF assms(1-4)] by (cases "i = 0") auto
  qed
  then have "render m ?buf (ranges m ?buf) k = concat (map (\<lambda>i. mask_position ?ns (w @ x) (d + i)) [0..<k])"
    unfolding render_def
    by (subst render_from_shown) (use assms(5) ranges_merge(1) [OF assms(1)] in \<open>auto intro!: arg_cong [where f = concat]\<close>)
  moreover have "concat (map (\<lambda>i. mask_position ?ns (w @ x) (d + i)) [0..<k]) = concat (map (mask_position ?ns (w @ x)) [d..<d + k])"
  proof -
    have "[d..<d + k] = map (\<lambda>i. d + i) [0..<k]" using map_add_upt [of d k] by (simp add: add.commute)
    then show ?thesis by (simp add: comp_def)
  qed
  moreover have "map (mask_position ?ns w) [0..<d] = map (mask_position ?ns (w @ x)) [0..<d]"
    using mask_position_settled [OF assms(2)] by simp
  ultimately show ?thesis by (simp only: upt_add_eq_append [OF le0, of d k] map_append concat_append)
qed

text \<open>The state is a function of the text, so the routine is a parser of the stream.\<close>

lemma settled_unique: "settled ns w d \<Longrightarrow> settled ns w d' \<Longrightarrow> d = d'"
  by (metis linorder_neqE_nat order_less_le_trans settled_def)

lemma covers_unique: "covers ns w d c \<Longrightarrow> covers ns w d c' \<Longrightarrow> c = c'"
  by (metis covers_def le_add1 linorder_neqE_nat nat_add_left_cancel_less)

lemma settled_append:
  assumes "settled ns w d" "settled ns (drop d w @ x) k"
  shows "settled ns (w @ x) (d + k)"
proof -
  have d: "d \<le> length w" using assms(1) by (simp add: settled_def)
  have k: "k \<le> length w - d + length x" "\<And>j. j < k \<Longrightarrow> \<not> starts_value ns (drop j (drop d w @ x))"
      "k < length w - d + length x \<Longrightarrow> starts_value ns (drop k (drop d w @ x))"
    using assms(2) unfolding settled_def by auto
  have "\<not> starts_value ns (drop i (w @ x))" if "i < d + k" for i
  proof (cases "i < d")
    case True
    then show ?thesis using assms(1) d starts_value_append [of ns "drop i w" x] by (auto simp: settled_def)
  next
    case False
    then have "drop i (w @ x) = drop (i - d) (drop d w @ x)" using drop_of_append [OF d, of "i - d" x] by simp
    then show ?thesis using k(2) [of "i - d"] that False by simp
  qed
  moreover have "starts_value ns (drop (d + k) (w @ x))" if "d + k < length (w @ x)"
    unfolding drop_of_append [OF d] by (rule k(3)) (use that d in simp)
  ultimately show ?thesis using k(1) d by (simp add: settled_def)
qed

lemma hold_from_settled:
  assumes "masker_ok m"
  shows "settled (ma_needles m) buf (hold_from m buf)"
proof -
  let ?from = "length buf - (ma_longest m - 1)" and ?P = "\<lambda>i. starts_value (ma_needles m) (drop i buf)"
  have early: "\<not> ?P i" if "i < ?from" for i
  proof
    assume "?P i"
    then obtain n where "n \<in> set (ma_needles m)" "length buf - i < length n" by (auto simp: starts_value_def)
    moreover from this assms have "length n \<le> ma_longest m" by (auto simp: masker_ok_def)
    ultimately show False using that by linarith
  qed
  show ?thesis
  proof (cases "List.find ?P [?from..<length buf]")
    case None
    then have late: "\<not> ?P i" if "?from \<le> i" "i < length buf" for i using that by (auto simp: find_None_iff)
    have "\<not> ?P i" if "i < length buf" for i
      using early [of i] late [of i] that by (cases "i < ?from") auto
    then show ?thesis using None by (simp add: hold_from_def settled_def)
  next
    case (Some k)
    note k = find_upt_Some [OF this]
    have "\<not> ?P i" if "i < k" for i
      using early [of i] k that by (cases "i < ?from") auto
    then show ?thesis using Some k by (simp add: hold_from_def settled_def)
  qed
qed

lemma apart_not_within: "apart rs \<Longrightarrow> (s, e) \<in> set rs \<Longrightarrow> s < e \<and> \<not> within rs e"
proof (induction rs)
  case (Cons r rs)
  then have ap: "fst r < snd r" "\<forall>r' \<in> set rs. snd r \<le> fst r'" "apart rs" by (simp_all add: apart_Cons)
  show ?case
  proof (cases "(s, e) \<in> set rs")
    case True
    then have "snd r \<le> s" "s < e" using ap Cons.IH by fastforce+
    then show ?thesis using Cons.IH ap True by auto
  next
    case False
    then have r: "r = (s, e)" using Cons.prems(2) by simp
    then have "\<not> within rs e" using ap(2) by (fastforce simp: within_def)
    then show ?thesis using r ap(1) by simp
  qed
qed simp

lemma masker_push_masks:
  assumes "masks m w out" "masker_push m x = (m', o')"
  shows "masks m' (w @ x) (out @ o')"
proof (cases "ma_needles m = []")
  case True
  have plain: "concat (map (mask_position [] v) [0..<length v]) = v" for v
  proof -
    have "mask_position [] v = (\<lambda>i. [v ! i])" by (simp add: fun_eq_iff mask_position_def inside_value_def begins_value_def)
    then show ?thesis by (simp add: map_nth)
  qed
  obtain d where d: "settled [] w d" "ma_held m = drop d w" "out = concat (map (mask_position [] w) [0..<d])" "masker_ok m"
    using assms(1) True by (auto simp: masks_def)
  then have "d = length w" "ma_covered m = 0" using True by (auto simp: settled_def starts_value_def masker_ok_def)
  then have "out = w" using d(3) plain by simp
  then have "m' = m" "out @ o' = w @ x" using assms(2) True by (auto simp: masker_push_def)
  then show ?thesis
    using d(2,4) True \<open>d = length w\<close> \<open>ma_covered m = 0\<close> plain [of "w @ x"]
    by (auto simp: masks_def settled_def starts_value_def covers_def inside_value_def intro!: exI [of _ "length w + length x"])
next
  case False
  let ?ns = "ma_needles m" and ?buf = "ma_held m @ x"
  let ?M = "ranges m ?buf" and ?cut = "hold_from m ?buf"
  let ?P = "\<lambda>(s, e). (s < ?cut \<or> (s = 0 \<and> ma_covered m > 0)) \<and> e > ?cut"
  obtain d where d: "settled ?ns w d" "covers ?ns w d (ma_covered m)" "ma_held m = drop d w"
      "out = concat (map (mask_position ?ns w) [0..<d])" and ok: "masker_ok m"
    using assms(1) by (auto simp: masks_def)
  note wi = within_ranges [OF ok d(1-3)]
  have ap: "apart ?M" by (rule ranges_merge(1) [OF ok])
  have cut: "settled ?ns ?buf ?cut" by (rule hold_from_settled [OF ok])
  then have cut_le: "?cut \<le> length ?buf" by (simp add: settled_def)
  define c where "c = (case List.find ?P ?M of Some (s, e) \<Rightarrow> e - ?cut | None \<Rightarrow> 0)"
  have m': "m' = m\<lparr>ma_covered := c, ma_held := drop ?cut ?buf\<rparr>" and o': "o' = render m ?buf ?M ?cut"
    using assms(2) False by (simp_all add: masker_push_def Let_def c_def)
  have cov: "covers ?ns (w @ x) (d + ?cut) c"
  proof (cases "List.find ?P ?M")
    case None
    have no: "\<not> ?P r" if "r \<in> set ?M" for r using None that unfolding find_None_iff by blast
    have "\<not> within ?M ?cut" using no by (fastforce simp: within_def)
    moreover have "\<not> (?cut = 0 \<and> ma_covered m > 0)"
    proof
      assume z: "?cut = 0 \<and> ma_covered m > 0"
      then have "opens ?M 0" using ranges_merge(3) [OF ok, of ?buf 0] by (auto simp: within_def)
      then obtain e where "(0, e) \<in> set ?M" by (auto simp: opens_def)
      then show False using no [of "(0, e)"] z apart_not_within [OF ap, of 0 e] by simp
    qed
    ultimately have "\<not> inside_value ?ns (w @ x) (d + ?cut)" unfolding wi by auto
    moreover have "c = 0" by (simp only: c_def None option.case)
    ultimately show ?thesis by (auto simp: covers_def)
  next
    case (Some r)
    obtain s e where r: "r = (s, e)" by (cases r)
    have "?P r \<and> r \<in> set ?M" using Some unfolding find_Some_iff by (metis nth_mem)
    then have se: "s < ?cut \<or> s = 0 \<and> ma_covered m > 0" "?cut < e" "(s, e) \<in> set ?M" by (auto simp: r)
    have c: "c = e - ?cut" by (simp only: c_def Some r option.case prod.case)
    have "inside_value ?ns (w @ x) i" if "d + ?cut \<le> i" "i < d + ?cut + c" for i
    proof -
      have "within ?M (i - d)" if "s < i - d"
        using that se \<open>i < d + ?cut + c\<close> c unfolding within_def by (intro bexI [OF _ se(3)]) auto
      then have "within ?M (i - d) \<or> i - d = 0 \<and> ma_covered m > 0" using se(1) that by fastforce
      then show ?thesis using wi [of x "i - d"] that by simp
    qed
    moreover have "\<not> inside_value ?ns (w @ x) (d + e)"
      unfolding wi using apart_not_within [OF ap se(3)] by auto
    ultimately show ?thesis using se(2) by (simp add: covers_def c)
  qed
  have "d + ?cut + c \<le> length (w @ x)"
  proof (cases "c = 0")
    case True
    then show ?thesis using cut_le d(1,3) by (auto simp: settled_def)
  next
    case False
    then have "inside_value ?ns (w @ x) (d + ?cut + (c - 1))" using cov by (simp add: covers_def)
    then show ?thesis using inside_value_less False by fastforce
  qed
  then have "masker_ok m'" using ok False d(1,3) cut_le by (auto simp: masker_ok_def m' settled_def)
  moreover have "settled ?ns (w @ x) (d + ?cut)" using settled_append [OF d(1)] cut by (simp add: d(3))
  moreover have "out @ o' = concat (map (mask_position ?ns (w @ x)) [0..<d + ?cut])"
    unfolding o' d(4) by (rule render_masks [OF ok d(1-3) cut_le])
  moreover have "drop ?cut ?buf = drop (d + ?cut) (w @ x)"
    using drop_of_append [of d w ?cut x] d(1,3) by (simp only: settled_def)
  ultimately show ?thesis using cov by (auto simp: masks_def m' intro!: exI [of _ "d + ?cut"])
qed


lemma masker_push_fields:
  "ma_values (fst (masker_push m x)) = ma_values m" "ma_needles (fst (masker_push m x)) = ma_needles m"
  "ma_longest (fst (masker_push m x)) = ma_longest m"
  by (simp_all add: masker_push_def Let_def)

lemma masks_unique:
  assumes "masks m w p" "masks m' w q" "ma_values m = ma_values m'" "ma_longest m = ma_longest m'"
  shows "m = m' \<and> p = q"
proof -
  have ns: "ma_needles m = ma_needles m'" using assms by (auto simp: masks_def masker_ok_def)
  obtain d where d: "settled (ma_needles m) w d" "covers (ma_needles m) w d (ma_covered m)" "ma_held m = drop d w"
      "p = concat (map (mask_position (ma_needles m) w) [0..<d])" using assms(1) by (auto simp: masks_def)
  obtain d' where d': "settled (ma_needles m) w d'" "covers (ma_needles m) w d' (ma_covered m')" "ma_held m' = drop d' w"
      "q = concat (map (mask_position (ma_needles m) w) [0..<d'])" using assms(2) ns by (auto simp: masks_def)
  have "d = d'" by (rule settled_unique [OF d(1) d'(1)])
  moreover from this have "ma_covered m = ma_covered m'" using covers_unique d(2) d'(2) by blast
  ultimately show ?thesis using d d' ns assms(3,4) by simp
qed

lemma masks_start:
  assumes "masker_ok m" "ma_held m = []"
  shows "masks m [] []"
  using assms by (auto simp: masks_def settled_def covers_def inside_value_def masker_ok_def stands_at_def)

text \<open>A push of two chunks joined is the push of one and then of the other.\<close>

definition masker_view :: "masker \<Rightarrow> bytes \<Rightarrow> (unit, masker \<times> bytes) result" where
  "masker_view m x = Inr (masker_push m x)"

definition masker_following :: "masker \<Rightarrow> bool" where
  "masker_following m \<longleftrightarrow> (\<exists>w out. masks m w out)"

lemma masker_push_append:
  assumes "masks m w out" "masker_push m xs = (m1, o1)" "masker_push m1 ys = (m2, o2)"
  shows "masker_push m (xs @ ys) = (m2, o1 @ o2)"
proof -
  obtain m3 o3 where m3: "masker_push m (xs @ ys) = (m3, o3)" by (cases "masker_push m (xs @ ys)")
  have "masks m3 (w @ xs @ ys) (out @ o3)" by (rule masker_push_masks [OF assms(1) m3])
  moreover have "masks m2 ((w @ xs) @ ys) ((out @ o1) @ o2)"
    by (rule masker_push_masks [OF masker_push_masks [OF assms(1,2)] assms(3)])
  moreover have "ma_values m3 = ma_values m2" "ma_longest m3 = ma_longest m2"
    using masker_push_fields [of m xs] masker_push_fields [of m1 ys] masker_push_fields [of m "xs @ ys"] assms m3 by simp_all
  ultimately have "m3 = m2 \<and> out @ o3 = (out @ o1) @ o2" using masks_unique by fastforce
  then show ?thesis using m3 by simp
qed

interpretation masking: chunked_parser masker_view masker_following
proof
  show "masker_view m [] = Inr (m, [])" if "masker_following m" for m
  proof -
    note f = that
    obtain w out where w: "masks m w out" using f by (auto simp: masker_following_def)
    obtain m' o' where m': "masker_push m [] = (m', o')" by (cases "masker_push m []")
    have "masks m' w (out @ o')" using masker_push_masks [OF w m'] by simp
    then have "m = m' \<and> out = out @ o'"
      using masks_unique [OF w, of m' "out @ o'"] masker_push_fields [of m "[]"] m' by simp
    then show ?thesis using m' by (simp add: masker_view_def)
  qed
  show "masker_following m'" if "masker_following m" "masker_view m xs = Inr (m', o')" for m xs m' o'
    using that masker_push_masks [of m _ _ xs m' o'] unfolding masker_following_def masker_view_def sum.inject by blast
  show "masker_view m (xs @ ys) =
      bind_result (masker_view m xs) (\<lambda>(m1, o1). bind_result (masker_view m1 ys) (\<lambda>(m2, o2). Inr (m2, o1 @ o2)))"
    if "masker_following m" for m xs ys
    using that masker_push_append [of m _ _ xs _ _ ys]
    by (auto simp: masker_following_def masker_view_def split: prod.split)
qed

lemma masker_flush_masks:
  assumes "masks m w out"
  shows "out @ snd (masker_flush m) = mask_text (ma_needles m) w"
proof -
  obtain d where d: "settled (ma_needles m) w d" "covers (ma_needles m) w d (ma_covered m)" "ma_held m = drop d w"
      "out = concat (map (mask_position (ma_needles m) w) [0..<d])" and ok: "masker_ok m"
    using assms by (auto simp: masks_def)
  show ?thesis
  proof (cases "ma_held m = []")
    case True
    then have "d = length w" using d(1,3) by (simp add: settled_def)
    then show ?thesis using d(4) True by (simp add: masker_flush_def mask_text_def)
  next
    case False
    have "d + length (ma_held m) = length w" using d(1,3) by (simp add: settled_def)
    then show ?thesis
      using render_masks [OF ok d(1-3), of "length (ma_held m)" "[]"] False d(4) by (simp add: masker_flush_def mask_text_def)
  qed
qed

section \<open>Every operation keeps the masker's invariant\<close>

lemma ranges_bounded:
  assumes "masker_ok m" "(s, e) \<in> set (ranges m (ma_held m @ x))"
  shows "e \<le> length (ma_held m @ x)"
proof -
  let ?buf = "ma_held m @ x"
  have ap: "s < e" using apart_not_within [OF ranges_merge(1) [OF assms(1)] assms(2)] by simp
  have c: "ma_covered m \<le> length ?buf" using assms(1) by (simp add: masker_ok_def)
  show ?thesis
  proof (cases "s < e - 1")
    case True
    then have "within (ranges m ?buf) (e - 1)" using assms(2) by (auto simp: within_def)
    then have "e - 1 < length ?buf" using c inside_value_less unfolding ranges_merge(2) [OF assms(1)] by fastforce
    then show ?thesis by simp
  next
    case False
    have "opens (ranges m ?buf) s" using assms(2) by (force simp: opens_def)
    then have "s < length ?buf" using c begins_value_less unfolding ranges_merge(3) [OF assms(1)] by fastforce
    then show ?thesis using False ap by simp
  qed
qed

lemma masker_add_ok: "masker_ok m \<Longrightarrow> masker_ok (masker_add vs m)"
proof -
  assume ok: "masker_ok m"
  have vals: "set (foldl jsadd vs0 xs) = set vs0 \<union> set xs" for vs0 and xs :: "ustring list"
    by (induction xs arbitrary: vs0) auto
  have mx: "k \<le> foldl max a ks \<and> (\<forall>j \<in> set ks. j \<le> foldl max a ks)" if "k \<le> a" for a k and ks :: "nat list"
    using that by (induction ks arbitrary: a k) (auto simp: le_max_iff_disj)
  have "ma_needles m \<noteq> [] \<Longrightarrow> ma_values (masker_add vs m) \<noteq> []"
    using ok vals [of "ma_values m" "filter (\<lambda>v. v \<noteq> []) vs"]
    by (auto simp: masker_add_def Let_def masker_ok_def)
  then show ?thesis
    using ok vals mx [of 0 0] by (auto simp: masker_add_def Let_def masker_ok_def)
qed

lemma masker_push_ok: "masker_ok m \<Longrightarrow> masker_ok (fst (masker_push m x))"
proof -
  assume ok: "masker_ok m"
  let ?buf = "ma_held m @ x"
  let ?cut = "hold_from m ?buf"
  show ?thesis
  proof (cases "ma_needles m = []")
    case False
    let ?P = "\<lambda>(s, e). (s < ?cut \<or> (s = 0 \<and> ma_covered m > 0)) \<and> e > ?cut"
    define c where "c = (case List.find ?P (ranges m ?buf) of Some (s, e) \<Rightarrow> e - ?cut | None \<Rightarrow> 0)"
    have "c \<le> length ?buf - ?cut"
    proof (cases "List.find ?P (ranges m ?buf)")
      case None
      then have "c = 0" by (simp only: c_def option.case)
      then show ?thesis by simp
    next
      case (Some r)
      obtain s e where r: "r = (s, e)" by (cases r)
      have "(s, e) \<in> set (ranges m ?buf)" using Some unfolding r find_Some_iff by (metis nth_mem)
      then have "e \<le> length ?buf" by (rule ranges_bounded [OF ok])
      moreover have "c = e - ?cut" by (simp only: c_def Some r option.case prod.case)
      ultimately show ?thesis by (simp only: diff_le_mono)
    qed
    moreover have "masker_push m x = (m\<lparr>ma_covered := c, ma_held := drop ?cut ?buf\<rparr>, render m ?buf (ranges m ?buf) ?cut)"
      using False by (simp add: masker_push_def Let_def c_def)
    ultimately show ?thesis using ok False by (simp add: masker_ok_def)
  qed (use ok in \<open>simp add: masker_push_def\<close>)
qed

lemma masker_flush_ok: "masker_ok m \<Longrightarrow> masker_ok (fst (masker_flush m))"
  by (auto simp: masker_flush_def masker_ok_def)

interpretation masker: machine masker_step masker_ok
proof
  show "masker_ok (masker_step m x)" if "masker_ok m" for m x
    using that by (cases x) (simp_all add: masker_add_ok masker_push_ok masker_flush_ok)
qed

lemma masker_reachable_ok: "masker_ok (run masker_step create_stream_masker ops)"
  by (rule masker.inv_run) (simp add: masker_ok_def create_stream_masker_def)

section \<open>What is promised\<close>

text \<open>C3: Whatever was masked before, once nothing is held (the start of a session, or a flush) the chunks pushed next and
  the flush after them put out exactly the masked text of their bytes, with the values known then, however the text was
  cut into chunks: each occurrence of a value, overlapping ones joined, is one mask, and every other byte is itself.\<close>

theorem stream_is_masked_text:
  "let m = masker_add vs (fst (masker_flush (run masker_step create_stream_masker ops))) in
   \<exists>m' out. feed masker_view m cs = Inr (m', out) \<and>
     out @ snd (masker_flush m') = mask_text (map utf8 (ma_values m)) (concat cs)"
proof -
  define m where "m = masker_add vs (fst (masker_flush (run masker_step create_stream_masker ops)))"
  have ok: "masker_ok m" unfolding m_def by (intro masker_add_ok masker_flush_ok masker_reachable_ok)
  have "ma_held m = []" by (simp add: m_def masker_add_def Let_def masker_flush_def)
  then have st: "masks m [] []" by (rule masks_start [OF ok])
  obtain m' out where p: "masker_push m (concat cs) = (m', out)" by (cases "masker_push m (concat cs)")
  have "masks m' (concat cs) out" using masker_push_masks [OF st p] by simp
  then have "out @ snd (masker_flush m') = mask_text (ma_needles m) (concat cs)"
    using masker_flush_masks masker_push_fields(2) [of m "concat cs"] p by fastforce
  moreover have "feed masker_view m cs = Inr (m', out)"
    using masking.feed_concat [of m cs] st p by (auto simp: masker_following_def masker_view_def)
  moreover have "ma_needles m = map utf8 (ma_values m)" using ok by (simp add: masker_ok_def)
  ultimately show ?thesis by (simp add: m_def Let_def)
qed

text \<open>The hold is no longer than it has to be: shorter than the longest value.\<close>

lemma held_shorter_than_a_value:
  "\<exists>m. m = run masker_step create_stream_masker (ops @ [Push_chunk x]) \<and>
     (ma_held m = [] \<or> (\<exists>v \<in> set (ma_values m). length (ma_held m) < length (utf8 v) \<and> take (length (ma_held m)) (utf8 v) = ma_held m))"
proof -
  define m where "m = run masker_step create_stream_masker ops"
  have ok: "masker_ok m" by (simp add: m_def masker_reachable_ok)
  have "ma_held (fst (masker_push m x)) = [] \<or> starts_value (map utf8 (ma_values m)) (ma_held (fst (masker_push m x)))"
    using hold_from_settled [OF ok, of "ma_held m @ x"] ok
    by (auto simp: masker_push_def Let_def settled_def masker_ok_def not_less)
  then show ?thesis by (auto simp: m_def starts_value_def masker_push_fields)
qed

end
