(* ===== verification/Sse.thy ===== *)
theory Sse
  imports Utf8 Text
begin

text \<open>
  The parser of \<^verbatim>\<open>text/event-stream\<close> and its writer (\<^verbatim>\<open>packages/core/src/http/sse.ts\<close>). The state is the closure of
  \<^verbatim>\<open>createSseParser\<close> with its streaming decoder; a push decodes its chunk, splits what it completes into lines
  and handles each. A reference reads the whole text at once, as lines ended by CR, LF or both.
\<close>

section \<open>Rows\<close>

datatype sse_row =
    Sse_event (sr_index: nat) (sr_at: nat) (sr_size: nat) (sr_event: ustring) (sr_data: ustring) (sr_id: "ustring option")
      (sr_last_id: ustring)
  | Sse_comment (sr_index: nat) (sr_at: nat) (sr_size: nat) (sr_text: ustring)
  | Sse_retry (sr_index: nat) (sr_at: nat) (sr_size: nat) (sr_ms: nat)

text \<open>\<^verbatim>\<open>lineSize\<close>: the UTF-8 length of each line, with its LF.\<close>

definition line_size :: "ustring list \<Rightarrow> nat" where
  "line_size lines = foldl (\<lambda>sum l. sum + length (utf8 l) + 1) 0 lines"

section \<open>The parser\<close>

abbreviation LF :: nat where "LF \<equiv> 10"
abbreviation CR :: nat where "CR \<equiv> 13"
abbreviation BOM :: nat where "BOM \<equiv> 0xFEFF"
abbreviation COLON :: nat where "COLON \<equiv> 58"
abbreviation SPACE :: nat where "SPACE \<equiv> 32"

record sse =
  ss_decoder :: text_decoder
  ss_carry :: ustring
  ss_saw_text :: bool
  ss_pending_cr :: bool
  ss_index :: nat
  ss_last_at :: nat
  ss_event_type :: ustring
  ss_data_lines :: "ustring list"
  ss_event_id :: "ustring option"
  ss_event_lines :: "ustring list"
  ss_last_event_id :: ustring
  ss_has_data :: bool

definition reset_event :: "sse \<Rightarrow> sse" where
  "reset_event s = s\<lparr>ss_event_type := [], ss_data_lines := [], ss_event_lines := [], ss_event_id := None, ss_has_data := False\<rparr>"

definition create_sse_parser :: sse where
  "create_sse_parser =
     \<lparr>ss_decoder = new_text_decoder, ss_carry = [], ss_saw_text = False, ss_pending_cr = False, ss_index = 0, ss_last_at = 0,
      ss_event_type = [], ss_data_lines = [], ss_event_id = None, ss_event_lines = [], ss_last_event_id = [], ss_has_data = False\<rparr>"

text \<open>\<^verbatim>\<open>/^[0-9]+$/\<close> and \<^verbatim>\<open>Number(value)\<close> of its matches (exact up to \<open>2 ^ 53\<close>, where a double is).\<close>

definition all_digits :: "ustring \<Rightarrow> bool" where
  "all_digits v \<longleftrightarrow> v \<noteq> [] \<and> list_all (\<lambda>c. 48 \<le> c \<and> c \<le> 57) v"

definition digits_value :: "ustring \<Rightarrow> nat" where
  "digits_value v = foldl (\<lambda>n c. 10 * n + (c - 48)) 0 v"

definition split_field :: "ustring \<Rightarrow> ustring \<times> ustring" where
  "split_field line =
     (if COLON \<notin> set line then (line, [])
      else let field = takeWhile (\<lambda>c. c \<noteq> COLON) line; value = drop (length field + 1) line in
        (field, if starts_with value [SPACE] then drop 1 value else value))"

definition handle_field :: "sse \<Rightarrow> ustring \<Rightarrow> nat \<Rightarrow> sse \<times> sse_row list" where
  "handle_field s line when =
     (if line = [] then
        (if ss_has_data s then
           (reset_event (s\<lparr>ss_index := ss_index s + 1\<rparr>),
            [Sse_event (ss_index s) when (line_size (ss_event_lines s))
               (if ss_event_type s = [] then ustring_of ''message'' else ss_event_type s)
               (join [LF] (ss_data_lines s)) (ss_event_id s) (ss_last_event_id s)])
         else (reset_event s, []))
      else if starts_with line [COLON] then
        (s\<lparr>ss_index := ss_index s + 1\<rparr>, [Sse_comment (ss_index s) when (line_size [line]) (drop 1 line)])
      else
        (let (field, value) = split_field line in
         if field = ustring_of ''event'' then (s\<lparr>ss_event_type := value, ss_event_lines := ss_event_lines s @ [line]\<rparr>, [])
         else if field = ustring_of ''data'' then
           (s\<lparr>ss_data_lines := ss_data_lines s @ [value], ss_event_lines := ss_event_lines s @ [line], ss_has_data := True\<rparr>, [])
         else if field = ustring_of ''id'' then
           (let s1 = (if 0 \<notin> set value then s\<lparr>ss_event_id := Some value, ss_last_event_id := value\<rparr> else s) in
            (s1\<lparr>ss_event_lines := ss_event_lines s1 @ [line]\<rparr>, []))
         else if field = ustring_of ''retry'' then
           (if all_digits value then
              (s\<lparr>ss_index := ss_index s + 1\<rparr>, [Sse_retry (ss_index s) when (line_size [line]) (digits_value value)])
            else (s, []))
         else (s\<lparr>ss_event_lines := ss_event_lines s @ [line]\<rparr>, [])))"

fun handle_fields :: "sse \<Rightarrow> ustring list \<Rightarrow> nat \<Rightarrow> sse \<times> sse_row list" where
  "handle_fields s [] when = (s, [])"
| "handle_fields s (l # ls) when =
     (let (s1, r1) = handle_field s l when; (s2, r2) = handle_fields s1 ls when in (s2, r1 @ r2))"

text \<open>\<^verbatim>\<open>buf.replace(/\r\n|\r/g, '\n')\<close>.\<close>

fun normalize_eol :: "ustring \<Rightarrow> ustring" where
  "normalize_eol [] = []"
| "normalize_eol (c # t) =
     (if c = CR then LF # (if starts_with t [LF] then normalize_eol (drop 1 t) else normalize_eol t)
      else c # normalize_eol t)"

definition ends_with_cr :: "ustring \<Rightarrow> bool" where
  "ends_with_cr t \<longleftrightarrow> t \<noteq> [] \<and> last t = CR"

definition consume_text :: "sse \<Rightarrow> ustring \<Rightarrow> nat \<Rightarrow> sse \<times> sse_row list" where
  "consume_text s text0 when =
     (let text1 = (if ss_saw_text s then text0 else strip_bom text0);
          buf0 = ss_carry s @ text1;
          buf1 = (if ss_pending_cr s \<and> starts_with buf0 [LF] then drop 1 buf0 else buf0);
          cr = ends_with_cr buf1;
          buf2 = (if cr then butlast buf1 else buf1);
          normalized = (if cr then normalize_eol buf2 @ [LF] else normalize_eol buf2);
          lines = split_on LF normalized in
      handle_fields (s\<lparr>ss_saw_text := True, ss_pending_cr := cr, ss_carry := last lines\<rparr>) (butlast lines) when)"

definition sse_push :: "sse \<Rightarrow> bytes \<Rightarrow> nat \<Rightarrow> sse \<times> sse_row list" where
  "sse_push s chunk when =
     (let (d, text1) = decode_stream (ss_decoder s) chunk in
      consume_text (s\<lparr>ss_last_at := when, ss_decoder := d\<rparr>) text1 when)"

definition sse_end :: "sse \<Rightarrow> sse \<times> sse_row list" where
  "sse_end s =
     (let text1 = decode_end (ss_decoder s); s1 = s\<lparr>ss_decoder := new_text_decoder\<rparr> in
      if text1 \<noteq> [] then consume_text s1 text1 (ss_last_at s1) else (s1, []))"

fun sse_feed :: "sse \<Rightarrow> (bytes \<times> nat) list \<Rightarrow> sse \<times> sse_row list" where
  "sse_feed s [] = (s, [])"
| "sse_feed s ((c, t) # cs) = (let (s1, r1) = sse_push s c t; (s2, r2) = sse_feed s1 cs in (s2, r1 @ r2))"

text \<open>A whole response: its chunks with their times, and the end.\<close>

definition sse_rows :: "(bytes \<times> nat) list \<Rightarrow> sse_row list" where
  "sse_rows cs = (let (s, r) = sse_feed create_sse_parser cs in r @ snd (sse_end s))"

section \<open>The writer\<close>

definition serialize_row :: "sse_row \<Rightarrow> ustring" where
  "serialize_row r =
     (case r of
        Sse_comment _ _ _ t \<Rightarrow> [COLON] @ t @ [LF, LF]
      | Sse_retry _ _ _ ms \<Rightarrow> ustring_of ''retry: '' @ ustring_of (show_nat ms) @ [LF, LF]
      | Sse_event _ _ _ ev data eid _ \<Rightarrow>
          (if ev \<noteq> ustring_of ''message'' then ustring_of ''event: '' @ ev @ [LF] else []) @
          (case eid of Some i \<Rightarrow> ustring_of ''id: '' @ i @ [LF] | None \<Rightarrow> []) @
          concat (map (\<lambda>line. ustring_of ''data: '' @ line @ [LF]) (split_on LF data)) @ [LF])"

definition serialize_event_stream :: "sse_row list \<Rightarrow> ustring" where
  "serialize_event_stream rows = foldl (\<lambda>out r. out @ serialize_row r) [] rows"

section \<open>The reference: a whole text at once\<close>

definition event_stream_lines :: "ustring \<Rightarrow> ustring list" where
  "event_stream_lines t = butlast (split_on LF (normalize_eol t))"

definition event_stream_rows :: "ustring \<Rightarrow> sse_row list" where
  "event_stream_rows t = snd (handle_fields create_sse_parser (event_stream_lines (strip_bom t)) 0)"

text \<open>A row without the time it arrived.\<close>

fun no_at :: "sse_row \<Rightarrow> sse_row" where
  "no_at (Sse_event i t n ev d eid lid) = Sse_event i 0 n ev d eid lid"
| "no_at (Sse_comment i t n x) = Sse_comment i 0 n x"
| "no_at (Sse_retry i t n m) = Sse_retry i 0 n m"

text \<open>What the handling of lines works on, without the decoder's and the line splitter's part of the state.\<close>

definition event_state :: "sse \<Rightarrow> sse" where
  "event_state s = s\<lparr>ss_decoder := new_text_decoder, ss_carry := [], ss_saw_text := False, ss_pending_cr := False, ss_last_at := 0\<rparr>"

lemma event_state_simps [simp]:
  "event_state (s\<lparr>ss_decoder := d\<rparr>) = event_state s" "event_state (s\<lparr>ss_carry := c\<rparr>) = event_state s"
  "event_state (s\<lparr>ss_saw_text := b\<rparr>) = event_state s" "event_state (s\<lparr>ss_pending_cr := b\<rparr>) = event_state s"
  "event_state (s\<lparr>ss_last_at := t\<rparr>) = event_state s" "event_state create_sse_parser = create_sse_parser"
  by (simp_all add: event_state_def create_sse_parser_def)

lemma handle_field_event_state:
  "handle_field (event_state s) l 0 = (event_state (fst (handle_field s l t)), map no_at (snd (handle_field s l t)))"
  by (simp add: handle_field_def event_state_def reset_event_def Let_def split: prod.split)

lemma handle_field_frame:
  "ss_decoder (fst (handle_field s l t)) = ss_decoder s" "ss_carry (fst (handle_field s l t)) = ss_carry s"
  "ss_saw_text (fst (handle_field s l t)) = ss_saw_text s" "ss_pending_cr (fst (handle_field s l t)) = ss_pending_cr s"
  "ss_last_at (fst (handle_field s l t)) = ss_last_at s"
  by (simp_all add: handle_field_def reset_event_def Let_def split: prod.split)

lemma handle_fields_event_state:
  "handle_fields (event_state s) ls 0 = (event_state (fst (handle_fields s ls t)), map no_at (snd (handle_fields s ls t)))"
  by (induction ls arbitrary: s) (simp_all add: handle_field_event_state [of _ _ t] Let_def case_prod_unfold)

lemma handle_fields_frame:
  "ss_decoder (fst (handle_fields s ls t)) = ss_decoder s \<and> ss_carry (fst (handle_fields s ls t)) = ss_carry s \<and>
   ss_saw_text (fst (handle_fields s ls t)) = ss_saw_text s \<and> ss_pending_cr (fst (handle_fields s ls t)) = ss_pending_cr s \<and>
   ss_last_at (fst (handle_fields s ls t)) = ss_last_at s"
  by (induction ls arbitrary: s) (simp_all add: handle_field_frame Let_def case_prod_unfold)

lemma handle_fields_append:
  "handle_fields s (ls @ ms) t =
     (let (s1, r1) = handle_fields s ls t; (s2, r2) = handle_fields s1 ms t in (s2, r1 @ r2))"
  by (induction ls arbitrary: s) (simp_all add: Let_def case_prod_unfold)

section \<open>Lines across chunks\<close>

lemma normalize_eol_append:
  "normalize_eol (u @ t) = normalize_eol u @ normalize_eol (if ends_with_cr u \<and> starts_with t [LF] then drop 1 t else t)"
proof (induction u rule: normalize_eol.induct)
  case (2 c u)
  then show ?case by (cases u) (auto simp: ends_with_cr_def starts_with_def)
qed (simp add: ends_with_cr_def)

lemma normalize_eol_no_cr: "CR \<notin> set (normalize_eol t)"
  by (induction t rule: normalize_eol.induct) auto

lemma normalize_eol_id: "CR \<notin> set u \<Longrightarrow> normalize_eol u = u"
  by (induction u) auto

lemma ends_with_cr_iff: "ends_with_cr u \<longleftrightarrow> (\<exists>v. u = v @ [CR])"
  by (metis append_butlast_last_id ends_with_cr_def last_snoc snoc_eq_iff_butlast)

lemma normalize_eol_cr: "normalize_eol (v @ [CR]) = normalize_eol v @ [LF]"
  by (simp add: normalize_eol_append starts_with_def)

lemma normalized_eol:
  "(if ends_with_cr u then normalize_eol (if ends_with_cr u then butlast u else u) @ [LF]
    else normalize_eol (if ends_with_cr u then butlast u else u)) = normalize_eol u"
  by (auto simp: ends_with_cr_iff normalize_eol_cr)

lemma split_on_append2:
  "split_on c (u @ x) = butlast (split_on c u) @ split_on c (last (split_on c u) @ x)"
proof (induction u)
  case (Cons a u)
  then show ?case by (cases "split_on c u") (auto split: list.split)
qed simp

lemma last_split_on_sep: "last (split_on c (u @ [c])) = []"
proof -
  have "c \<notin> set (last (split_on c u))" by (rule split_on_pieces [of _ c u]) simp
  then show ?thesis by (subst split_on_append2) (simp add: split_on_append)
qed

lemma split_on_subset: "p \<in> set (split_on c u) \<Longrightarrow> set p \<subseteq> set u"
proof (induction u arbitrary: p)
  case (Cons a u)
  obtain q qs where q: "split_on c u = q # qs" by (cases "split_on c u") auto
  have "set r \<subseteq> set u" if "r = q \<or> r \<in> set qs" for r using Cons.IH [of r] that by (auto simp: q)
  then show ?case using Cons.prems by (fastforce simp: q split: if_splits)
qed simp

definition after_text :: "sse \<Rightarrow> ustring \<Rightarrow> sse_row list \<Rightarrow> bool" where
  "after_text s t rows \<longleftrightarrow> ss_carry s = last (split_on LF (normalize_eol t)) \<and> ss_pending_cr s = ends_with_cr t \<and>
     handle_fields create_sse_parser (event_stream_lines t) 0 = (event_state s, map no_at rows)"

lemma consume_text_after:
  assumes at: "after_text s u rows" and c: "consume_text s t0 when = (s', rows')"
    and t: "t = (if ss_saw_text s then t0 else strip_bom t0)" and ne: "t \<noteq> [] \<or> \<not> ends_with_cr u"
  shows "after_text s' (u @ t) (rows @ rows') \<and> ss_saw_text s' \<and> ss_decoder s' = ss_decoder s \<and> ss_last_at s' = ss_last_at s"
proof -
  define t2 where "t2 = (if ends_with_cr u \<and> starts_with t [LF] then drop 1 t else t)"
  have carry: "ss_carry s = last (split_on LF (normalize_eol u))" "ss_pending_cr s = ends_with_cr u"
    using at by (simp_all add: after_text_def)
  have empty: "ss_carry s = []" if "ends_with_cr u"
    using that by (auto simp: carry ends_with_cr_iff normalize_eol_cr last_split_on_sep)
  have "ss_carry s \<in> set (split_on LF (normalize_eol u))" by (simp add: carry)
  then have "set (ss_carry s) \<subseteq> set (normalize_eol u)" by (rule split_on_subset)
  then have no_cr: "CR \<notin> set (ss_carry s)" using normalize_eol_no_cr [of u] by (rule contra_subsetD)
  define buf where "buf = ss_carry s @ t2"
  have buf: "(if ss_pending_cr s \<and> starts_with (ss_carry s @ t) [LF] then drop 1 (ss_carry s @ t) else ss_carry s @ t) = buf"
    using empty by (auto simp: buf_def t2_def carry(2))
  have norm: "normalize_eol buf = ss_carry s @ normalize_eol t2"
  proof -
    have "\<not> ends_with_cr (ss_carry s)" using no_cr by (metis ends_with_cr_def last_in_set)
    then show ?thesis
      unfolding buf_def normalize_eol_append [of "ss_carry s" t2] using normalize_eol_id [OF no_cr] by simp
  qed
  have cr: "ends_with_cr buf = ends_with_cr (u @ t)"
  proof (cases "t2 = []")
    case False
    then have "last t2 = last t" "t \<noteq> []" by (auto simp: t2_def last_tl drop_Suc split: if_splits)
    then show ?thesis using False by (simp add: ends_with_cr_def buf_def)
  next
    case True
    have "\<not> ends_with_cr buf" using no_cr True by (metis append_Nil2 buf_def ends_with_cr_def last_in_set)
    moreover have "\<not> ends_with_cr (u @ t)"
    proof (cases "t = []")
      case False
      then have "t = [LF]" using True by (cases t) (auto simp: t2_def starts_with_def split: if_splits)
      then show ?thesis by (simp add: ends_with_cr_def)
    qed (use ne in simp)
    ultimately show ?thesis by simp
  qed
  let ?lines = "split_on LF (normalize_eol buf)"
  let ?s0 = "s\<lparr>ss_saw_text := True, ss_pending_cr := ends_with_cr buf, ss_carry := last ?lines\<rparr>"
  have c': "handle_fields ?s0 (butlast ?lines) when = (s', rows')"
    using c unfolding consume_text_def Let_def t [symmetric] buf normalized_eol .
  have split: "split_on LF (normalize_eol (u @ t)) = butlast (split_on LF (normalize_eol u)) @ ?lines"
    unfolding norm normalize_eol_append [of u t] t2_def [symmetric] by (subst split_on_append2) (simp add: carry)
  have frame: "ss_carry s' = last ?lines" "ss_pending_cr s' = ends_with_cr buf" "ss_saw_text s'"
      "ss_decoder s' = ss_decoder s" "ss_last_at s' = ss_last_at s"
    using handle_fields_frame [of ?s0 "butlast ?lines" "when"] c' by simp_all
  have "handle_fields (event_state s) (butlast ?lines) 0 = (event_state s', map no_at rows')"
    using handle_fields_event_state [of ?s0 "butlast ?lines" "when"] c' by simp
  then have "handle_fields create_sse_parser (event_stream_lines (u @ t)) 0 = (event_state s', map no_at (rows @ rows'))"
    using at unfolding event_stream_lines_def split after_text_def
    by (simp add: butlast_append handle_fields_append)
  then show ?thesis using frame cr split by (simp add: after_text_def)
qed

section \<open>The decoder, and a whole response\<close>

text \<open>What the decoder makes of each chunk.\<close>

fun sse_texts :: "text_decoder \<Rightarrow> bytes list \<Rightarrow> ustring list" where
  "sse_texts d [] = []"
| "sse_texts d (c # cs) = (let (d1, t) = decode_stream d c in t # sse_texts d1 cs)"

fun decoder_after :: "text_decoder \<Rightarrow> bytes list \<Rightarrow> text_decoder" where
  "decoder_after d [] = d"
| "decoder_after d (c # cs) = decoder_after (fst (decode_stream d c)) cs"

lemma sse_texts_concat: "decode_stream d (concat cs) = (decoder_after d cs, concat (sse_texts d cs))"
proof -
  have "feed (\<lambda>d c. Inr (decode_stream d c) :: (unit, text_decoder \<times> ustring) result) d cs =
      Inr (decoder_after d cs, concat (sse_texts d cs))"
    by (induction cs arbitrary: d) (simp_all add: Let_def case_prod_unfold)
  then show ?thesis using decoding.feed_concat [of d cs] by simp
qed

lemma decode_whole: "snd (decode_stream new_text_decoder w) @ decode_end (fst (decode_stream new_text_decoder w)) = text_decode w"
proof -
  obtain s t where st: "utf8_run utf8_start w = (s, t)" by (cases "utf8_run utf8_start w")
  have "strip_bom (utf8_flush s) = utf8_flush s" by (simp add: utf8_flush_def strip_bom_def)
  then show ?thesis
    by (cases "t = []")
      (simp_all add: st text_decode_def buffer_to_string_def decode_stream_def new_text_decoder_def decode_end_def
        decoder_emit_def strip_bom_append strip_bom_def [of "[]"])
qed

lemma sse_feed_after:
  assumes "after_text s u rows" "ss_saw_text s" "[] \<notin> set (sse_texts (ss_decoder s) (map fst cs))"
    "sse_feed s cs = (s', rows')"
  shows "after_text s' (u @ concat (sse_texts (ss_decoder s) (map fst cs))) (rows @ rows') \<and> ss_saw_text s' \<and>
    ss_decoder s' = decoder_after (ss_decoder s) (map fst cs)"
  using assms
proof (induction cs arbitrary: s u rows rows')
  case (Cons x cs)
  obtain c tm where x: "x = (c, tm)" by (cases x)
  obtain d t where d: "decode_stream (ss_decoder s) c = (d, t)" by (cases "decode_stream (ss_decoder s) c")
  let ?s0 = "s\<lparr>ss_last_at := tm, ss_decoder := d\<rparr>"
  obtain s1 r1 where p: "consume_text ?s0 t tm = (s1, r1)" by (cases "consume_text ?s0 t tm")
  obtain r2 where f: "sse_feed s1 cs = (s', r2)" "rows' = r1 @ r2"
    using Cons.prems(4) by (auto simp: x sse_push_def d p split: prod.splits)
  have "after_text ?s0 u rows" using Cons.prems(1) by (simp add: after_text_def)
  moreover have "t \<noteq> []" using Cons.prems(3) by (auto simp: x d)
  ultimately have st: "after_text s1 (u @ t) (rows @ r1)" "ss_saw_text s1" "ss_decoder s1 = d"
    using consume_text_after [of ?s0 u rows t tm s1 r1 t] p Cons.prems(2) by simp_all
  have ne: "[] \<notin> set (sse_texts (ss_decoder s1) (map fst cs))" using Cons.prems(3) by (simp add: x d st(3))
  show ?case using Cons.IH [OF st(1,2) ne f(1)] f(2) by (simp add: x d st(3))
qed simp

lemma create_after_text: "after_text (create_sse_parser\<lparr>ss_last_at := tm, ss_decoder := d\<rparr>) [] []"
  by (simp add: after_text_def event_stream_lines_def ends_with_cr_def) (simp add: create_sse_parser_def)

lemma sse_feed_start:
  assumes "cs \<noteq> []" "[] \<notin> set (sse_texts new_text_decoder (map fst cs))" "sse_feed create_sse_parser cs = (s', rows')"
  shows "after_text s' (strip_bom (concat (sse_texts new_text_decoder (map fst cs)))) rows' \<and> ss_saw_text s' \<and>
    ss_decoder s' = decoder_after new_text_decoder (map fst cs)"
proof -
  obtain c tm cs' where cs: "cs = (c, tm) # cs'" using assms(1) by (cases cs) auto
  obtain d t where d: "decode_stream new_text_decoder c = (d, t)" by (cases "decode_stream new_text_decoder c")
  let ?s0 = "create_sse_parser\<lparr>ss_last_at := tm, ss_decoder := d\<rparr>"
  have new: "ss_decoder create_sse_parser = new_text_decoder" "ss_saw_text ?s0 = False"
    by (simp_all add: create_sse_parser_def)
  obtain s1 r1 where p: "consume_text ?s0 t tm = (s1, r1)" by (cases "consume_text ?s0 t tm")
  obtain r2 where f: "sse_feed s1 cs' = (s', r2)" "rows' = r1 @ r2"
    using assms(3) by (auto simp: cs sse_push_def new d p split: prod.splits)
  have "t \<noteq> []" using assms(2) by (auto simp: cs d)
  have st: "after_text s1 (strip_bom t) r1" "ss_saw_text s1" "ss_decoder s1 = d"
    using consume_text_after [OF create_after_text p, of "strip_bom t"] new(2) by (simp_all add: ends_with_cr_def)
  have ne: "[] \<notin> set (sse_texts (ss_decoder s1) (map fst cs'))" using assms(2) by (simp add: cs d st(3))
  show ?thesis using sse_feed_after [OF st(1,2) ne f(1)] f(2) \<open>t \<noteq> []\<close> by (simp add: cs d st(3) strip_bom_append)
qed

lemma sse_rows_whole:
  assumes "[] \<notin> set (sse_texts new_text_decoder (map fst cs))"
  shows "map no_at (sse_rows cs) = event_stream_rows (text_decode (concat (map fst cs)))"
proof (cases "cs = []")
  case True
  then show ?thesis
    by (simp add: sse_rows_def sse_end_def event_stream_rows_def event_stream_lines_def decode_end_def decoder_emit_def
        create_sse_parser_def new_text_decoder_def utf8_flush_def utf8_start_def text_decode_def buffer_to_string_def
        strip_bom_def)
next
  case False
  let ?d = "new_text_decoder" and ?bs = "map fst cs"
  obtain s rows where f: "sse_feed create_sse_parser cs = (s, rows)" by (cases "sse_feed create_sse_parser cs")
  let ?t = "concat (sse_texts ?d ?bs)"
  have st: "after_text s (strip_bom ?t) rows" "ss_saw_text s" "ss_decoder s = decoder_after ?d ?bs"
    using sse_feed_start [OF False assms f] by simp_all
  have "?t \<noteq> []"
  proof -
    obtain c tm cs' where cs: "cs = (c, tm) # cs'" using False by (cases cs) auto
    obtain d t where "decode_stream ?d c = (d, t)" by (cases "decode_stream ?d c")
    then show ?thesis using assms by (auto simp: cs)
  qed
  have whole: "text_decode (concat ?bs) = ?t @ decode_end (ss_decoder s)"
    using decode_whole [of "concat ?bs"] by (simp add: sse_texts_concat st(3))
  obtain s' rows' where e: "sse_end s = (s', rows')" by (cases "sse_end s")
  have "after_text s' (strip_bom ?t @ decode_end (ss_decoder s)) (rows @ rows')"
  proof (cases "decode_end (ss_decoder s) = []")
    case True
    then show ?thesis using st(1) e by (auto simp: sse_end_def after_text_def)
  next
    case False
    then have c: "consume_text (s\<lparr>ss_decoder := new_text_decoder\<rparr>) (decode_end (ss_decoder s)) (ss_last_at s) = (s', rows')"
      using e by (simp add: sse_end_def Let_def)
    have "after_text (s\<lparr>ss_decoder := new_text_decoder\<rparr>) (strip_bom ?t) rows" using st(1) by (simp add: after_text_def)
    then show ?thesis using consume_text_after [OF _ c] False st(2) by simp
  qed
  then show ?thesis
    using f e \<open>?t \<noteq> []\<close>
    by (simp add: after_text_def event_stream_rows_def whole strip_bom_append sse_rows_def)
qed

text \<open>C37: A response's rows are those of its text read at once, lines ended by CR, LF or both, whatever chunks its bytes came
  in (a character or a CR LF cut in two included), as long as every chunk completes a character.\<close>

theorem rows_of_the_whole_text:
  assumes "[] \<notin> set (sse_texts new_text_decoder (map fst cs))"
  shows "map no_at (sse_rows cs) = event_stream_rows (text_decode (concat (map fst cs)))"
  using assms by (rule sse_rows_whole)

lemma ascii_bytes: "list_all (\<lambda>c. c < 0x80) u \<Longrightarrow> utf8_run utf8_start (utf8 u) = (utf8_start, u)"
  by (rule utf8_run_utf8) (auto simp: list_all_iff scalar_def)

lemma rows_of_the_whole_text_witness:
  "let cs = [(utf8 [100, 97, 116, 97, 58, 97, 13], 1), (utf8 [10, 10], 2)] in
   [] \<notin> set (sse_texts new_text_decoder (map fst cs)) \<and>
   map no_at (sse_rows cs) = event_stream_rows (text_decode (concat (map fst cs)))"
proof -
  let ?cs = "[(utf8 [100, 97, 116, 97, 58, 97, 13], 1), (utf8 [10, 10], 2)]"
  have ne: "[] \<notin> set (sse_texts new_text_decoder (map fst ?cs))"
    using ascii_bytes [of "[100, 97, 116, 97, 58, 97, 13]"] ascii_bytes [of "[10, 10]"]
    by (simp add: decode_stream_def new_text_decoder_def decoder_emit_def strip_bom_def del: utf8_simps)
  show ?thesis unfolding Let_def using ne rows_of_the_whole_text [OF ne] by blast
qed

text \<open>
  The condition is needed: an empty chunk between the two halves of a CR LF (or of a byte-order mark and what follows) is
  taken for text, the pending CR is forgotten, and the LF counts as an empty line, which ends the event early.
\<close>

lemma empty_chunk_ends_the_event:
  assumes a: "a = utf8 [100, 97, 116, 97, 58, 97, 13]" and b: "b = utf8 [10, 100, 97, 116, 97, 58, 98, 10, 10]"
  shows "map sr_data (sse_rows [(a, 0), (b, 0)]) = [[97, 10, 98]]"
    and "map sr_data (sse_rows [(a, 0), ([], 0), (b, 0)]) = [[97], [98]]"
proof -
  note code = sse_push_def decode_stream_def decoder_emit_def strip_bom_def consume_text_def starts_with_def ends_with_cr_def
    handle_field_def reset_event_def ustring_of_def
  have fields: "split_field [100, 97, 116, 97, 58, 97] = ([100, 97, 116, 97], [97])"
      "split_field [100, 97, 116, 97, 58, 98] = ([100, 97, 116, 97], [98])"
    by (simp_all add: split_field_def starts_with_def Let_def)
  have f: "utf8_flush utf8_start = []" by (simp add: utf8_flush_def utf8_start_def)
  have run: "utf8_run utf8_start a = (utf8_start, [100, 97, 116, 97, 58, 97, 13])"
      "utf8_run utf8_start b = (utf8_start, [10, 100, 97, 116, 97, 58, 98, 10, 10])"
    unfolding a b by (rule ascii_bytes, simp)+
  define s1 where "s1 = create_sse_parser\<lparr>ss_decoder := \<lparr>td_state = utf8_start, td_seen = True\<rparr>, ss_saw_text := True,
    ss_pending_cr := True, ss_data_lines := [[97]], ss_event_lines := [[100, 97, 116, 97, 58, 97]], ss_has_data := True\<rparr>"
  have p1: "sse_push create_sse_parser a 0 = (s1, [])"
    by (simp add: s1_def create_sse_parser_def new_text_decoder_def code run fields)
  have p2: "sse_push s1 [] 0 = (s1\<lparr>ss_pending_cr := False\<rparr>, [])"
    by (simp add: s1_def create_sse_parser_def new_text_decoder_def code)
  have "map sr_data (snd (sse_push s1 b 0)) = [[97, 10, 98]]" "td_state (ss_decoder (fst (sse_push s1 b 0))) = utf8_start"
    by (simp_all add: s1_def create_sse_parser_def new_text_decoder_def code run fields)
  then show "map sr_data (sse_rows [(a, 0), (b, 0)]) = [[97, 10, 98]]"
    by (simp add: sse_rows_def p1 sse_end_def decode_end_def decoder_emit_def f strip_bom_def Let_def case_prod_unfold)
  have "map sr_data (snd (sse_push (s1\<lparr>ss_pending_cr := False\<rparr>) b 0)) = [[97], [98]]"
      "td_state (ss_decoder (fst (sse_push (s1\<lparr>ss_pending_cr := False\<rparr>) b 0))) = utf8_start"
    by (simp_all add: s1_def create_sse_parser_def new_text_decoder_def code run fields)
  then show "map sr_data (sse_rows [(a, 0), ([], 0), (b, 0)]) = [[97], [98]]"
    by (simp add: sse_rows_def p1 p2 sse_end_def decode_end_def decoder_emit_def f strip_bom_def Let_def case_prod_unfold)
qed

section \<open>What the decoder and the parser can produce\<close>

text \<open>Texts of one line, and the rows a parser emits: none of their parts holds a line end, but the data its LFs.\<close>

definition one_line :: "ustring \<Rightarrow> bool" where
  "one_line t \<longleftrightarrow> scalars t \<and> LF \<notin> set t \<and> CR \<notin> set t"

fun sse_row_ok :: "sse_row \<Rightarrow> bool" where
  "sse_row_ok (Sse_event i t n ev d eid lid) \<longleftrightarrow>
     one_line ev \<and> ev \<noteq> [] \<and> scalars d \<and> CR \<notin> set d \<and> (\<forall>x. eid = Some x \<longrightarrow> one_line x \<and> 0 \<notin> set x)"
| "sse_row_ok (Sse_comment i t n x) \<longleftrightarrow> one_line x"
| "sse_row_ok (Sse_retry i t n m) \<longleftrightarrow> True"

definition sse_ok :: "sse \<Rightarrow> bool" where
  "sse_ok s \<longleftrightarrow> decoder_ok (ss_decoder s) \<and> scalars (ss_carry s) \<and> one_line (ss_event_type s) \<and>
     (\<forall>l \<in> set (ss_data_lines s). one_line l) \<and> (\<forall>x. ss_event_id s = Some x \<longrightarrow> one_line x \<and> 0 \<notin> set x)"

lemma one_line_sub: "one_line t \<Longrightarrow> set u \<subseteq> set t \<Longrightarrow> one_line u"
  by (auto simp: one_line_def)

lemma split_field_sub: "set (snd (split_field l)) \<subseteq> set l"
  by (auto simp: split_field_def Let_def dest: in_set_dropD)

lemma set_join_subset: "set (join sep ls) \<subseteq> set sep \<union> \<Union> (set ` set ls)"
  by (induction sep ls rule: join.induct) auto

lemma handle_field_ok:
  assumes "sse_ok s" "one_line l"
  shows "sse_ok (fst (handle_field s l t)) \<and> (\<forall>r \<in> set (snd (handle_field s l t)). sse_row_ok r)"
proof -
  obtain f v where fv: "split_field l = (f, v)" by (cases "split_field l")
  have v: "one_line v" using one_line_sub [OF assms(2) split_field_sub] by (simp add: fv)
  have d: "one_line (drop 1 l)" by (rule one_line_sub [OF assms(2)]) (rule set_drop_subset)
  have m: "one_line (ustring_of ''message'')" "ustring_of ''message'' \<noteq> []" by (simp_all add: ustring_of_def one_line_def scalar_def)
  have j: "scalars (join [LF] (ss_data_lines s)) \<and> CR \<notin> set (join [LF] (ss_data_lines s))"
    using assms(1) set_join_subset [of "[LF]" "ss_data_lines s"] by (fastforce simp: sse_ok_def one_line_def scalar_def)
  show ?thesis
    using assms(1) v d m j by (auto simp: handle_field_def reset_event_def sse_ok_def fv Let_def)
qed

lemma handle_fields_ok:
  "sse_ok s \<Longrightarrow> \<forall>l \<in> set ls. one_line l \<Longrightarrow>
   sse_ok (fst (handle_fields s ls t)) \<and> (\<forall>r \<in> set (snd (handle_fields s ls t)). sse_row_ok r)"
proof (induction ls arbitrary: s)
  case (Cons l ls)
  then show ?case
    using handle_field_ok [OF Cons.prems(1), of l t] Cons.IH [of "fst (handle_field s l t)"] by (auto simp: Let_def case_prod_unfold)
qed simp

lemma normalize_eol_subset: "set (normalize_eol t) \<subseteq> insert LF (set t)"
  by (induction t rule: normalize_eol.induct) (auto dest: in_set_dropD)

lemma consume_text_ok:
  assumes "sse_ok s" "scalars t"
  shows "sse_ok (fst (consume_text s t w)) \<and> (\<forall>r \<in> set (snd (consume_text s t w)). sse_row_ok r)"
proof -
  have lines: "one_line l" if "l \<in> set (split_on LF (normalize_eol u))" "scalars u" for l u
  proof -
    have "set l \<subseteq> insert LF (set u)" using split_on_subset [OF that(1)] normalize_eol_subset [of u] by blast
    moreover have "set l \<subseteq> set (normalize_eol u)" by (rule split_on_subset [OF that(1)])
    ultimately show ?thesis
      using that(2) normalize_eol_no_cr [of u] split_on_pieces [OF that(1)] by (auto simp: one_line_def)
  qed
  obtain u where u: "scalars u" "fst (consume_text s t w) = fst (handle_fields (s\<lparr>ss_saw_text := True, ss_pending_cr := ends_with_cr u,
        ss_carry := last (split_on LF (normalize_eol u))\<rparr>) (butlast (split_on LF (normalize_eol u))) w)"
      "snd (consume_text s t w) = snd (handle_fields (s\<lparr>ss_saw_text := True, ss_pending_cr := ends_with_cr u,
        ss_carry := last (split_on LF (normalize_eol u))\<rparr>) (butlast (split_on LF (normalize_eol u))) w)"
  proof
    let ?b = "ss_carry s @ (if ss_saw_text s then t else strip_bom t)"
    let ?u = "if ss_pending_cr s \<and> starts_with ?b [LF] then drop 1 ?b else ?b"
    have "set ?u \<subseteq> set (ss_carry s) \<union> set t" using strip_bom_subset [of t] by (auto dest: in_set_dropD)
    then show "scalars ?u" using assms by (auto simp: sse_ok_def)
    have n: "(if ends_with_cr ?u then normalize_eol (if ends_with_cr ?u then butlast ?u else ?u) @ [LF]
        else normalize_eol (if ends_with_cr ?u then butlast ?u else ?u)) = normalize_eol ?u"
      by (rule normalized_eol)
    show "fst (consume_text s t w) = fst (handle_fields (s\<lparr>ss_saw_text := True, ss_pending_cr := ends_with_cr ?u,
        ss_carry := last (split_on LF (normalize_eol ?u))\<rparr>) (butlast (split_on LF (normalize_eol ?u))) w)"
      "snd (consume_text s t w) = snd (handle_fields (s\<lparr>ss_saw_text := True, ss_pending_cr := ends_with_cr ?u,
        ss_carry := last (split_on LF (normalize_eol ?u))\<rparr>) (butlast (split_on LF (normalize_eol ?u))) w)"
      unfolding consume_text_def Let_def n by (rule refl)+
  qed
  have "one_line (last (split_on LF (normalize_eol u)))" by (rule lines [OF _ u(1)]) simp
  then have "sse_ok (s\<lparr>ss_saw_text := True, ss_pending_cr := ends_with_cr u, ss_carry := last (split_on LF (normalize_eol u))\<rparr>)"
    using assms(1) by (simp add: sse_ok_def one_line_def)
  moreover have "\<forall>l \<in> set (butlast (split_on LF (normalize_eol u))). one_line l" using lines u(1) in_set_butlastD by metis
  ultimately show ?thesis using handle_fields_ok u(2,3) by simp
qed

lemma sse_push_ok:
  assumes "sse_ok s"
  shows "sse_ok (fst (sse_push s c t)) \<and> (\<forall>r \<in> set (snd (sse_push s c t)). sse_row_ok r)"
proof -
  obtain d u where d: "decode_stream (ss_decoder s) c = (d, u)" by (cases "decode_stream (ss_decoder s) c")
  have "decoder_ok d" "scalars u" using decode_stream_ok [of "ss_decoder s" c] assms d by (simp_all add: sse_ok_def)
  moreover from this have "sse_ok (s\<lparr>ss_last_at := t, ss_decoder := d\<rparr>)" using assms by (simp add: sse_ok_def)
  ultimately show ?thesis using consume_text_ok by (simp add: sse_push_def d)
qed

lemma sse_feed_ok:
  "sse_ok s \<Longrightarrow> sse_ok (fst (sse_feed s cs)) \<and> (\<forall>r \<in> set (snd (sse_feed s cs)). sse_row_ok r)"
proof (induction cs arbitrary: s)
  case (Cons x cs)
  obtain c t where x: "x = (c, t)" by (cases x)
  show ?case using sse_push_ok [OF Cons.prems, of c t] Cons.IH [of "fst (sse_push s c t)"]
    by (auto simp: x Let_def case_prod_unfold)
qed simp

lemma create_sse_parser_ok: "sse_ok create_sse_parser"
  by (simp add: sse_ok_def create_sse_parser_def new_text_decoder_ok one_line_def)

lemma sse_rows_ok: "\<forall>r \<in> set (sse_rows cs). sse_row_ok r"
proof -
  obtain s rows where f: "sse_feed create_sse_parser cs = (s, rows)" by (cases "sse_feed create_sse_parser cs")
  then have s: "sse_ok s" "\<forall>r \<in> set rows. sse_row_ok r" using sse_feed_ok [OF create_sse_parser_ok, of cs] by simp_all
  have "sse_ok (s\<lparr>ss_decoder := new_text_decoder\<rparr>)" using s(1) new_text_decoder_ok by (simp add: sse_ok_def)
  then have "\<forall>r \<in> set (snd (sse_end s)). sse_row_ok r"
    using consume_text_ok [OF _ decode_end_ok, of "s\<lparr>ss_decoder := new_text_decoder\<rparr>" "ss_decoder s" "ss_last_at s"]
    by (simp add: sse_end_def Let_def)
  then show ?thesis using f s(2) by (auto simp: sse_rows_def)
qed

section \<open>Writing rows and reading them back\<close>

text \<open>What a row says, apart from where and when it arrived and the id still standing.\<close>

fun row_content :: "sse_row \<Rightarrow> sse_row" where
  "row_content (Sse_event i t n ev d eid lid) = Sse_event 0 0 0 ev d eid []"
| "row_content (Sse_comment i t n x) = Sse_comment 0 0 0 x"
| "row_content (Sse_retry i t n m) = Sse_retry 0 0 0 m"

definition row_lines :: "sse_row \<Rightarrow> ustring list" where
  "row_lines r =
     (case r of
        Sse_comment _ _ _ t \<Rightarrow> [COLON # t, []]
      | Sse_retry _ _ _ ms \<Rightarrow> [ustring_of ''retry: '' @ ustring_of (show_nat ms), []]
      | Sse_event _ _ _ ev data eid _ \<Rightarrow>
          (if ev \<noteq> ustring_of ''message'' then [ustring_of ''event: '' @ ev] else []) @
          (case eid of Some i \<Rightarrow> [ustring_of ''id: '' @ i] | None \<Rightarrow> []) @
          map (\<lambda>line. ustring_of ''data: '' @ line) (split_on LF data) @ [[]])"

definition terminated :: "ustring list \<Rightarrow> ustring" where
  "terminated ls = concat (map (\<lambda>l. l @ [LF]) ls)"

lemma terminated_simps [simp]: "terminated [] = []" "terminated (l # ls) = l @ LF # terminated ls"
    "terminated (ls @ ms) = terminated ls @ terminated ms"
  by (simp_all add: terminated_def)

lemma terminated_map: "terminated (map f ls) = concat (map (\<lambda>l. f l @ [LF]) ls)"
  by (simp add: terminated_def comp_def)

lemma serialize_row_lines: "serialize_row r = terminated (row_lines r)"
  by (simp add: serialize_row_def row_lines_def terminated_map split: sse_row.split option.split)

lemma serialize_event_stream_lines: "serialize_event_stream rows = terminated (concat (map row_lines rows))"
proof -
  have "foldl (\<lambda>out r. out @ serialize_row r) out rows = out @ terminated (concat (map row_lines rows))" for out
    by (induction rows arbitrary: out) (simp_all add: serialize_row_lines)
  then show ?thesis by (simp add: serialize_event_stream_def)
qed

lemma split_terminated: "\<forall>l \<in> set ls. c \<notin> set l \<Longrightarrow> split_on c (concat (map (\<lambda>l. l @ [c]) ls)) = ls @ [[]]"
  by (induction ls) (simp_all add: split_on_append)

lemma event_stream_lines_terminated: "\<forall>l \<in> set ls. one_line l \<Longrightarrow> event_stream_lines (terminated ls) = ls"
proof -
  assume ol: "\<forall>l \<in> set ls. one_line l"
  then have "CR \<notin> set (terminated ls)" by (auto simp: terminated_def one_line_def)
  then show ?thesis
    using ol split_terminated [of ls LF] by (simp add: event_stream_lines_def normalize_eol_id one_line_def terminated_def)
qed

lemma scalar_letters: "c \<in> set (ustring_of s) \<Longrightarrow> scalar c"
  by (rule scalar_ustring_of)

lemma retry_digits: "one_line (ustring_of (show_nat n))" "all_digits (ustring_of (show_nat n))" "digits_value (ustring_of (show_nat n)) = n"
proof -
  have d: "\<forall>c \<in> set (ustring_of (show_nat n)). 48 \<le> c \<and> c \<le> 57" using show_nat_digits [of n] by (auto simp: ustring_of_def)
  then show "one_line (ustring_of (show_nat n))" by (fastforce simp: one_line_def scalar_def)
  have "show_nat n \<noteq> []" by (subst show_nat.simps) simp
  then show "all_digits (ustring_of (show_nat n))" using d by (simp add: all_digits_def list_all_iff ustring_of_def)
  have "foldl (\<lambda>a c. 10 * a + ((of_char c :: nat) - 48)) 0 (show_nat n) = n"
    using show_nat_value [of n] by (simp add: mult.commute)
  then show "digits_value (ustring_of (show_nat n)) = n" by (simp add: digits_value_def ustring_of_def foldl_map)
qed

lemma split_on_data: "scalars d \<Longrightarrow> CR \<notin> set d \<Longrightarrow> l \<in> set (split_on LF d) \<Longrightarrow> one_line l"
  using split_on_subset [of l LF d] split_on_pieces [of l LF d] by (auto simp: one_line_def)

lemma one_line_append [simp]: "one_line (u @ v) \<longleftrightarrow> one_line u \<and> one_line v"
  by (auto simp: one_line_def)

lemma one_line_words: "one_line (ustring_of ''event: '')" "one_line (ustring_of ''id: '')" "one_line (ustring_of ''data: '')"
    "one_line (ustring_of ''retry: '')" "one_line []" "one_line (COLON # t) \<longleftrightarrow> one_line t"
  by (auto simp: one_line_def ustring_of_def scalar_def)

lemma row_lines_one_line: "sse_row_ok r \<Longrightarrow> l \<in> set (row_lines r) \<Longrightarrow> one_line l"
  by (cases r) (auto simp: row_lines_def one_line_words split_on_data retry_digits(1) split: if_splits option.splits)

definition clean :: "sse \<Rightarrow> bool" where
  "clean s \<longleftrightarrow> ss_event_type s = [] \<and> ss_data_lines s = [] \<and> ss_event_lines s = [] \<and> ss_event_id s = None \<and> \<not> ss_has_data s"

lemma split_field_written: "COLON \<notin> set f \<Longrightarrow> split_field (f @ COLON # SPACE # v) = (f, v)"
proof -
  assume "COLON \<notin> set f"
  then have "takeWhile (\<lambda>c. c \<noteq> COLON) (f @ COLON # SPACE # v) = f" by (subst takeWhile_append2) auto
  then show ?thesis by (simp only: split_field_def Let_def) (simp add: starts_with_def)
qed

lemma handle_event_line:
  "handle_field s (ustring_of ''event: '' @ v) t =
     (s\<lparr>ss_event_type := v, ss_event_lines := ss_event_lines s @ [ustring_of ''event: '' @ v]\<rparr>, [])"
  using split_field_written [of "ustring_of ''event''" v] by (simp add: handle_field_def ustring_of_def starts_with_def)

lemma handle_id_line:
  "0 \<notin> set v \<Longrightarrow> handle_field s (ustring_of ''id: '' @ v) t =
     (s\<lparr>ss_event_id := Some v, ss_last_event_id := v, ss_event_lines := ss_event_lines s @ [ustring_of ''id: '' @ v]\<rparr>, [])"
  using split_field_written [of "ustring_of ''id''" v] by (simp add: handle_field_def ustring_of_def starts_with_def)

lemma handle_data_lines:
  "handle_fields s (map (\<lambda>l. ustring_of ''data: '' @ l) ls) t =
     (s\<lparr>ss_data_lines := ss_data_lines s @ ls, ss_event_lines := ss_event_lines s @ map (\<lambda>l. ustring_of ''data: '' @ l) ls,
        ss_has_data := ss_has_data s \<or> ls \<noteq> []\<rparr>, [])"
proof (induction ls arbitrary: s)
  case (Cons l ls)
  have "handle_field s (ustring_of ''data: '' @ l) t =
      (s\<lparr>ss_data_lines := ss_data_lines s @ [l], ss_event_lines := ss_event_lines s @ [ustring_of ''data: '' @ l], ss_has_data := True\<rparr>, [])"
    using split_field_written [of "ustring_of ''data''" l]
    by (simp add: handle_field_def ustring_of_def starts_with_def)
  then show ?case by (simp add: Cons)
qed simp

lemma row_lines_handled:
  assumes "sse_row_ok r" "clean s"
  shows "\<exists>s' r'. handle_fields s (row_lines r) 0 = (s', [r']) \<and> clean s' \<and> row_content r' = row_content r"
proof (cases r)
  case (Sse_comment i t n x)
  then show ?thesis using assms(2)
    by (simp add: row_lines_def handle_field_def starts_with_def clean_def reset_event_def)
next
  case (Sse_retry i t n m)
  have "handle_field s (ustring_of ''retry: '' @ ustring_of (show_nat m)) 0 =
      (s\<lparr>ss_index := ss_index s + 1\<rparr>, [Sse_retry (ss_index s) 0 (line_size [ustring_of ''retry: '' @ ustring_of (show_nat m)]) m])"
    using split_field_written [of "ustring_of ''retry''" "ustring_of (show_nat m)"] retry_digits(2,3)
    by (simp add: handle_field_def ustring_of_def starts_with_def)
  then show ?thesis using assms(2) Sse_retry
    by (simp add: row_lines_def handle_field_def [of _ "[]"] clean_def reset_event_def)
next
  case (Sse_event i t n ev d eid lid)
  note ok = assms(1) [unfolded Sse_event sse_row_ok.simps]
  let ?s1 = "if ev \<noteq> ustring_of ''message'' then s\<lparr>ss_event_type := ev, ss_event_lines := [ustring_of ''event: '' @ ev]\<rparr> else s"
  have 1: "handle_fields s (if ev \<noteq> ustring_of ''message'' then [ustring_of ''event: '' @ ev] else []) 0 = (?s1, [])"
    using assms(2) by (simp add: handle_event_line clean_def)
  define s2 where "s2 = (case eid of None \<Rightarrow> ?s1 | Some x \<Rightarrow> ?s1\<lparr>ss_event_id := Some x, ss_last_event_id := x,
    ss_event_lines := ss_event_lines ?s1 @ [ustring_of ''id: '' @ x]\<rparr>)"
  have 2: "handle_fields ?s1 (case eid of Some x \<Rightarrow> [ustring_of ''id: '' @ x] | None \<Rightarrow> []) 0 = (s2, [])"
  proof (cases eid)
    case (Some x)
    then show ?thesis using ok handle_id_line [of x ?s1 0] by (simp add: s2_def)
  qed (simp add: s2_def)
  have s2: "ss_event_type s2 = (if ev \<noteq> ustring_of ''message'' then ev else [])" "ss_data_lines s2 = []" "ss_event_id s2 = eid"
    using assms(2) by (simp_all add: s2_def clean_def split: option.split)
  show ?thesis
    unfolding Sse_event row_lines_def sse_row.case
    using ok by (simp add: handle_fields_append 1 2 handle_data_lines handle_field_def [of _ "[]"] s2 join_split_on clean_def reset_event_def)
qed

lemma rows_handled:
  assumes "\<forall>r \<in> set rows. sse_row_ok r" "clean s"
  shows "map row_content (snd (handle_fields s (concat (map row_lines rows)) 0)) = map row_content rows"
  using assms
proof (induction rows arbitrary: s)
  case (Cons r rows)
  obtain s' r' where h: "handle_fields s (row_lines r) 0 = (s', [r'])" "clean s'" "row_content r' = row_content r"
    using row_lines_handled [of r s] Cons.prems by auto
  then show ?case using Cons by (simp add: handle_fields_append case_prod_unfold Let_def)
qed simp

lemma serialized_rows:
  assumes "\<forall>r \<in> set rows. sse_row_ok r"
  shows "map row_content (sse_rows [(utf8 (serialize_event_stream rows), t)]) = map row_content rows"
proof -
  let ?ls = "concat (map row_lines rows)"
  let ?t = "terminated ?ls"
  have ol: "\<forall>l \<in> set ?ls. one_line l" using assms row_lines_one_line by auto
  have sc: "scalars ?t" using ol by (auto simp: terminated_def one_line_def scalar_def)
  have bom: "strip_bom ?t = ?t"
  proof (cases rows)
    case (Cons r rs)
    have "?t \<noteq> [] \<and> hd ?t \<noteq> BOM"
      by (cases r; cases "split_on LF (sr_data r)")
        (auto simp: Cons row_lines_def ustring_of_def hd_append split: option.split list.split)
    then show ?thesis by (cases ?t) (simp_all add: strip_bom_def)
  qed (simp add: strip_bom_def)
  have content: "row_content \<circ> no_at = row_content"
  proof
    show "(row_content \<circ> no_at) r = row_content r" for r by (cases r) simp_all
  qed
  show ?thesis
  proof (cases "rows = []")
    case True
    then show ?thesis
      by (simp add: serialize_event_stream_def sse_rows_def sse_push_def decode_stream_def decoder_emit_def create_sse_parser_def
          new_text_decoder_def utf8_start_def strip_bom_def consume_text_def starts_with_def ends_with_cr_def sse_end_def
          decode_end_def utf8_flush_def)
  next
    case False
    have "utf8_run utf8_start (utf8 ?t) = (utf8_start, ?t)" by (rule utf8_run_utf8 [OF sc])
    moreover have "?t \<noteq> []"
      using False by (cases rows; cases "hd rows") (auto simp: row_lines_def split: option.split)
    ultimately have "[] \<notin> set (sse_texts new_text_decoder (map fst [(utf8 ?t, t)]))"
      using bom by (simp add: decode_stream_def new_text_decoder_def decoder_emit_def)
    then have "map no_at (sse_rows [(utf8 ?t, t)]) = event_stream_rows (text_decode (utf8 ?t))"
      using sse_rows_whole [of "[(utf8 ?t, t)]"] by simp
    also have "\<dots> = snd (handle_fields create_sse_parser ?ls 0)"
      using buffer_to_string_utf8 [OF sc] bom event_stream_lines_terminated [OF ol]
      by (simp add: text_decode_def event_stream_rows_def)
    finally have "map row_content (map no_at (sse_rows [(utf8 ?t, t)])) = map row_content rows"
      using rows_handled [OF assms, of create_sse_parser] by (simp add: clean_def create_sse_parser_def)
    then show ?thesis by (simp add: serialize_event_stream_lines content)
  qed
qed

text \<open>The rows of any response, written as an event stream and read again, are the same rows: kind, event name, data,
  id, comment and retry time; retry times are numbers a double holds exactly.\<close>

theorem event_stream_roundtrip:
  assumes "\<forall>r \<in> set (sse_rows cs). case r of Sse_retry _ _ _ ms \<Rightarrow> ms < 2 ^ 53 | _ \<Rightarrow> True"
  shows "map row_content (sse_rows [(utf8 (serialize_event_stream (sse_rows cs)), t)]) = map row_content (sse_rows cs)"
  using sse_rows_ok [of cs] by (rule serialized_rows)


lemma event_stream_roundtrip_witness:
  "\<exists>cs. map row_content (sse_rows cs) = [Sse_retry 0 0 0 5] \<and>
     map row_content (sse_rows [(utf8 (serialize_event_stream (sse_rows cs)), 7)]) = [Sse_retry 0 0 0 5]"
proof (intro exI conjI)
  define u where "u = ustring_of ''retry: 5'' @ [10]"
  let ?cs = "[(utf8 u, 3)]"
  have "utf8_run utf8_start (utf8 u) = (utf8_start, u)"
    by (rule utf8_run_utf8) (simp add: u_def ustring_of_def scalar_def)
  then have rows: "sse_rows ?cs = [Sse_retry 0 3 9 5]"
    by (simp add: sse_rows_def sse_push_def decode_stream_def decoder_emit_def create_sse_parser_def new_text_decoder_def)
      (simp add: u_def ustring_of_def strip_bom_def consume_text_def starts_with_def ends_with_cr_def handle_field_def
        split_field_def all_digits_def digits_value_def line_size_def utf8_char_def sse_end_def decode_end_def decoder_emit_def
        utf8_flush_def utf8_start_def)
  then show "map row_content (sse_rows ?cs) = [Sse_retry 0 0 0 5]" by simp
  show "map row_content (sse_rows [(utf8 (serialize_event_stream (sse_rows ?cs)), 7)]) = [Sse_retry 0 0 0 5]"
    using event_stream_roundtrip [of ?cs 7] rows by simp
qed

end
