(* ===== verification/Telnet.thy ===== *)
theory Telnet
  imports Utf8 Text Machine Chunked
begin

text \<open>
  Telnet sessions (\<^verbatim>\<open>packages/ssh/src/telnet.ts\<close>): the codec of option negotiation and framing, the sign-in that types the
  user and the password at the device's prompts, and the session that joins them to a socket. The socket's writes and
  what the listeners get are the effects of a step.
\<close>

section \<open>The codec\<close>

abbreviation IAC :: byte where "IAC \<equiv> 255"
abbreviation DONT :: byte where "DONT \<equiv> 254"
abbreviation DO :: byte where "DO \<equiv> 253"
abbreviation WONT :: byte where "WONT \<equiv> 252"
abbreviation WILL :: byte where "WILL \<equiv> 251"
abbreviation SB :: byte where "SB \<equiv> 250"
abbreviation SE :: byte where "SE \<equiv> 240"
abbreviation CR_byte :: byte where "CR_byte \<equiv> 13"
abbreviation LF_byte :: byte where "LF_byte \<equiv> 10"
abbreviation NUL_byte :: byte where "NUL_byte \<equiv> 0"

abbreviation opt_binary :: byte where "opt_binary \<equiv> 0"
abbreviation opt_echo :: byte where "opt_echo \<equiv> 1"
abbreviation opt_sga :: byte where "opt_sga \<equiv> 3"
abbreviation opt_ttype :: byte where "opt_ttype \<equiv> 24"
abbreviation opt_naws :: byte where "opt_naws \<equiv> 31"
abbreviation TTYPE_IS :: byte where "TTYPE_IS \<equiv> 0"
abbreviation TTYPE_SEND :: byte where "TTYPE_SEND \<equiv> 1"

definition SERVER_MAY :: "byte list" where
  "SERVER_MAY = [opt_echo, opt_sga, opt_binary]"

definition CLIENT_WILL :: "byte list" where
  "CLIENT_WILL = [opt_ttype, opt_naws, opt_sga, opt_binary]"

datatype option_state = Opt_no | Opt_yes | Opt_asked

datatype parse_state = In_data | In_iac | In_verb | In_sb | In_sb_iac

record telnet =
  tn_us :: "(byte, option_state) jsmap"
  tn_him :: "(byte, option_state) jsmap"
  tn_state :: parse_state
  tn_verb :: byte
  tn_sub :: bytes
  tn_after_cr :: bool
  tn_cols :: nat
  tn_rows :: nat
  tn_type :: string

definition new_telnet :: "string \<Rightarrow> nat \<Rightarrow> nat \<Rightarrow> telnet" where
  "new_telnet terminal_type cols rows =
     \<lparr>tn_us = [], tn_him = [], tn_state = In_data, tn_verb = 0, tn_sub = [], tn_after_cr = False,
      tn_cols = cols, tn_rows = rows, tn_type = terminal_type\<rparr>"

definition telnet_start :: "telnet \<Rightarrow> telnet \<times> bytes" where
  "telnet_start t =
     (t\<lparr>tn_us := jsset (jsset (tn_us t) opt_ttype Opt_asked) opt_naws Opt_asked, tn_him := jsset (tn_him t) opt_sga Opt_asked\<rparr>,
      [IAC, WILL, opt_ttype, IAC, WILL, opt_naws, IAC, DO, opt_sga])"

text \<open>\<^verbatim>\<open>map.get(option) ?? 'no'\<close>.\<close>

definition option_of :: "(byte, option_state) jsmap \<Rightarrow> byte \<Rightarrow> option_state" where
  "option_of m k = (case jsget m k of Some s \<Rightarrow> s | None \<Rightarrow> Opt_no)"

definition server_does :: "telnet \<Rightarrow> byte \<Rightarrow> bool" where
  "server_does t k \<longleftrightarrow> jsget (tn_him t) k = Some Opt_yes"

definition client_does :: "telnet \<Rightarrow> byte \<Rightarrow> bool" where
  "client_does t k \<longleftrightarrow> jsget (tn_us t) k = Some Opt_yes"

definition naws :: "telnet \<Rightarrow> bytes" where
  "naws t =
     [IAC, SB, opt_naws] @
     concat (map (\<lambda>b. if b = IAC then [IAC, IAC] else [b])
       [byte_of (tn_cols t div 256), byte_of (tn_cols t), byte_of (tn_rows t div 256), byte_of (tn_rows t)]) @
     [IAC, SE]"

definition negotiate :: "telnet \<Rightarrow> byte \<Rightarrow> byte \<Rightarrow> telnet \<times> bytes" where
  "negotiate t verb k =
     (if verb = WILL \<or> verb = WONT then
        (let state = option_of (tn_him t) k in
         if verb = WILL then
           (if state = Opt_yes then (t, [])
            else if k \<notin> set SERVER_MAY then (t, if state = Opt_no then [IAC, DONT, k] else [])
            else (t\<lparr>tn_him := jsset (tn_him t) k Opt_yes\<rparr>, if state = Opt_asked then [] else [IAC, DO, k]))
         else if state = Opt_no then (t, [])
         else (t\<lparr>tn_him := jsset (tn_him t) k Opt_no\<rparr>, if state = Opt_yes then [IAC, DONT, k] else []))
      else
        (let state = option_of (tn_us t) k in
         if verb = DO then
           (if state = Opt_yes then (t, [])
            else if k \<notin> set CLIENT_WILL then (t, if state = Opt_no then [IAC, WONT, k] else [])
            else let t1 = t\<lparr>tn_us := jsset (tn_us t) k Opt_yes\<rparr>;
                     answer = (if state = Opt_asked then [] else [IAC, WILL, k]) in
              (t1, if k = opt_naws then answer @ naws t1 else answer))
         else if state = Opt_no then (t, [])
         else (t\<lparr>tn_us := jsset (tn_us t) k Opt_no\<rparr>, if state = Opt_yes then [IAC, WONT, k] else [])))"

text \<open>\<^verbatim>\<open>Buffer.from(s, 'ascii')\<close> writes the low byte of each code unit.\<close>

definition type_bytes :: "string \<Rightarrow> bytes" where
  "type_bytes s = map (\<lambda>c. byte_of (of_char c)) s"

definition subnegotiate :: "telnet \<Rightarrow> bytes \<Rightarrow> bytes" where
  "subnegotiate t sub =
     (case sub of
        k # v # rest \<Rightarrow>
          if k = opt_ttype \<and> v = TTYPE_SEND \<and> option_of (tn_us t) opt_ttype \<noteq> Opt_no
          then [IAC, SB, opt_ttype, TTYPE_IS] @ type_bytes (tn_type t) @ [IAC, SE] else []
      | _ \<Rightarrow> [])"

text \<open>What a byte of the server gives: a byte for the terminal, or one to send back.\<close>

datatype telnet_out = To_terminal byte | To_server byte

definition telnet_byte :: "telnet \<Rightarrow> byte \<Rightarrow> telnet \<times> telnet_out list" where
  "telnet_byte t b =
     (case tn_state t of
        In_data \<Rightarrow>
          if b = IAC then (t\<lparr>tn_state := In_iac\<rparr>, [])
          else if tn_after_cr t \<and> b = NUL_byte then (t\<lparr>tn_after_cr := False\<rparr>, [])
          else (t\<lparr>tn_after_cr := (b = CR_byte)\<rparr>, [To_terminal b])
      | In_iac \<Rightarrow>
          if b = IAC then (t\<lparr>tn_after_cr := False, tn_state := In_data\<rparr>, [To_terminal IAC])
          else if b = WILL \<or> b = WONT \<or> b = DO \<or> b = DONT then (t\<lparr>tn_verb := b, tn_state := In_verb\<rparr>, [])
          else if b = SB then (t\<lparr>tn_sub := [], tn_state := In_sb\<rparr>, [])
          else (t\<lparr>tn_state := In_data\<rparr>, [])
      | In_verb \<Rightarrow>
          (let (t1, r) = negotiate t (tn_verb t) b in (t1\<lparr>tn_state := In_data\<rparr>, map To_server r))
      | In_sb \<Rightarrow>
          if b = IAC then (t\<lparr>tn_state := In_sb_iac\<rparr>, []) else (t\<lparr>tn_sub := tn_sub t @ [b]\<rparr>, [])
      | In_sb_iac \<Rightarrow>
          if b = IAC then (t\<lparr>tn_sub := tn_sub t @ [IAC], tn_state := In_sb\<rparr>, [])
          else (t\<lparr>tn_sub := [], tn_state := In_data\<rparr>, if b = SE then map To_server (subnegotiate t (tn_sub t)) else []))"

fun telnet_bytes :: "telnet \<Rightarrow> bytes \<Rightarrow> telnet \<times> telnet_out list" where
  "telnet_bytes t [] = (t, [])"
| "telnet_bytes t (b # bs) = (let (t1, o1) = telnet_byte t b; (t2, o2) = telnet_bytes t1 bs in (t2, o1 @ o2))"

definition terminal_part :: "telnet_out list \<Rightarrow> bytes" where
  "terminal_part os = List.map_filter (\<lambda>x. case x of To_terminal b \<Rightarrow> Some b | _ \<Rightarrow> None) os"

definition server_part :: "telnet_out list \<Rightarrow> bytes" where
  "server_part os = List.map_filter (\<lambda>x. case x of To_server b \<Rightarrow> Some b | _ \<Rightarrow> None) os"

text \<open>\<^verbatim>\<open>receive\<close>: the codec, the terminal's bytes and the reply.\<close>

definition telnet_receive :: "telnet \<Rightarrow> bytes \<Rightarrow> telnet \<times> bytes \<times> bytes" where
  "telnet_receive t chunk = (let (t1, os) = telnet_bytes t chunk in (t1, terminal_part os, server_part os))"

fun encode_bytes :: "bool \<Rightarrow> bytes \<Rightarrow> bytes" where
  "encode_bytes binary [] = []"
| "encode_bytes binary (b # bs) =
     (if b = IAC then IAC # IAC # encode_bytes binary bs
      else if b = CR_byte \<and> \<not> binary then
        CR_byte # LF_byte # (if starts_with bs [LF_byte] then encode_bytes binary (drop 1 bs) else encode_bytes binary bs)
      else b # encode_bytes binary bs)"

definition telnet_encode :: "telnet \<Rightarrow> bytes \<Rightarrow> bytes" where
  "telnet_encode t input = encode_bytes (client_does t opt_binary \<and> server_does t opt_binary) input"

definition telnet_resize :: "telnet \<Rightarrow> nat \<Rightarrow> nat \<Rightarrow> telnet \<times> bytes" where
  "telnet_resize t cols rows =
     (let t1 = t\<lparr>tn_cols := cols, tn_rows := rows\<rparr> in (t1, if client_does t1 opt_naws then naws t1 else []))"

section \<open>The sign-in\<close>

text \<open>Texts are lists of UTF-16 code units here, as \<^verbatim>\<open>slice\<close> and the patterns see them.\<close>

definition utf16 :: "ustring \<Rightarrow> nat list" where
  "utf16 t = concat (map (\<lambda>c. if c < 0x10000 then [c] else [0xD800 + (c - 0x10000) div 1024, 0xDC00 + (c - 0x10000) mod 1024]) t)"

abbreviation ESC :: nat where "ESC \<equiv> 0x1B"
abbreviation ENTER :: nat where "ENTER \<equiv> 13"

text \<open>The length of the match of \<^verbatim>\<open>ESCAPES\<close> at the start of a text: a control sequence, an operating system command, or two units.\<close>

definition csi_length :: "nat list \<Rightarrow> nat option" where
  "csi_length t =
     (case t of
        e # b # rest \<Rightarrow>
          if e = ESC \<and> b = 0x5B then
            let p = takeWhile (\<lambda>c. 0x30 \<le> c \<and> c \<le> 0x3F) rest; q = takeWhile (\<lambda>c. 0x20 \<le> c \<and> c \<le> 0x2F) (drop (length p) rest) in
            (case drop (length p + length q) rest of
               c # _ \<Rightarrow> if 0x40 \<le> c \<and> c \<le> 0x7E then Some (2 + length p + length q + 1) else None
             | [] \<Rightarrow> None)
          else None
      | _ \<Rightarrow> None)"

definition osc_length :: "nat list \<Rightarrow> nat option" where
  "osc_length t =
     (case t of
        e # b # rest \<Rightarrow>
          if e = ESC \<and> b = 0x5D then
            let p = takeWhile (\<lambda>c. c \<noteq> 0x07 \<and> c \<noteq> ESC) rest in
            (case drop (length p) rest of
               c # after \<Rightarrow> if c = 0x07 then Some (2 + length p + 1)
                           else if starts_with after [0x5C] then Some (2 + length p + 2) else None
             | [] \<Rightarrow> None)
          else None
      | _ \<Rightarrow> None)"

definition two_length :: "nat list \<Rightarrow> nat option" where
  "two_length t = (case t of e # c # _ \<Rightarrow> if e = ESC \<and> 0x40 \<le> c \<and> c \<le> 0x5F then Some 2 else None | _ \<Rightarrow> None)"

definition escape_length :: "nat list \<Rightarrow> nat option" where
  "escape_length t =
     (case csi_length t of Some n \<Rightarrow> Some n | None \<Rightarrow>
       (case osc_length t of Some n \<Rightarrow> Some n | None \<Rightarrow> two_length t))"

text \<open>\<^verbatim>\<open>replace(ESCAPES, '')\<close>.\<close>

function strip_escapes :: "nat list \<Rightarrow> nat list" where
  "strip_escapes [] = []"
| "strip_escapes (c # t) =
     (case escape_length (c # t) of
        Some n \<Rightarrow> strip_escapes (drop (n - 1) t)
      | None \<Rightarrow> c # strip_escapes t)"
  by pat_completeness auto
termination
  by (relation "measure length") auto

definition js_blank :: "nat \<Rightarrow> bool" where
  "js_blank c \<longleftrightarrow> (9 \<le> c \<and> c \<le> 13) \<or> c \<in> {32, 160, 0x1680, 0x2028, 0x2029, 0x202F, 0x205F, 0x3000, 0xFEFF} \<or> (0x2000 \<le> c \<and> c \<le> 0x200A)"

definition trim_end :: "nat list \<Rightarrow> nat list" where
  "trim_end t = rev (dropWhile js_blank (rev t))"

definition ends_with :: "'a list \<Rightarrow> 'a list \<Rightarrow> bool" where
  "ends_with t s \<longleftrightarrow> starts_with (rev t) (rev s)"

definition lower_unit :: "nat \<Rightarrow> nat" where
  "lower_unit c = (if 65 \<le> c \<and> c \<le> 90 then c + 32 else c)"

text \<open>\<^verbatim>\<open>/(?:w1|w2|..)\s*:$/i\<close>.\<close>

definition prompt_match :: "string list \<Rightarrow> nat list \<Rightarrow> bool" where
  "prompt_match ws shown \<longleftrightarrow>
     shown \<noteq> [] \<and> last shown = 58 \<and>
     list_ex (\<lambda>w. ends_with (map lower_unit (trim_end (butlast shown))) (map of_char w)) ws"

definition USER_PROMPT :: "string list" where
  "USER_PROMPT = [''login'', ''user name'', ''username'', ''user'']"

definition PASSWORD_PROMPT :: "string list" where
  "PASSWORD_PROMPT = [''password'']"

definition TELNET_SIGN_IN_MS :: int where
  "TELNET_SIGN_IN_MS = 30000"

record sign_in =
  si_user :: "ustring option"
  si_password :: "ustring option"
  si_tail :: "nat list"
  si_sent_user :: bool
  si_finished :: bool
  si_started :: int

definition new_sign_in :: "ustring option \<Rightarrow> ustring option \<Rightarrow> int \<Rightarrow> sign_in" where
  "new_sign_in user password now =
     \<lparr>si_user = user, si_password = password, si_tail = [], si_sent_user = False,
      si_finished = (user = None \<and> password = None), si_started = now\<rparr>"

definition sign_in_stop :: "sign_in \<Rightarrow> sign_in" where
  "sign_in_stop s = s\<lparr>si_finished := True\<rparr>"

datatype typed_field = User_field | Password_field

definition last_units :: "nat \<Rightarrow> nat list \<Rightarrow> nat list" where
  "last_units n t = drop (length t - n) t"

definition sign_in_feed :: "sign_in \<Rightarrow> int \<Rightarrow> ustring \<Rightarrow> sign_in \<times> (ustring \<times> typed_field) option" where
  "sign_in_feed s now t =
     (if si_finished s then (s, None)
      else if now - si_started s > TELNET_SIGN_IN_MS then (s\<lparr>si_finished := True\<rparr>, None)
      else
        let tail = last_units 256 (strip_escapes (si_tail s @ utf16 t)); s1 = s\<lparr>si_tail := tail\<rparr>; shown = trim_end tail in
        if prompt_match PASSWORD_PROMPT shown then
          (s1\<lparr>si_finished := True\<rparr>,
           case si_password s of None \<Rightarrow> None | Some p \<Rightarrow> Some (p @ [ENTER], Password_field))
        else if \<not> si_sent_user s \<and> prompt_match USER_PROMPT shown then
          (case si_user s of
             None \<Rightarrow> (s1\<lparr>si_finished := True\<rparr>, None)
           | Some u \<Rightarrow>
               (s1\<lparr>si_sent_user := True, si_tail := [], si_finished := (si_password s = None)\<rparr>,
                Some (u @ [ENTER], User_field)))
        else (s1, None))"

section \<open>The session\<close>

datatype end_reason = Ended_exit | Ended_lost | Ended_closed

text \<open>What the session does: writes to the socket, shows bytes, notes what it typed, tells its end and drops the socket.\<close>

datatype telnet_effect = Wrote bytes | Showed bytes | Typed_log typed_field | Told_exit end_reason | Destroyed

record telnet_session =
  ts_codec :: telnet
  ts_sign_in :: sign_in
  ts_decoder :: text_decoder
  ts_exited :: bool
  ts_failed :: bool
  ts_effects :: "telnet_effect list"

definition ts_do :: "telnet_effect list \<Rightarrow> telnet_session \<Rightarrow> telnet_session" where
  "ts_do es s = s\<lparr>ts_effects := ts_effects s @ es\<rparr>"

definition ts_send :: "bytes \<Rightarrow> telnet_session \<Rightarrow> telnet_session" where
  "ts_send bs s = (if bs \<noteq> [] \<and> \<not> ts_exited s then ts_do [Wrote bs] s else s)"

definition ts_exit :: "end_reason \<Rightarrow> telnet_session \<Rightarrow> telnet_session" where
  "ts_exit r s = (if ts_exited s then s else ts_do [Told_exit r, Destroyed] (s\<lparr>ts_exited := True\<rparr>))"

text \<open>The socket's events and the calls of the session; \<open>Socket_data\<close> carries the clock, \<open>Socket_close\<close> whether the jump chain was lost.\<close>

datatype telnet_event =
    Socket_data bytes int | Socket_error | Socket_close bool
  | Write_keys bytes | Resize_to nat nat | Close_session

fun ts_step :: "telnet_session \<Rightarrow> telnet_event \<Rightarrow> telnet_session" where
  "ts_step s (Socket_data chunk now) =
     (let (c, data, reply) = telnet_receive (ts_codec s) chunk;
          s1 = ts_send reply (s\<lparr>ts_codec := c\<rparr>) in
      if data = [] then s1
      else let s2 = ts_do [Showed data] s1 in
        if si_finished (ts_sign_in s2) then s2
        else let (d, t) = decode_stream (ts_decoder s2) data; (si, typed) = sign_in_feed (ts_sign_in s2) now t;
                 s3 = s2\<lparr>ts_decoder := d, ts_sign_in := si\<rparr> in
          (case typed of
             None \<Rightarrow> s3
           | Some (answer, field) \<Rightarrow> ts_send (telnet_encode (ts_codec s3) (utf8 answer)) (ts_do [Typed_log field] s3)))"
| "ts_step s Socket_error = s\<lparr>ts_failed := True\<rparr>"
| "ts_step s (Socket_close chain_lost) = ts_exit (if ts_failed s \<or> chain_lost then Ended_lost else Ended_exit) s"
| "ts_step s (Write_keys data) =
     (let s1 = (if data \<noteq> [] \<and> hd data \<noteq> 0x1B then s\<lparr>ts_sign_in := sign_in_stop (ts_sign_in s)\<rparr> else s) in
      ts_send (telnet_encode (ts_codec s1) data) s1)"
| "ts_step s (Resize_to cols rows) =
     (let (c, bs) = telnet_resize (ts_codec s) cols rows in ts_send bs (s\<lparr>ts_codec := c\<rparr>))"
| "ts_step s Close_session = ts_exit Ended_closed s"

definition open_telnet :: "string \<Rightarrow> nat \<Rightarrow> nat \<Rightarrow> ustring option \<Rightarrow> ustring option \<Rightarrow> int \<Rightarrow> telnet_session" where
  "open_telnet terminal_type cols rows user password now =
     (let (c, offers) = telnet_start (new_telnet terminal_type cols rows) in
      ts_send offers \<lparr>ts_codec = c, ts_sign_in = new_sign_in user password now, ts_decoder = new_text_decoder,
        ts_exited = False, ts_failed = False, ts_effects = []\<rparr>)"

section \<open>The sign-in types each credential once\<close>

definition typed_log :: "telnet_session \<Rightarrow> typed_field list" where
  "typed_log s = List.map_filter (\<lambda>e. case e of Typed_log f \<Rightarrow> Some f | _ \<Rightarrow> None) (ts_effects s)"

lemma map_filter_append [simp]: "List.map_filter f (xs @ ys) = List.map_filter f xs @ List.map_filter f ys"
  by (simp add: List.map_filter_def)

lemma typed_log_simps [simp]:
  "typed_log (ts_send bs s) = typed_log s" "typed_log (ts_exit r s) = typed_log s"
  "typed_log (ts_do [Typed_log f] s) = typed_log s @ [f]" "typed_log (ts_do [Showed bs] s) = typed_log s"
  "typed_log (s\<lparr>ts_codec := c\<rparr>) = typed_log s" "typed_log (s\<lparr>ts_sign_in := si\<rparr>) = typed_log s"
  "typed_log (s\<lparr>ts_decoder := d\<rparr>) = typed_log s" "typed_log (s\<lparr>ts_failed := b\<rparr>) = typed_log s"
  by (simp_all add: typed_log_def ts_send_def ts_exit_def ts_do_def List.map_filter_simps)

lemma sign_in_simps [simp]:
  "ts_sign_in (ts_send bs s) = ts_sign_in s" "ts_sign_in (ts_exit r s) = ts_sign_in s" "ts_sign_in (ts_do es s) = ts_sign_in s"
  by (simp_all add: ts_send_def ts_exit_def ts_do_def)

text \<open>How far the sign-in is: nothing typed, the user typed, or over.\<close>

definition typed_so_far :: "telnet_session \<Rightarrow> bool" where
  "typed_so_far s \<longleftrightarrow>
     (let si = ts_sign_in s in
      (si_finished si \<or> typed_log s = (if si_sent_user si then [User_field] else [])) \<and>
      typed_log s \<in> {[], [User_field], [Password_field], [User_field, Password_field]})"

text \<open>What one feed of the sign-in may do.\<close>

lemma sign_in_feed_cases:
  assumes "sign_in_feed si now t = (si', typed)"
  shows "(typed = None \<and> (si_finished si \<longrightarrow> si' = si) \<and> (si_sent_user si' = si_sent_user si)) \<or>
    (\<not> si_finished si \<and> now - si_started si \<le> TELNET_SIGN_IN_MS \<and>
     ((\<exists>p. typed = Some (p, Password_field) \<and> si_finished si') \<or>
      (\<exists>u. typed = Some (u, User_field) \<and> \<not> si_sent_user si \<and> si_sent_user si')))"
  using assms by (auto simp: sign_in_feed_def Let_def split: if_splits option.splits)

lemma sign_in_feed_started: "si_started (fst (sign_in_feed si now t)) = si_started si"
  by (simp add: sign_in_feed_def Let_def split: option.split)

lemma socket_data_sign_in:
  "(ts_sign_in (ts_step s (Socket_data chunk now)) = ts_sign_in s \<and> typed_log (ts_step s (Socket_data chunk now)) = typed_log s) \<or>
   (\<exists>t typed. sign_in_feed (ts_sign_in s) now t = (ts_sign_in (ts_step s (Socket_data chunk now)), typed) \<and>
      typed_log (ts_step s (Socket_data chunk now)) = typed_log s @ (case typed of None \<Rightarrow> [] | Some (a, f) \<Rightarrow> [f]))"
proof -
  obtain c data reply where r: "telnet_receive (ts_codec s) chunk = (c, data, reply)" by (cases "telnet_receive (ts_codec s) chunk")
  obtain d t where d: "decode_stream (ts_decoder s) data = (d, t)" by (cases "decode_stream (ts_decoder s) data")
  obtain si typed where f: "sign_in_feed (ts_sign_in s) now t = (si, typed)" by (cases "sign_in_feed (ts_sign_in s) now t")
  have dec: "ts_decoder (ts_do es (ts_send reply (s\<lparr>ts_codec := c\<rparr>))) = ts_decoder s" for es
    by (simp add: ts_do_def ts_send_def)
  show ?thesis
  proof (cases "data = [] \<or> si_finished (ts_sign_in s)")
    case True
    then show ?thesis by (intro disjI1) (auto simp: r Let_def)
  next
    case False
    then show ?thesis
      by (intro disjI2 exI [of _ t] exI [of _ typed]) (auto simp: r d f dec Let_def split: option.split)
  qed
qed

lemma typed_so_far_step: "typed_so_far s \<Longrightarrow> typed_so_far (ts_step s e)"
proof (cases e)
  case (Socket_data chunk now)
  assume inv: "typed_so_far s"
  show ?thesis
    using socket_data_sign_in [of s chunk now] inv
    by (auto simp: Socket_data typed_so_far_def Let_def simp del: ts_step.simps dest!: sign_in_feed_cases split: if_splits)
qed (auto simp: typed_so_far_def sign_in_stop_def telnet_resize_def Let_def)

text \<open>Over is over: nothing is typed any more.\<close>

definition typed_below :: "telnet_session \<Rightarrow> telnet_session \<Rightarrow> bool" where
  "typed_below s s' \<longleftrightarrow> (si_finished (ts_sign_in s) \<longrightarrow> si_finished (ts_sign_in s') \<and> typed_log s' = typed_log s)"

lemma typed_below_step: "typed_below s (ts_step s e)"
proof (cases e)
  case (Socket_data chunk now)
  show ?thesis
    using socket_data_sign_in [of s chunk now]
    by (auto simp: Socket_data typed_below_def simp del: ts_step.simps dest!: sign_in_feed_cases)
qed (auto simp: typed_below_def sign_in_stop_def telnet_resize_def Let_def)

interpretation telnet_sign_in: climbing_machine ts_step typed_so_far typed_below
  by unfold_locales (auto simp: typed_so_far_step typed_below_step, auto simp: typed_below_def)

lemma open_telnet_typed: "typed_so_far (open_telnet ty cols rows u p now)"
  by (simp add: open_telnet_def typed_so_far_def new_sign_in_def Let_def case_prod_unfold ts_send_def ts_do_def typed_log_def
      List.map_filter_simps)

definition person_types :: "telnet_event \<Rightarrow> bool" where
  "person_types e \<longleftrightarrow> (case e of Write_keys d \<Rightarrow> d \<noteq> [] \<and> hd d \<noteq> 0x1B | _ \<Rightarrow> False)"



section \<open>Bytes on the wire\<close>

lemma terminal_part_simps [simp]:
  "terminal_part [] = []" "terminal_part (To_terminal b # os) = b # terminal_part os"
  "terminal_part (To_server b # os) = terminal_part os" "terminal_part (os @ ps) = terminal_part os @ terminal_part ps"
  by (simp_all add: terminal_part_def List.map_filter_simps)

lemma server_part_simps [simp]:
  "server_part [] = []" "server_part (To_terminal b # os) = server_part os"
  "server_part (To_server b # os) = b # server_part os" "server_part (os @ ps) = server_part os @ server_part ps"
  by (simp_all add: server_part_def List.map_filter_simps)

lemma part_to_server [simp]: "terminal_part (map To_server r) = []" "server_part (map To_server r) = r"
  by (induction r) simp_all

lemma telnet_bytes_append:
  "telnet_bytes t (xs @ ys) = (let (t1, o1) = telnet_bytes t xs; (t2, o2) = telnet_bytes t1 ys in (t2, o1 @ o2))"
  by (induction xs arbitrary: t) (simp_all add: Let_def case_prod_unfold)

text \<open>The reader of the server's bytes, another parser fed in chunks.\<close>

interpretation telnet_reading: chunked_parser "\<lambda>t c. Inr (telnet_bytes t c) :: (unit, telnet \<times> telnet_out list) result" "\<lambda>t. True"
  by unfold_locales (auto simp: telnet_bytes_append split: prod.split)

text \<open>What the text typed is, as the terminal at the other end gets it.\<close>

fun newlines :: "bytes \<Rightarrow> bytes" where
  "newlines [] = []"
| "newlines (b # bs) =
     (if b = CR_byte then CR_byte # LF_byte # (if starts_with bs [LF_byte] then newlines (drop 1 bs) else newlines bs)
      else b # newlines bs)"

text \<open>A reader takes CR NUL for CR, also when both directions are binary.\<close>

fun after_cr_nul :: "bool \<Rightarrow> bytes \<Rightarrow> bytes" where
  "after_cr_nul cr [] = []"
| "after_cr_nul cr (b # bs) = (if cr \<and> b = NUL_byte then after_cr_nul False bs else b # after_cr_nul (b = CR_byte) bs)"

lemma telnet_byte_data:
  assumes "tn_state p = In_data" "b \<noteq> IAC" "\<not> (tn_after_cr p \<and> b = NUL_byte)"
  shows "telnet_byte p b = (p\<lparr>tn_after_cr := (b = CR_byte)\<rparr>, [To_terminal b])"
  using assms by (simp add: telnet_byte_def)

lemma encode_text_received:
  "tn_state p = In_data \<Longrightarrow> \<not> tn_after_cr p \<Longrightarrow>
   \<exists>p'. telnet_bytes p (encode_bytes False input) = (p', map To_terminal (newlines input)) \<and> tn_state p' = In_data \<and>
     \<not> tn_after_cr p' \<and> tn_us p' = tn_us p \<and> tn_him p' = tn_him p"
proof (induction "False" input arbitrary: p rule: encode_bytes.induct)
  case (2 b bs)
  consider "b = IAC" | "b = CR_byte" | "b \<noteq> IAC" "b \<noteq> CR_byte" by blast
  then show ?case
  proof cases
    case 1
    have st: "telnet_bytes p (IAC # IAC # es) =
        (let (t, os) = telnet_bytes (p\<lparr>tn_after_cr := False, tn_state := In_data\<rparr>) es in (t, To_terminal IAC # os))" for es
      using "2.prems" by (simp add: telnet_byte_def Let_def case_prod_unfold)
    show ?thesis using "2.hyps"(1) [OF 1, of "p\<lparr>tn_after_cr := False, tn_state := In_data\<rparr>"] by (auto simp: 1 st simp del: telnet_bytes.simps(2))
  next
    case 2
    have st: "telnet_bytes p (CR_byte # LF_byte # es) =
        (let (t, os) = telnet_bytes (p\<lparr>tn_after_cr := False\<rparr>) es in (t, To_terminal CR_byte # To_terminal LF_byte # os))" for es
      using "2.prems" by (simp add: telnet_byte_def Let_def case_prod_unfold)
    show ?thesis
      using "2.hyps"(2,3) [of "p\<lparr>tn_after_cr := False\<rparr>"] "2.prems" by (auto simp: 2 st simp del: telnet_bytes.simps(2))
  next
    case 3
    have st: "telnet_bytes p (b # es) = (let (t, os) = telnet_bytes (p\<lparr>tn_after_cr := False\<rparr>) es in (t, To_terminal b # os))" for es
      using 3 "2.prems" by (simp add: telnet_byte_data Let_def case_prod_unfold)
    show ?thesis using "2.hyps"(4) [of "p\<lparr>tn_after_cr := False\<rparr>"] 3 "2.prems" by (auto simp: st simp del: telnet_bytes.simps(2))
  qed
qed simp

lemma encode_binary_received:
  "tn_state p = In_data \<Longrightarrow>
   \<exists>p'. telnet_bytes p (encode_bytes True input) = (p', map To_terminal (after_cr_nul (tn_after_cr p) input)) \<and>
     tn_state p' = In_data \<and> tn_us p' = tn_us p \<and> tn_him p' = tn_him p"
proof (induction input arbitrary: p)
  case (Cons b bs)
  consider "b = IAC" | "tn_after_cr p \<and> b = NUL_byte" | "b \<noteq> IAC" "\<not> (tn_after_cr p \<and> b = NUL_byte)" by blast
  then show ?case
  proof cases
    case 1
    have st: "telnet_bytes p (IAC # IAC # es) =
        (let (t, os) = telnet_bytes (p\<lparr>tn_after_cr := False, tn_state := In_data\<rparr>) es in (t, To_terminal IAC # os))" for es
      using Cons.prems by (simp add: telnet_byte_def Let_def case_prod_unfold)
    show ?thesis using Cons.IH [of "p\<lparr>tn_after_cr := False, tn_state := In_data\<rparr>"] by (auto simp: 1 st simp del: telnet_bytes.simps(2))
  next
    case 2
    then have "telnet_byte p b = (p\<lparr>tn_after_cr := False\<rparr>, [])" using Cons.prems by (simp add: telnet_byte_def)
    then show ?thesis using Cons.IH [of "p\<lparr>tn_after_cr := False\<rparr>"] Cons.prems 2 by auto
  next
    case 3
    then show ?thesis
      using Cons.IH [of "p\<lparr>tn_after_cr := (b = CR_byte)\<rparr>"] Cons.prems telnet_byte_data [OF Cons.prems 3] by auto
  qed
qed simp

text \<open>Bytes that are commands and nothing else, for any reader.\<close>

definition commands_only :: "bytes \<Rightarrow> bool" where
  "commands_only bs \<longleftrightarrow>
     (\<forall>p. tn_state p = In_data \<longrightarrow> terminal_part (snd (telnet_bytes p bs)) = [] \<and> tn_state (fst (telnet_bytes p bs)) = In_data)"

lemma commands_only_Nil [simp]: "commands_only []"
  by (simp add: commands_only_def)

lemma commands_only_append: "commands_only xs \<Longrightarrow> commands_only ys \<Longrightarrow> commands_only (xs @ ys)"
  by (simp add: commands_only_def telnet_bytes_append Let_def case_prod_unfold)

lemma commands_only_verb: "v \<in> {WILL, WONT, DO, DONT} \<Longrightarrow> commands_only [IAC, v, k]"
  unfolding commands_only_def
proof (intro allI impI)
  fix p :: telnet assume v: "v \<in> {WILL, WONT, DO, DONT}" and p: "tn_state p = In_data"
  obtain q r where n: "negotiate (p\<lparr>tn_verb := v, tn_state := In_verb\<rparr>) v k = (q, r)"
    by (cases "negotiate (p\<lparr>tn_verb := v, tn_state := In_verb\<rparr>) v k")
  have "telnet_bytes p [IAC, v, k] = (q\<lparr>tn_state := In_data\<rparr>, map To_server r)"
    using p v n by (auto simp: telnet_byte_def)
  then show "terminal_part (snd (telnet_bytes p [IAC, v, k])) = [] \<and> tn_state (fst (telnet_bytes p [IAC, v, k])) = In_data"
    by simp
qed

lemma sub_payload:
  "tn_state p = In_sb \<Longrightarrow> IAC \<notin> set bs \<Longrightarrow> telnet_bytes p bs = (p\<lparr>tn_sub := tn_sub p @ bs\<rparr>, [])"
proof (induction bs arbitrary: p)
  case (Cons b bs)
  then show ?case using Cons.IH [of "p\<lparr>tn_sub := tn_sub p @ [b]\<rparr>"] by (simp add: telnet_byte_def)
qed simp

lemma sub_doubled:
  "tn_state p = In_sb \<Longrightarrow>
   telnet_bytes p (concat (map (\<lambda>b. if b = IAC then [IAC, IAC] else [b]) bs)) = (p\<lparr>tn_sub := tn_sub p @ bs\<rparr>, [])"
proof (induction bs arbitrary: p)
  case (Cons b bs)
  then show ?case
    using Cons.IH [of "p\<lparr>tn_sub := tn_sub p @ [b]\<rparr>"] Cons.IH [of "p\<lparr>tn_sub := tn_sub p @ [b], tn_state := In_sb\<rparr>"]
    by (simp add: telnet_byte_def)
qed simp

lemma commands_only_sub:
  assumes "\<And>p. tn_state p = In_sb \<Longrightarrow> telnet_bytes p bs = (p\<lparr>tn_sub := tn_sub p @ ps\<rparr>, [])"
  shows "commands_only ([IAC, SB] @ bs @ [IAC, SE])"
  unfolding commands_only_def
proof (intro allI impI)
  fix p :: telnet assume p: "tn_state p = In_data"
  let ?q = "p\<lparr>tn_state := In_sb, tn_sub := []\<rparr>"
  have 1: "telnet_bytes p [IAC, SB] = (?q, [])" using p by (simp add: telnet_byte_def)
  have 2: "telnet_bytes ?q bs = (?q\<lparr>tn_sub := tn_sub ?q @ ps\<rparr>, [])" by (rule assms) simp
  have 3: "telnet_bytes (?q\<lparr>tn_sub := tn_sub ?q @ ps\<rparr>) [IAC, SE] =
      (p\<lparr>tn_sub := [], tn_state := In_data\<rparr>, map To_server (subnegotiate (p\<lparr>tn_sub := ps, tn_state := In_sb_iac\<rparr>) ps))"
    by (simp add: telnet_byte_def)
  have "telnet_bytes p ([IAC, SB] @ bs @ [IAC, SE]) =
      (p\<lparr>tn_sub := [], tn_state := In_data\<rparr>, map To_server (subnegotiate (p\<lparr>tn_sub := ps, tn_state := In_sb_iac\<rparr>) ps))"
    unfolding telnet_bytes_append 1 2 3 Let_def prod.case by (simp only: append_Nil 2 3 prod.case)
  then show "terminal_part (snd (telnet_bytes p ([IAC, SB] @ bs @ [IAC, SE]))) = [] \<and>
      tn_state (fst (telnet_bytes p ([IAC, SB] @ bs @ [IAC, SE]))) = In_data" by simp
qed

lemma naws_commands: "commands_only (naws t)"
proof -
  let ?d = "concat (map (\<lambda>b. if b = IAC then [IAC, IAC] else [b])
       [byte_of (tn_cols t div 256), byte_of (tn_cols t), byte_of (tn_rows t div 256), byte_of (tn_rows t)])"
  have "commands_only ([IAC, SB] @ (opt_naws # ?d) @ [IAC, SE])"
  proof (rule commands_only_sub)
    fix p :: telnet assume p: "tn_state p = In_sb"
    have "telnet_bytes p (opt_naws # ?d) =
        (let (t1, os) = telnet_bytes (p\<lparr>tn_sub := tn_sub p @ [opt_naws]\<rparr>) ?d in (t1, os))"
      using p by (simp add: telnet_byte_def Let_def del: concat.simps list.map)
    also have "\<dots> = (p\<lparr>tn_sub := tn_sub p @ opt_naws # [byte_of (tn_cols t div 256), byte_of (tn_cols t), byte_of (tn_rows t div 256), byte_of (tn_rows t)]\<rparr>, [])"
      using sub_doubled [of "p\<lparr>tn_sub := tn_sub p @ [opt_naws]\<rparr>"
          "[byte_of (tn_cols t div 256), byte_of (tn_cols t), byte_of (tn_rows t div 256), byte_of (tn_rows t)]"] p
      by (simp del: concat.simps list.map)
    finally show "telnet_bytes p (opt_naws # ?d) = \<dots>" .
  qed
  then show ?thesis by (simp add: naws_def)
qed

text \<open>Whatever a reader sends back is commands, when the terminal type has no IAC in it.\<close>

lemma negotiate_commands: "commands_only (snd (negotiate t v k))"
  using commands_only_append [OF commands_only_verb [of WILL k] naws_commands]
  by (auto simp: negotiate_def Let_def naws_commands commands_only_verb)

lemma subnegotiate_commands: "IAC \<notin> set (type_bytes (tn_type t)) \<Longrightarrow> commands_only (subnegotiate t sub)"
proof -
  assume ty: "IAC \<notin> set (type_bytes (tn_type t))"
  have "commands_only ([IAC, SB] @ ([opt_ttype, TTYPE_IS] @ type_bytes (tn_type t)) @ [IAC, SE])"
    by (rule commands_only_sub) (rule sub_payload, use ty in auto)
  then show ?thesis by (simp add: subnegotiate_def split: list.split)
qed

lemma telnet_byte_type: "tn_type (fst (telnet_byte t b)) = tn_type t"
proof -
  have "tn_type (fst (negotiate t v k)) = tn_type t" for v k by (simp add: negotiate_def Let_def)
  then show ?thesis by (cases "tn_state t") (simp_all add: telnet_byte_def Let_def case_prod_unfold)
qed

lemma telnet_byte_commands:
  "IAC \<notin> set (type_bytes (tn_type t)) \<Longrightarrow> commands_only (server_part (snd (telnet_byte t b)))"
  by (cases "tn_state t") (simp_all add: telnet_byte_def Let_def case_prod_unfold negotiate_commands subnegotiate_commands)

lemma replies_commands:
  "IAC \<notin> set (type_bytes (tn_type t)) \<Longrightarrow> commands_only (server_part (snd (telnet_bytes t bs)))"
proof (induction bs arbitrary: t)
  case (Cons b bs)
  have "commands_only (server_part (snd (telnet_bytes (fst (telnet_byte t b)) bs)))"
    by (rule Cons.IH) (use Cons.prems in \<open>simp add: telnet_byte_type\<close>)
  then show ?case using commands_only_append telnet_byte_commands [OF Cons.prems, of b] by (simp add: Let_def case_prod_unfold)
qed simp

text \<open>C39: What this side sends means at the other end what it should. Text typed arrives as it was typed, IAC bytes included, each
  Enter as one newline, and answers nothing; where both directions are binary the text arrives byte for byte, except that
  this reader still takes CR NUL for CR. And an answer to the server, an offer or a window size is read as commands: nothing of
  it reaches the terminal.\<close>

theorem telnet_sends_what_is_meant:
  assumes "tn_state p = In_data" "\<not> tn_after_cr p" "IAC \<notin> set (type_bytes (tn_type t))"
  shows "(\<exists>p'. telnet_receive p (telnet_encode t input) =
      (p', if client_does t opt_binary \<and> server_does t opt_binary then after_cr_nul False input else newlines input, []) \<and>
      tn_state p' = In_data) \<and>
    fst (snd (telnet_receive p (snd (snd (telnet_receive t chunk))))) = [] \<and>
    fst (snd (telnet_receive p (snd (telnet_resize t cols rows)))) = [] \<and>
    fst (snd (telnet_receive p (snd (telnet_start t)))) = []"
proof (intro conjI)
  have parts: "terminal_part (map To_terminal xs) = xs" "server_part (map To_terminal xs) = []" for xs
    by (induction xs) simp_all
  show "\<exists>p'. telnet_receive p (telnet_encode t input) =
      (p', if client_does t opt_binary \<and> server_does t opt_binary then after_cr_nul False input else newlines input, []) \<and>
      tn_state p' = In_data"
    using encode_binary_received [OF assms(1), of input] encode_text_received [OF assms(1,2), of input] assms(2)
    by (auto simp: telnet_receive_def telnet_encode_def parts)
  have c: "fst (snd (telnet_receive p bs)) = []" if "commands_only bs" for bs
    using that assms(1) by (simp add: commands_only_def telnet_receive_def Let_def case_prod_unfold)
  show "fst (snd (telnet_receive p (snd (snd (telnet_receive t chunk))))) = []"
    using c replies_commands [OF assms(3), of chunk] by (simp add: telnet_receive_def [of t] Let_def case_prod_unfold)
  show "fst (snd (telnet_receive p (snd (telnet_resize t cols rows)))) = []"
    by (rule c) (simp add: telnet_resize_def Let_def naws_commands)
  have "commands_only ([IAC, WILL, opt_ttype] @ [IAC, WILL, opt_naws] @ [IAC, DO, opt_sga])"
    by (intro commands_only_append commands_only_verb) simp_all
  then show "fst (snd (telnet_receive p (snd (telnet_start t)))) = []" by (intro c) (simp add: telnet_start_def)
qed

section \<open>An answer is never answered\<close>

text \<open>The acknowledgement of what was sent: DO of WILL, and so on.\<close>

definition acknowledged :: "byte \<Rightarrow> byte" where
  "acknowledged v = (if v = WILL then DO else if v = DO then WILL else if v = WONT then DONT else WONT)"

definition options_ok :: "telnet \<Rightarrow> bool" where
  "options_ok t \<longleftrightarrow> (\<forall>k. option_of (tn_us t) k \<noteq> Opt_no \<longrightarrow> k \<in> set CLIENT_WILL) \<and>
     (\<forall>k. option_of (tn_him t) k \<noteq> Opt_no \<longrightarrow> k \<in> set SERVER_MAY)"

lemma option_of_jsset: "option_of (jsset m k s) j = (if j = k then s else option_of m j)"
  by (simp add: option_of_def jsget_jsset)

lemma negotiate_ok: "options_ok t \<Longrightarrow> options_ok (fst (negotiate t v k))"
  by (auto simp: negotiate_def options_ok_def Let_def option_of_jsset)

lemma telnet_byte_ok: "options_ok t \<Longrightarrow> options_ok (fst (telnet_byte t b))"
  using negotiate_ok [of t "tn_verb t" b]
  by (auto simp: telnet_byte_def options_ok_def split: parse_state.split prod.split)

lemma answerI:
  "negotiate t a' k = (t, []) \<Longrightarrow> a' = acknowledged a \<Longrightarrow> a \<in> {WILL, WONT, DO, DONT} \<Longrightarrow> rest \<in> {[], naws t} \<Longrightarrow>
   \<exists>c rest'. IAC # a # k # rest = [IAC, c, k] @ rest' \<and> c \<in> {WILL, WONT, DO, DONT} \<and> rest' \<in> {[], naws t} \<and>
     negotiate t (acknowledged c) k = (t, [])"
  by auto

lemma negotiate_answer:
  assumes "negotiate t v k = (t', r)" "v \<in> {WILL, WONT, DO, DONT}"
  shows "r = [] \<or> (r = naws t' \<and> v = DO \<and> k = opt_naws) \<or>
    (\<exists>a rest. r = [IAC, a, k] @ rest \<and> a \<in> {WILL, WONT, DO, DONT} \<and> rest \<in> {[], naws t'} \<and>
       negotiate t' (acknowledged a) k = (t', []))"
proof -
  note defs = negotiate_def acknowledged_def option_of_jsset
  note answer = answerI [of t' _ k, OF _ refl]
  consider "v = WILL" | "v = WONT" | "v = DO" | "v = DONT" using assms(2) by blast
  then show ?thesis
  proof cases
    case 1
    then have "r = [] \<or> r = [IAC, DONT, k] \<and> negotiate t' (acknowledged DONT) k = (t', []) \<or>
        r = [IAC, DO, k] \<and> negotiate t' (acknowledged DO) k = (t', [])"
      using assms(1) by (cases "option_of (tn_him t) k") (auto simp: defs split: if_splits)
    then show ?thesis using answer [of DONT "[]"] answer [of DO "[]"] by fastforce
  next
    case 2
    then have "r = [] \<or> r = [IAC, DONT, k] \<and> negotiate t' (acknowledged DONT) k = (t', [])"
      using assms(1) by (cases "option_of (tn_him t) k") (auto simp: defs split: if_splits)
    then show ?thesis using answer [of DONT "[]"] by fastforce
  next
    case 3
    then have "r = [] \<or> r = [IAC, WONT, k] \<and> negotiate t' (acknowledged WONT) k = (t', []) \<or>
        r = naws t' \<and> k = opt_naws \<or>
        (\<exists>rest \<in> {[], naws t'}. r = IAC # WILL # k # rest \<and> negotiate t' (acknowledged WILL) k = (t', []))"
      using assms(1)
      by (cases "option_of (tn_us t) k"; cases "k = opt_naws"; cases "k \<in> set CLIENT_WILL") (auto simp: defs Let_def)
    then show ?thesis using answer [of WONT "[]"] answer [of WILL] 3 by fastforce
  next
    case 4
    then have "r = [] \<or> r = [IAC, WONT, k] \<and> negotiate t' (acknowledged WONT) k = (t', [])"
      using assms(1) by (cases "option_of (tn_us t) k") (auto simp: defs split: if_splits)
    then show ?thesis using answer [of WONT "[]"] by fastforce
  qed
qed

lemma receive_verb:
  assumes "tn_state t = In_data" "v \<in> {WILL, WONT, DO, DONT}"
  shows "telnet_receive t [IAC, v, k] =
    (let (t1, r) = negotiate (t\<lparr>tn_verb := v, tn_state := In_verb\<rparr>) v k in (t1\<lparr>tn_state := In_data\<rparr>, [], r))"
  using assms by (auto simp: telnet_receive_def telnet_byte_def Let_def split: prod.split)

lemma negotiate_frame:
  "negotiate (t\<lparr>tn_verb := x, tn_state := y\<rparr>) v k =
     ((fst (negotiate t v k))\<lparr>tn_verb := x, tn_state := y\<rparr>, snd (negotiate t v k))"
  by (simp add: negotiate_def Let_def naws_def)

text \<open>C40: Negotiation does not go round: whatever state the codec is in and whatever verb comes, the reply is nothing, the window
  size, or one answer, and when the server acknowledges that answer nothing is sent and no option changes.\<close>

theorem answer_never_answered:
  assumes "tn_state t = In_data" "v \<in> {WILL, WONT, DO, DONT}" "telnet_receive t [IAC, v, k] = (t', shown, reply)"
  shows "shown = [] \<and>
    (reply = [] \<or> reply = naws t' \<and> v = DO \<and> k = opt_naws \<or>
     (\<exists>a rest t''. reply = [IAC, a, k] @ rest \<and> a \<in> {WILL, WONT, DO, DONT} \<and> rest \<in> {[], naws t'} \<and>
        telnet_receive t' [IAC, acknowledged a, k] = (t'', [], []) \<and> tn_us t'' = tn_us t' \<and> tn_him t'' = tn_him t'))"
proof -
  obtain t1 r where n: "negotiate t v k = (t1, r)" by (cases "negotiate t v k")
  have t': "t' = t1\<lparr>tn_verb := v, tn_state := In_data\<rparr>" "shown = []" "reply = r"
    using assms(3) by (simp_all add: receive_verb [OF assms(1,2)] negotiate_frame n)
  have na: "naws t' = naws t1" by (simp add: t' naws_def)
  have ack: "\<exists>t''. telnet_receive t' [IAC, acknowledged a, k] = (t'', [], []) \<and> tn_us t'' = tn_us t' \<and> tn_him t'' = tn_him t'"
    if "a \<in> {WILL, WONT, DO, DONT}" "negotiate t1 (acknowledged a) k = (t1, [])" for a
  proof -
    have v': "acknowledged a \<in> {WILL, WONT, DO, DONT}" by (simp add: acknowledged_def)
    have st: "tn_state t' = In_data" by (simp add: t')
    have "negotiate t' (acknowledged a) k = (t', [])" using that(2) by (simp add: t' negotiate_frame)
    then show ?thesis by (simp add: receive_verb [OF st v'] negotiate_frame)
  qed
  from negotiate_answer [OF n assms(2)] show ?thesis
  proof (elim disjE exE conjE)
    fix a rest assume a: "r = [IAC, a, k] @ rest" "a \<in> {WILL, WONT, DO, DONT}" "rest \<in> {[], naws t1}"
      "negotiate t1 (acknowledged a) k = (t1, [])"
    then show ?thesis using ack [OF a(2,4)] t' na by metis
  qed (use na t'(2,3) in simp_all)
qed

lemma answer_never_answered_witness:
  "let t = fst (telnet_start (new_telnet ''vt100'' 80 24)) in
   tn_state t = In_data \<and> telnet_receive t [IAC, WILL, opt_echo] = (fst (telnet_receive t [IAC, WILL, opt_echo]), [], [IAC, DO, opt_echo]) \<and>
   snd (telnet_receive (fst (telnet_receive t [IAC, WILL, opt_echo])) [IAC, WILL, opt_echo]) = ([], [])"
proof -
  define t where "t = fst (telnet_start (new_telnet ''vt100'' 80 24))"
  have st: "tn_state t = In_data" by (simp add: t_def telnet_start_def new_telnet_def)
  have r: "telnet_receive t [IAC, WILL, opt_echo] = (fst (telnet_receive t [IAC, WILL, opt_echo]), [], [IAC, DO, opt_echo])"
    by (simp add: t_def telnet_start_def new_telnet_def telnet_receive_def telnet_byte_def negotiate_def option_of_def SERVER_MAY_def)
  define t' where "t' = fst (telnet_receive t [IAC, WILL, opt_echo])"
  have "\<exists>a rest t''. [IAC, DO, opt_echo] = [IAC, a, opt_echo] @ rest \<and> telnet_receive t' [IAC, acknowledged a, opt_echo] = (t'', [], [])"
    using answer_never_answered [OF st insertI1 r [folded t'_def]] by (elim conjE disjE) (simp, simp, blast)
  then have "snd (telnet_receive t' [IAC, WILL, opt_echo]) = ([], [])" by (auto simp: acknowledged_def)
  then show ?thesis using st r unfolding t_def [symmetric] Let_def t'_def by blast
qed

lemma only_known_options:
  "options_ok (fst (telnet_bytes (fst (telnet_start (new_telnet ty cols rows))) bs))"
proof -
  have "options_ok (fst (telnet_bytes t bs))" if "options_ok t" for t
    using that by (induction bs arbitrary: t) (simp_all add: Let_def case_prod_unfold telnet_byte_ok)
  moreover have "options_ok (fst (telnet_start (new_telnet ty cols rows)))"
    by (auto simp: telnet_start_def new_telnet_def options_ok_def option_of_jsset CLIENT_WILL_def SERVER_MAY_def option_of_def
        split: if_splits)
  ultimately show ?thesis by blast
qed

lemma telnet_sends_what_is_meant_witness:
  "let p = new_telnet ''vt100'' 80 24 in
   (\<exists>p'. telnet_receive p (telnet_encode p [65, 13, 10, 255]) = (p', [65, 13, 10, 255], []) \<and> tn_state p' = In_data) \<and>
   fst (snd (telnet_receive p (snd (telnet_start p)))) = []"
proof -
  define p where "p = new_telnet ''vt100'' 80 24"
  have p: "tn_state p = In_data" "\<not> tn_after_cr p" "IAC \<notin> set (type_bytes (tn_type p))" "\<not> client_does p opt_binary"
    by (simp_all add: p_def new_telnet_def type_bytes_def client_does_def byte_of_def)
  have "newlines [65, 13, 10, 255] = [65, 13, 10, 255]" by (simp add: starts_with_def)
  then have "\<exists>p'. telnet_receive p (telnet_encode p [65, 13, 10, 255]) = (p', [65, 13, 10, 255], []) \<and> tn_state p' = In_data"
    using telnet_sends_what_is_meant [OF p(1-3), of "[65, 13, 10, 255]", THEN conjunct1] p(4) by (simp only: simp_thms if_False)
  moreover have "fst (snd (telnet_receive p (snd (telnet_start p)))) = []"
    by (rule telnet_sends_what_is_meant [OF p(1-3), THEN conjunct2, THEN conjunct2, THEN conjunct2])
  ultimately show ?thesis unfolding p_def [symmetric] Let_def by blast
qed

end
