(* ===== verification/Spec2Isabelle.thy ===== *)
theory Spec2Isabelle
  imports Grpc_Framing Ctaphid Cbor Team_Sign Access_Log Merge Tree_Paths Sequence Share_Registry Vault Audit_Chain Limiter Teams Provisioning Masking Stream_Masker Sse Telnet
begin

text \<open>
  A verification library for Wirebench, an API and terminal workbench with a desktop app, a command line and a
  team server. It models the core logic of the repository, mostly \<^verbatim>\<open>packages/core\<close>, \<^verbatim>\<open>packages/server\<close>,
  \<^verbatim>\<open>packages/ssh\<close> and \<^verbatim>\<open>packages/protocol-grpc\<close>. This theory imports the others and states nothing of its own.

  \<^bold>\<open>The parts and how they interact.\<close> A request's text is expanded against the scopes of its project
  (Expansion, Dynamic_Values), its secrets found and loaded before, and everything a run reports goes through the
  masker of what it knows (Masking). A response that streams events is read as it comes (Sse). What a terminal shows goes through
  a masker of its own that holds a value cut in two (Stream_Masker), and a device without SSH is reached by Telnet, whose session
  types the sign-in (Telnet). A sequence runs saved requests and carries values of one response into the next
  (Sequence), in a scope that the expansion treats as data. A shared workspace is a tree of files whose paths
  both ends check (Tree_Paths) and whose versions are merged per file (Merge). Team secrets are files of that tree:
  signed entries (Team_Sign) form the log that says which machine keys are approved and who may change that
  (Access_Log), and the vault seals a value to the approved keys (Vault). The server keeps teams, memberships, workspaces
  and grants (Teams), follows SCIM groups into teams (Provisioning), relays live terminals (Share_Registry),
  limits attempts (Limiter) and chains its audit log (Audit_Chain). FIDO2 keys are spoken to in CTAPHID frames
  (Ctaphid) that carry CBOR (Cbor); gRPC messages are framed (Grpc_Framing).

  \<^bold>\<open>Shared theories.\<close>
  \<^item> Prelude: results of code that may throw (\<open>result\<close>, \<open>bind_result\<close>), bytes, JavaScript's insertion-ordered maps as
    association lists (\<open>jsmap\<close>), and the collections the proofs draw on. Text: strings of code units below 256 and the conversions
    the sources use. Utf8: Unicode text, the encoder, the decoder and the streaming decoder. Iso_Date: \<^verbatim>\<open>Date.parse\<close> of the schemas' date-times.
  \<^item> Machine: the contract of a state that operations change (\<open>machine\<close>: what each operation keeps, every run keeps;
    \<open>climbing_machine\<close>: and the state only climbs a preorder). Its interpretations are the access log's replay, the audit
    chain's events, the share registry's calls, the events of the team tables, the changes of SCIM groups, the stream masker and the
    Telnet sign-in.
  \<^item> Chunked: the contract of a parser fed in chunks; its interpretations are the gRPC reader, the streaming decoder, the
    stream masker and the reader of Telnet commands.

  \<^bold>\<open>Theories, sources and what is shown.\<close>
  \<^item> Dynamic_Values (\<^verbatim>\<open>core/src/project/dynamic.ts\<close>): how a reference is read as a call and remembered for one send.
  \<^item> Expansion (\<^verbatim>\<open>core/src/project/properties.ts\<close>, \<^verbatim>\<open>escape-expansions.ts\<close>, \<^verbatim>\<open>xml/entitize.ts\<close>, \<^verbatim>\<open>run/send-helpers.ts\<close>,
    \<^verbatim>\<open>secrets/resolve.ts\<close>): the tokenizer is \<open>scan\<close>, one reference is \<open>expand_token\<close> and \<open>refer\<close>, the recursion \<open>expand_at\<close> goes down the levels
    left below \<^verbatim>\<open>maxDepth\<close>, so it ends. Escaped text is verbatim; what earlier responses left chooses no reference
    (two runs that differ in Sequence values tell the same story); unresolved references point into the text; the
    secrets a send needs are found before it.
  \<^item> Masking (\<^verbatim>\<open>core/src/redact/literal.ts\<close>): no known value, and no form of it, stands in what is kept of a masked text.
  \<^item> Sequence (\<^verbatim>\<open>core/src/sequence/run.ts\<close>, \<^verbatim>\<open>branch.ts\<close>, \<^verbatim>\<open>transfer.ts\<close>): the state of \<^verbatim>\<open>runSequence\<close> is \<open>run_state\<close>, one pass of its
    loop \<open>loop_body\<close>. The run ends (\<open>run_loop\<close> ends by the measure of steps left and of the \<open>STEP_RUNS\<close> step runs allowed),
    rules fire as often as they may, the last run of a step counts, and results show no secret.
  \<^item> Tree_Paths (\<^verbatim>\<open>core/src/sync/tree-paths.ts\<close>): an accepted path stays inside its tree and never reaches git's own files.
  \<^item> Merge (\<^verbatim>\<open>core/src/sync/three-way-merge.ts\<close>): nothing either side changed is lost without being listed, and the sides agree.
  \<^item> Team_Sign (\<^verbatim>\<open>core/src/team-secrets/sign.ts\<close>, \<^verbatim>\<open>keys.ts\<close>): canonical JSON does not depend on the order of keys, signing
    and verifying round-trip, base64url and base32 are the standard ones.
  \<^item> Access_Log (\<^verbatim>\<open>core/src/team-secrets/log.ts\<close>): the replay keeps its invariant, every change is authorised, removal is
    final, and the outcome does not depend on the order of the files.
  \<^item> Vault (\<^verbatim>\<open>core/src/team-secrets/envelope.ts\<close>, \<^verbatim>\<open>vault.ts\<close>, \<^verbatim>\<open>resolve-conflict.ts\<close>): an entry opens for the keys it
    was sealed to, healing only adds readers, and concurrent versions have one winner.
  \<^item> Teams (\<^verbatim>\<open>server/src/teams/\<close>): \<open>tables\<close> is the schema, each SQL statement and each handler a definition; every change is
    authorised, removal from a team is complete, the listing of workspaces is the role rule.
  \<^item> Provisioning (\<^verbatim>\<open>server/src/sso/provisioning.ts\<close>, \<^verbatim>\<open>repo.ts\<close>, \<^verbatim>\<open>group-links.ts\<close>, \<^verbatim>\<open>scim/groups.ts\<close>): the invariant of the tables
    under every event, what linking and unlinking a group changes, exactly, and that memberships made by hand stay.
  \<^item> Share_Registry (\<^verbatim>\<open>server/src/terminal-shares/registry.ts\<close>): the registry's invariant; input only from the viewer in
    control, control only by the owner's grant, removed users stay out.
  \<^item> Limiter (\<^verbatim>\<open>server/src/operations/limiter.ts\<close>, \<^verbatim>\<open>identity/rate-limit.ts\<close>): both limiters refine one token bucket over
    exact rationals (locale \<open>token_limiter\<close>), so they answer alike, and attempts are bounded.
  \<^item> Audit_Chain (\<^verbatim>\<open>server/src/audit-log/\<close>): links, sealing, retention and verification; the chain the server makes always
    verifies, a head pins the rows before it, a backlog is sealed. Pages are walked by a partial function, shown to
    answer on every chain.
  \<^item> Stream_Masker (\<^verbatim>\<open>ssh/src/stream-masker.ts\<close>): whatever was pushed, added and flushed before, what goes out up to a flush is the
    masked text of the reference, however the bytes are cut.
  \<^item> Sse (\<^verbatim>\<open>core/src/http/sse.ts\<close>): the rows of a response are those of its text read at once, and rows written as an event stream are
    read back. The one cut that matters, an empty chunk after a CR, is \<open>empty_chunk_ends_the_event\<close>.
  \<^item> Telnet (\<^verbatim>\<open>ssh/src/telnet.ts\<close>): what either side sends means at the other end what it should, an answer is never answered, and the
    host's credentials are typed once, and not after the person typed.
  \<^item> Grpc_Framing, Ctaphid, Cbor: the wire formats round-trip, do not depend on chunks, and are bounded.

  \<^bold>\<open>Modelling.\<close> Code that throws gives a \<open>result\<close> whose left side is the error. Cryptographic primitives, random sources,
  clocks, SQL's \<^verbatim>\<open>lower\<close> and the git store are arguments; what is assumed of a primitive (a signature verifies,
  a box opens, a hash does not collide on the inputs at hand) is a named hypothesis of the property that needs it,
  with a witness that meets it. Numbers of the limiter are rationals where the code has floats. A transaction of the server is one
  step; two that run at once are not interleaved, except where a finding says so.

  \<^bold>\<open>Not modelled.\<close> The desktop app and its renderer, the host's services, IPC and wire schemas, the command line and the docs
  hold user interface, file system and process glue; the protocols for REST, SOAP, GraphQL, WebSocket and MCP, the
  importers and the XML tools rest on third-party parsers; SSH sessions rest on the ssh2 package; sign-in rests on
  third-party SAML and OIDC libraries.  Within reach of the same style, and not modelled yet, are the SOCKS proxy
  (\<^verbatim>\<open>ssh/src/socks5.ts\<close>), the comparison of snapshots (\<^verbatim>\<open>core/src/snapshot/json-diff.ts\<close>), and the server's custom domains and licences.
\<close>

end
